(* ===== verification/Nexus_Prelude.thy ===== *)
theory Nexus_Prelude
  imports "HOL-Library.Word" "HOL-Library.Char_ord" "HOL-Library.List_Lexorder"
begin

unbundle bit_operations_syntax

section \<open>Shared material of the Nexus development\<close>

text \<open>
  Names for the fixed-width integers of the C++ sources, raw memory as byte lists
  (\<open>mem_read\<close>, \<open>mem_write\<close> for \<open>memcpy\<close>), the little-endian image of an integer
  field in a packed struct, C strings in fixed-size \<open>char\<close> arrays (\<open>strncpy\<close>,
  \<open>strnlen\<close>), and \<open>std::map\<close> as a list of pairs sorted by key.  The lemmas here are
  the ones several components use; they are declared \<open>[simp]\<close> or collected in
  \<open>mem_simps\<close>, \<open>cstr_simps\<close> and \<open>omap_simps\<close>.
\<close>

named_theorems mem_simps \<open>reads and writes of raw memory\<close>
named_theorems cstr_simps \<open>strings in fixed-size character arrays\<close>
named_theorems omap_simps \<open>lookups in ordered maps\<close>

subsection \<open>Machine integers\<close>

type_synonym u8 = "8 word"
type_synonym u16 = "16 word"
type_synonym u32 = "32 word"
type_synonym u64 = "64 word"
type_synonym bytes = "u8 list"

text \<open>
  \<open>kill(pid, 0)\<close> answers whether a process exists: success, \<open>EPERM\<close> (it exists, but
  belongs to another user), \<open>ESRCH\<close> (it does not exist).  The components of the library
  read the answer in different ways, so it is kept as a value.
\<close>

datatype kill_answer = KILL_OK | KILL_EPERM | KILL_ESRCH

text \<open>The outcome of \<open>pthread_mutex_lock\<close> and \<open>pthread_mutex_timedlock\<close> on a robust mutex.\<close>

datatype lock_answer = LOCK_OK | LOCK_EOWNERDEAD | LOCK_ETIMEDOUT | LOCK_ERROR

subsection \<open>Raw memory\<close>

definition mem_read :: "bytes \<Rightarrow> nat \<Rightarrow> nat \<Rightarrow> bytes" where
  "mem_read buf off n = take n (drop off buf)"

definition mem_write :: "bytes \<Rightarrow> nat \<Rightarrow> bytes \<Rightarrow> bytes" where
  "mem_write buf off bs = take off buf @ bs @ drop (off + length bs) buf"

lemma length_mem_write [simp, mem_simps]:
  "off + length bs \<le> length buf \<Longrightarrow> length (mem_write buf off bs) = length buf"
  by (simp add: mem_write_def)

lemma length_mem_read [simp, mem_simps]:
  "off + n \<le> length buf \<Longrightarrow> length (mem_read buf off n) = n"
  by (simp add: mem_read_def)

lemma mem_read_write_same [simp, mem_simps]:
  "off + length bs \<le> length buf \<Longrightarrow> mem_read (mem_write buf off bs) off (length bs) = bs"
  by (simp add: mem_read_def mem_write_def)

lemma mem_read_write_same_n [mem_simps]:
  "off + n \<le> length buf \<Longrightarrow> n = length bs \<Longrightarrow> mem_read (mem_write buf off bs) off n = bs"
  by simp

lemma mem_read_write_before [mem_simps]:
  "p + n \<le> off \<Longrightarrow> off \<le> length buf \<Longrightarrow> mem_read (mem_write buf off bs) p n = mem_read buf p n"
  by (simp add: mem_read_def mem_write_def drop_take)

lemma mem_read_write_after [mem_simps]:
  "off + length bs \<le> p \<Longrightarrow> off \<le> length buf \<Longrightarrow>
   mem_read (mem_write buf off bs) p n = mem_read buf p n"
  by (simp add: mem_read_def mem_write_def)

lemma mem_read_write_other:
  "p + n \<le> off \<or> off + length bs \<le> p \<Longrightarrow> off \<le> length buf \<Longrightarrow>
   mem_read (mem_write buf off bs) p n = mem_read buf p n"
  by (auto simp: mem_simps)

lemma mem_write_append_at:
  "length xs = off \<Longrightarrow> length ys = length bs \<Longrightarrow> mem_write (xs @ ys @ zs) off bs = xs @ bs @ zs"
  by (simp add: mem_write_def)

lemma mem_read_append_at:
  "length xs = off \<Longrightarrow> length ys = n \<Longrightarrow> mem_read (xs @ ys @ zs) off n = ys"
  by (simp add: mem_read_def)

subsection \<open>Little-endian integers in memory\<close>

text \<open>
  An integer field of \<open>n\<close> bytes as it lies in memory on the little-endian targets of the
  library (x86 and AArch64, Linux and QNX).
\<close>

fun word_to_le :: "nat \<Rightarrow> 'a::len word \<Rightarrow> bytes" where
  "word_to_le 0 w = []"
| "word_to_le (Suc n) w = ucast w # word_to_le n (drop_bit 8 w)"

fun le_to_word :: "bytes \<Rightarrow> 'a::len word" where
  "le_to_word [] = 0"
| "le_to_word (b # bs) = ucast b OR push_bit 8 (le_to_word bs)"

lemma length_word_to_le [simp]: "length (word_to_le n w) = n"
  by (induction n arbitrary: w) auto

lemma le_to_word_word_to_le: "le_to_word (word_to_le n w) = take_bit (8 * n) w"
proof (induction n arbitrary: w)
  case 0
  then show ?case by simp
next
  case (Suc n)
  show ?case
    by (rule bit_eqI)
      (auto simp: Suc.IH bit_simps not_less less_diff_conv2)
qed

lemma le_to_word_roundtrip [simp]:
  fixes w :: "'a::len word"
  shows "LENGTH('a) \<le> 8 * n \<Longrightarrow> le_to_word (word_to_le n w) = w"
  by (simp add: le_to_word_word_to_le take_bit_word_eq_self)

lemma take_bit_le_to_word:
  "8 * length bs \<le> n \<Longrightarrow> take_bit n (le_to_word bs :: 'a::len word) = le_to_word bs"
proof (induction bs arbitrary: n)
  case Nil
  then show ?case by simp
next
  case (Cons b bs)
  obtain m where n: "n = m + 8" "8 * length bs \<le> m"
    using Cons.prems by (auto simp: le_iff_add)
  have "take_bit n (push_bit 8 (le_to_word bs) :: 'a word) = push_bit 8 (le_to_word bs)"
    using Cons.IH [of m] n by (simp add: take_bit_push_bit)
  moreover have "take_bit n (ucast b :: 'a word) = ucast b"
  proof (rule bit_eqI)
    fix i
    have "bit b i \<Longrightarrow> i < n"
      using n(1) by (auto dest: bit_imp_le_length)
    then show "bit (take_bit n (ucast b :: 'a word)) i = bit (ucast b :: 'a word) i"
      by (auto simp: bit_simps)
  qed
  ultimately show ?case by (simp add: take_bit_or)
qed

lemma word_to_le_le_to_word:
  "length bs = n \<Longrightarrow> 8 * n \<le> LENGTH('a) \<Longrightarrow> word_to_le n (le_to_word bs :: 'a::len word) = bs"
proof (induction bs arbitrary: n)
  case Nil
  then show ?case by simp
next
  case (Cons b bs)
  then obtain m where n: "n = Suc m" by (cases n) auto
  have len: "8 \<le> LENGTH('a)" using Cons.prems n by simp
  have low: "ucast (ucast b OR push_bit 8 (le_to_word bs) :: 'a word) = b"
    by (rule bit_eqI) (use len in \<open>auto simp: bit_simps dest: bit_imp_le_length\<close>)
  have "drop_bit 8 (ucast b OR push_bit 8 (le_to_word bs) :: 'a word)
      = take_bit (LENGTH('a) - 8) (le_to_word bs)"
    by (rule bit_eqI) (auto simp: bit_simps dest: bit_imp_le_length)
  also have "\<dots> = le_to_word bs"
    by (rule take_bit_le_to_word) (use Cons.prems n in auto)
  finally have high: "drop_bit 8 (ucast b OR push_bit 8 (le_to_word bs) :: 'a word) = le_to_word bs" .
  show ?case using Cons n low high by simp
qed

subsection \<open>Strings and fixed-size character arrays\<close>

text \<open>
  A \<open>std::string\<close> is a \<open>string\<close>; its bytes are \<open>str_bytes\<close>.  \<open>cstr_field N s\<close> is the
  content of a \<open>char[N]\<close> after \<open>strncpy(dst, s.c_str(), N - 1); dst[N - 1] = 0\<close>:
  the copy stops at the first NUL and the rest of the array is zeroed.  \<open>cstr_read\<close>
  is \<open>std::string(const char*)\<close> on such an array.
\<close>

definition str_bytes :: "string \<Rightarrow> bytes" where
  "str_bytes s = map of_char s"

definition bytes_str :: "bytes \<Rightarrow> string" where
  "bytes_str bs = map (\<lambda>b. char_of (unat b)) bs"

definition no_nul :: "string \<Rightarrow> bool" where
  "no_nul s \<longleftrightarrow> (\<forall>c \<in> set s. c \<noteq> CHR 0x00)"

definition c_str :: "string \<Rightarrow> string" where
  "c_str s = takeWhile (\<lambda>c. c \<noteq> CHR 0x00) s"

definition strncpy_pad :: "nat \<Rightarrow> string \<Rightarrow> bytes" where
  "strncpy_pad n s = (let t = str_bytes (take n (c_str s)) in t @ replicate (n - length t) 0)"

definition cstr_field :: "nat \<Rightarrow> string \<Rightarrow> bytes" where
  "cstr_field N s = strncpy_pad (N - 1) s @ [0]"

definition cstr_read :: "bytes \<Rightarrow> string" where
  "cstr_read bs = bytes_str (takeWhile (\<lambda>b. b \<noteq> 0) bs)"

lemma length_str_bytes [simp]: "length (str_bytes s) = length s"
  by (simp add: str_bytes_def)

lemma length_bytes_str [simp]: "length (bytes_str bs) = length bs"
  by (simp add: bytes_str_def)

lemma str_bytes_simps [simp]:
  "str_bytes [] = []" "str_bytes (c # s) = of_char c # str_bytes s"
  "str_bytes (s @ t) = str_bytes s @ str_bytes t"
  by (simp_all add: str_bytes_def)

lemma bytes_str_simps [simp]:
  "bytes_str [] = []" "bytes_str (b # bs) = char_of (unat b) # bytes_str bs"
  "bytes_str (xs @ ys) = bytes_str xs @ bytes_str ys"
  by (simp_all add: bytes_str_def)

lemma of_char_lt_256: "of_char c < (256 :: nat)"
  by (metis of_char_mod_256 mod_less_divisor zero_less_numeral)

lemma unat_of_char [simp]: "unat (of_char c :: u8) = of_char c"
proof -
  have "(of_char c :: u8) = word_of_nat (of_char c)"
    by (simp add: of_nat_of_char)
  then show ?thesis
    using of_char_lt_256 [of c] by (simp add: unat_of_nat)
qed

lemma of_char_u8_eq_0_iff [simp]: "(of_char c :: u8) = 0 \<longleftrightarrow> c = CHR 0x00"
proof -
  have "(of_char c :: u8) = 0 \<longleftrightarrow> (of_char c :: nat) = of_char (CHR 0x00)"
    by (simp flip: unat_of_char add: unat_eq_0)
  then show ?thesis by (simp only: of_char_eq_iff)
qed

lemma bytes_str_str_bytes [simp]: "bytes_str (str_bytes s) = s"
  by (induction s) simp_all

lemma str_bytes_bytes_str [simp]: "str_bytes (bytes_str bs) = bs"
proof (induction bs)
  case (Cons b bs)
  have "(of_char (char_of (unat b)) :: u8) = word_of_nat (of_char (char_of (unat b)))"
    by (simp only: of_nat_of_char)
  also have "\<dots> = b"
  proof -
    have "unat b < 256" using unsigned_less [of b] by simp
    then show ?thesis by simp
  qed
  finally show ?case using Cons by simp
qed simp

lemma str_bytes_take: "str_bytes (take n s) = take n (str_bytes s)"
  by (simp add: str_bytes_def take_map)

lemma takeWhile_str_bytes: "takeWhile (\<lambda>b. b \<noteq> 0) (str_bytes s) = str_bytes (c_str s)"
  by (simp add: c_str_def str_bytes_def takeWhile_map comp_def)

lemma c_str_no_nul [simp, cstr_simps]: "no_nul s \<Longrightarrow> c_str s = s"
  by (simp add: no_nul_def c_str_def takeWhile_eq_all_conv)

lemma no_nul_c_str [simp, cstr_simps]: "no_nul (c_str s)"
  by (auto simp: no_nul_def c_str_def dest: set_takeWhileD)

lemma no_nul_take [simp, cstr_simps]: "no_nul s \<Longrightarrow> no_nul (take n s)"
  by (auto simp: no_nul_def dest: in_set_takeD)

lemma length_strncpy_pad [simp, cstr_simps]: "length (strncpy_pad n s) = n"
  by (simp add: strncpy_pad_def Let_def)

lemma length_cstr_field [simp, cstr_simps]: "0 < N \<Longrightarrow> length (cstr_field N s) = N"
  by (simp add: cstr_field_def)

lemma str_bytes_nonzero: "no_nul t \<Longrightarrow> x \<in> set (str_bytes t) \<Longrightarrow> x \<noteq> 0"
  by (metis (no_types) imageE list.set_map no_nul_def of_char_u8_eq_0_iff str_bytes_def)

lemma takeWhile_str_bytes_pad:
  "no_nul t \<Longrightarrow> takeWhile (\<lambda>b. b \<noteq> 0) (str_bytes t @ replicate k 0 @ [0]) = str_bytes t"
  by (subst takeWhile_append2) (auto dest: str_bytes_nonzero, cases k, auto)

lemma cstr_read_field [cstr_simps]: "cstr_read (cstr_field N s) = take (N - 1) (c_str s)"
  using takeWhile_str_bytes_pad [of "take (N - 1) (c_str s)"]
  by (simp add: cstr_read_def cstr_field_def strncpy_pad_def Let_def)

lemma cstr_roundtrip [cstr_simps]:
  "no_nul s \<Longrightarrow> length s < N \<Longrightarrow> cstr_read (cstr_field N s) = s"
  by (simp add: cstr_read_field)

subsection \<open>Ordered maps\<close>

text \<open>
  \<open>std::map<K, V>\<close> as the list of its pairs in key order, the order in which a
  range-based \<open>for\<close> visits them.  \<open>om_insert\<close> is \<open>m[k] = v\<close>, \<open>om_delete\<close> is
  \<open>erase(k)\<close>, \<open>om_lookup\<close> is \<open>find(k)\<close>.
\<close>

type_synonym ('k, 'v) omap = "('k \<times> 'v) list"

definition om_lookup :: "('k, 'v) omap \<Rightarrow> 'k \<Rightarrow> 'v option" where
  "om_lookup m k = map_of m k"

fun om_insert :: "'k::linorder \<Rightarrow> 'v \<Rightarrow> ('k, 'v) omap \<Rightarrow> ('k, 'v) omap" where
  "om_insert k v [] = [(k, v)]"
| "om_insert k v ((k', v') # m) =
     (if k < k' then (k, v) # (k', v') # m
      else if k = k' then (k, v) # m
      else (k', v') # om_insert k v m)"

definition om_delete :: "'k \<Rightarrow> ('k, 'v) omap \<Rightarrow> ('k, 'v) omap" where
  "om_delete k m = filter (\<lambda>p. fst p \<noteq> k) m"

definition om_wf :: "('k::linorder, 'v) omap \<Rightarrow> bool" where
  "om_wf m \<longleftrightarrow> sorted_wrt (<) (map fst m)"

text \<open>The contract of a dictionary, and what a client may conclude from it.\<close>

locale dictionary =
  fixes nothing :: 'm
    and find :: "'m \<Rightarrow> 'k \<Rightarrow> 'v option"
    and store :: "'k \<Rightarrow> 'v \<Rightarrow> 'm \<Rightarrow> 'm"
    and erase :: "'k \<Rightarrow> 'm \<Rightarrow> 'm"
    and ok :: "'m \<Rightarrow> bool"
  assumes find_nothing: "find nothing k = None"
    and find_store: "ok m \<Longrightarrow> find (store k v m) j = (if j = k then Some v else find m j)"
    and find_erase: "ok m \<Longrightarrow> find (erase k m) j = (if j = k then None else find m j)"
    and ok_nothing: "ok nothing"
    and ok_store: "ok m \<Longrightarrow> ok (store k v m)"
    and ok_erase: "ok m \<Longrightarrow> ok (erase k m)"
begin

lemma ok_fold_erase: "ok m \<Longrightarrow> ok (fold erase ks m)"
  by (induction ks arbitrary: m) (auto simp: ok_erase)

lemma find_fold_erase:
  "ok m \<Longrightarrow> find (fold erase ks m) j = (if j \<in> set ks then None else find m j)"
  by (induction ks arbitrary: m) (auto simp: find_erase ok_erase)

lemma find_store_other: "ok m \<Longrightarrow> j \<noteq> k \<Longrightarrow> find (store k v m) j = find m j"
  by (simp add: find_store)

lemma find_erase_store:
  "ok m \<Longrightarrow> find (erase k (store k v m)) j = (if j = k then None else find m j)"
  by (simp add: find_erase find_store ok_store)

end

lemma set_om_insert: "set (map fst (om_insert k v m)) = insert k (set (map fst m))"
  by (induction k v m rule: om_insert.induct) auto

lemma om_wf_insert: "om_wf m \<Longrightarrow> om_wf (om_insert k v m)"
proof (induction k v m rule: om_insert.induct)
  case (2 k v k' v' m)
  then show ?case
    using set_om_insert [of k v m] by (force simp: om_wf_def)
qed (simp add: om_wf_def)

lemma om_lookup_insert:
  "om_wf m \<Longrightarrow> om_lookup (om_insert k v m) j = (if j = k then Some v else om_lookup m j)"
  by (induction k v m rule: om_insert.induct) (auto simp: om_wf_def om_lookup_def)

lemma om_lookup_delete: "om_lookup (om_delete k m) j = (if j = k then None else om_lookup m j)"
  by (induction m) (auto simp: om_delete_def om_lookup_def)

lemma om_wf_delete: "om_wf m \<Longrightarrow> om_wf (om_delete k m)"
  unfolding om_wf_def om_delete_def
  by (induction m) auto

interpretation om: dictionary "[]" om_lookup om_insert om_delete om_wf
  by unfold_locales
    (auto simp: om_lookup_insert om_lookup_delete om_wf_insert om_wf_delete,
     auto simp: om_lookup_def om_wf_def)

lemmas [omap_simps] = om.find_store om.find_erase om.ok_nothing om.ok_store om.ok_erase

lemma om_lookup_mem: "om_lookup m k = Some v \<Longrightarrow> (k, v) \<in> set m"
  by (simp add: om_lookup_def map_of_SomeD)

lemma om_wf_distinct: "om_wf m \<Longrightarrow> distinct (map fst m)"
  unfolding om_wf_def by (induction m) auto

lemma om_lookup_eq_mem: "om_wf m \<Longrightarrow> om_lookup m k = Some v \<longleftrightarrow> (k, v) \<in> set m"
  by (simp add: om_lookup_def om_wf_distinct)

lemma om_lookup_filter:
  "om_wf m \<Longrightarrow> om_lookup (filter P m) k = (case om_lookup m k of None \<Rightarrow> None | Some v \<Rightarrow> if P (k, v) then Some v else None)"
proof (induction m)
  case (Cons e m)
  then have "fst e \<notin> set (map fst m)" "om_wf m" by (auto simp: om_wf_def)
  then show ?case
    using Cons.IH by (cases e) (auto simp: om_lookup_def map_of_eq_None_iff)
qed (simp add: om_lookup_def)

lemma om_insert_present:
  "om_wf m \<Longrightarrow> om_lookup m k \<noteq> None \<Longrightarrow>
   om_insert k v m = map (\<lambda>p. if fst p = k then (k, v) else p) m"
proof (induction k v m rule: om_insert.induct)
  case (2 k v k' v' m)
  have "(k, w) \<notin> set m" if "k \<le> k'" for w
    using 2(2) that by (force simp: om_wf_def)
  then have "map (\<lambda>p. if fst p = k then (k, v) else p) m = m" if "k \<le> k'"
    using that by (intro map_idI) auto
  moreover have "\<not> k < k'"
  proof
    assume less: "k < k'"
    then obtain w where "(k, w) \<in> set m"
      using 2(3) by (auto simp: om_lookup_def dest!: map_of_SomeD split: if_splits)
    then show False using 2(2) less by (auto simp: om_wf_def)
  qed
  ultimately show ?case
    using 2 by (auto simp: om_wf_def om_lookup_def)
qed (simp add: om_lookup_def)

subsection \<open>Decimal numbers in strings\<close>

text \<open>
  \<open>std::to_string\<close> of an unsigned number; \<open>std::stoi\<close>, where \<open>None\<close> stands for the exceptions
  \<open>invalid_argument\<close> and \<open>out_of_range\<close>; \<open>atoi\<close> and \<open>atoll\<close>, which return 0 without
  digits and are undefined (\<open>None\<close>) on values that the result type cannot hold.  All three skip
  white space and a sign, and ignore what follows the digits.
\<close>

fun show_nat :: "nat \<Rightarrow> string" where
  "show_nat n = (if n < 10 then [char_of (48 + n)] else show_nat (n div 10) @ [char_of (48 + n mod 10)])"

declare show_nat.simps [simp del]

definition is_digit :: "char \<Rightarrow> bool" where
  "is_digit c \<longleftrightarrow> 48 \<le> (of_char c :: nat) \<and> (of_char c :: nat) \<le> 57"

definition is_space :: "char \<Rightarrow> bool" where
  "is_space c \<longleftrightarrow> of_char c = (32 :: nat) \<or> (9 \<le> (of_char c :: nat) \<and> (of_char c :: nat) \<le> 13)"

definition digits_value :: "string \<Rightarrow> int" where
  "digits_value s = foldl (\<lambda>acc c. 10 * acc + (of_char c - 48)) 0 s"

definition parse_int :: "string \<Rightarrow> int option" where
  "parse_int s =
     (let t = dropWhile is_space s;
          (neg, u) = (case t of [] \<Rightarrow> (False, [])
                      | c # cs \<Rightarrow> if c = CHR ''-'' then (True, cs)
                                  else if c = CHR ''+'' then (False, cs) else (False, c # cs));
          ds = takeWhile is_digit u
      in if ds = [] then None else Some (if neg then - digits_value ds else digits_value ds))"

definition in_signed :: "nat \<Rightarrow> int \<Rightarrow> bool" where
  "in_signed w v \<longleftrightarrow> - (2 ^ (w - 1)) \<le> v \<and> v < 2 ^ (w - 1)"

definition stoi :: "string \<Rightarrow> int option" where
  "stoi s = (case parse_int s of None \<Rightarrow> None | Some v \<Rightarrow> if in_signed 32 v then Some v else None)"

definition atoi :: "string \<Rightarrow> int option" where
  "atoi s = (case parse_int s of None \<Rightarrow> Some 0 | Some v \<Rightarrow> if in_signed 32 v then Some v else None)"

definition atoll :: "string \<Rightarrow> int option" where
  "atoll s = (case parse_int s of None \<Rightarrow> Some 0 | Some v \<Rightarrow> if in_signed 64 v then Some v else None)"

lemma of_char_digit: "n < 10 \<Longrightarrow> of_char (char_of (48 + n :: nat)) = 48 + n"
  by simp

lemma is_digit_char: "n < 10 \<Longrightarrow> is_digit (char_of (48 + n :: nat))"
  unfolding is_digit_def by (subst (1 2) of_char_digit) auto

lemma show_nat_digits: "c \<in> set (show_nat n) \<Longrightarrow> is_digit c"
proof (induction n rule: show_nat.induct)
  case (1 n)
  then show ?case
    by (subst (asm) show_nat.simps) (auto split: if_splits simp: is_digit_char)
qed

lemma show_nat_nonempty [simp]: "show_nat n \<noteq> []"
  by (subst show_nat.simps) simp

lemma digits_value_snoc: "digits_value (s @ [c]) = 10 * digits_value s + (of_char c - 48)"
  by (simp add: digits_value_def)

lemma of_char_digit_int: "n < 10 \<Longrightarrow> (of_char (char_of (48 + n :: nat)) :: int) = 48 + int n"
  by (metis of_char_digit of_nat_add of_nat_numeral of_nat_of_char)

lemma digits_value_show_nat: "digits_value (show_nat n) = int n"
proof (induction n rule: show_nat.induct)
  case (1 n)
  show ?case
  proof (cases "n < 10")
    case True
    then have "digits_value (show_nat n) = digits_value ([] @ [char_of (48 + n)])"
      by (subst show_nat.simps) simp
    also have "\<dots> = int n"
      unfolding digits_value_snoc by (subst of_char_digit_int [OF True]) (simp add: digits_value_def)
    finally show ?thesis .
  next
    case False
    then have "digits_value (show_nat n) = 10 * int (n div 10) + int (n mod 10)"
      using 1 of_char_digit_int [of "n mod 10"]
      by (subst show_nat.simps) (simp only: if_False digits_value_snoc, simp)
    also have "\<dots> = int (10 * (n div 10) + n mod 10)" by (simp only: of_nat_add of_nat_mult of_nat_numeral)
    finally show ?thesis by simp
  qed
qed

lemma parse_int_show_nat: "parse_int (show_nat n) = Some (int n)"
proof -
  have sep: "\<not> is_space c" "c \<noteq> CHR ''-''" "c \<noteq> CHR ''+''" if "is_digit c" for c
    using that by (auto simp: is_digit_def is_space_def)
  obtain c cs where s: "show_nat n = c # cs" by (cases "show_nat n") auto
  have "is_digit c" using show_nat_digits [of c n] s by simp
  moreover have "takeWhile is_digit (show_nat n) = show_nat n"
    by (simp add: takeWhile_eq_all_conv show_nat_digits)
  ultimately show ?thesis
    using sep [of c] digits_value_show_nat [of n] s
    by (simp add: parse_int_def Let_def del: takeWhile_eq_all_conv)
qed

lemma stoi_show_nat: "n < 2 ^ 31 \<Longrightarrow> stoi (show_nat n) = Some (int n)"
  by (simp add: stoi_def parse_int_show_nat in_signed_def)

subsection \<open>Slot arrays\<close>

text \<open>
  The shared structures of the library are arrays of slots that a loop scans for the first match
  (an entry with a given key, or a free slot to claim by compare-and-swap).
\<close>

fun find_index :: "('a \<Rightarrow> bool) \<Rightarrow> 'a list \<Rightarrow> nat option" where
  "find_index P [] = None"
| "find_index P (x # xs) = (if P x then Some 0 else map_option Suc (find_index P xs))"

lemma find_index_SomeD:
  "find_index P xs = Some i \<Longrightarrow> i < length xs \<and> P (xs ! i) \<and> (\<forall>j < i. \<not> P (xs ! j))"
proof (induction xs arbitrary: i)
  case (Cons x xs)
  then show ?case by (auto split: if_splits simp: less_Suc_eq_0_disj nth_Cons split: nat.splits)
qed simp

lemma find_index_None_iff: "find_index P xs = None \<longleftrightarrow> (\<forall>x \<in> set xs. \<not> P x)"
  by (induction xs) auto

lemma find_index_cong [fundef_cong]:
  "xs = ys \<Longrightarrow> (\<And>x. x \<in> set ys \<Longrightarrow> P x = Q x) \<Longrightarrow> find_index P xs = find_index Q ys"
  by (induction ys arbitrary: xs) auto

definition count_if :: "('a \<Rightarrow> bool) \<Rightarrow> 'a list \<Rightarrow> nat" where
  "count_if P xs = length (filter P xs)"

lemma count_if_simps [simp]:
  "count_if P [] = 0" "count_if P (x # xs) = (if P x then 1 else 0) + count_if P xs"
  by (simp_all add: count_if_def)

lemma count_if_update:
  "i < length xs \<Longrightarrow> count_if P (xs[i := y]) + (if P (xs ! i) then 1 else 0) =
     count_if P xs + (if P y then 1 else 0)"
proof (induction xs arbitrary: i)
  case (Cons x xs)
  then show ?case by (cases i) auto
qed simp

lemma count_if_0: "count_if P xs = 0 \<longleftrightarrow> (\<forall>x \<in> set xs. \<not> P x)"
  by (induction xs) auto

text \<open>
  A keyed slot array: \<open>key\<close> is \<open>None\<close> for a free slot.  With unique keys, the scan for a key
  finds the one slot that has it.
\<close>

definition unique_keys :: "('a \<Rightarrow> 'k option) \<Rightarrow> 'a list \<Rightarrow> bool" where
  "unique_keys key xs \<longleftrightarrow>
     (\<forall>i j. i < length xs \<longrightarrow> j < length xs \<longrightarrow> key (xs ! i) \<noteq> None \<longrightarrow> key (xs ! i) = key (xs ! j) \<longrightarrow> i = j)"

definition slot_lookup :: "('a \<Rightarrow> 'k option) \<Rightarrow> 'a list \<Rightarrow> 'k \<Rightarrow> 'a option" where
  "slot_lookup key xs k = map_option (\<lambda>i. xs ! i) (find_index (\<lambda>x. key x = Some k) xs)"

lemma find_index_unique:
  assumes "unique_keys key xs" "i < length xs" "key (xs ! i) = Some k"
  shows "find_index (\<lambda>x. key x = Some k) xs = Some i"
proof (cases "find_index (\<lambda>x. key x = Some k) xs")
  case None
  then show ?thesis using assms by (auto simp: find_index_None_iff dest: nth_mem)
next
  case (Some j)
  then have "j < length xs" "key (xs ! j) = Some k" by (auto dest: find_index_SomeD)
  with assms have "j = i" by (auto simp: unique_keys_def)
  with Some show ?thesis by simp
qed

lemma slot_lookup_unique:
  "unique_keys key xs \<Longrightarrow> i < length xs \<Longrightarrow> key (xs ! i) = Some k \<Longrightarrow> slot_lookup key xs k = Some (xs ! i)"
  by (simp add: slot_lookup_def find_index_unique)

lemma slot_lookup_SomeE:
  assumes "slot_lookup key xs k = Some x"
  obtains i where "i < length xs" "xs ! i = x" "key x = Some k"
  using assms by (auto simp: slot_lookup_def dest!: find_index_SomeD)

lemma slot_lookup_None_iff: "slot_lookup key xs k = None \<longleftrightarrow> (\<forall>x \<in> set xs. key x \<noteq> Some k)"
  by (simp add: slot_lookup_def find_index_None_iff)

lemma unique_keys_update:
  assumes "unique_keys key xs" "i < length xs"
    "\<And>k. key y = Some k \<Longrightarrow> key (xs ! i) = Some k \<or> slot_lookup key xs k = None"
  shows "unique_keys key (xs[i := y])"
  unfolding unique_keys_def
proof (intro allI impI)
  fix a b
  assume ab: "a < length (xs[i := y])" "b < length (xs[i := y])"
    "key (xs[i := y] ! a) \<noteq> None" "key (xs[i := y] ! a) = key (xs[i := y] ! b)"
  have fresh: "c = i" if "c < length xs" "key (xs ! c) = key y" "key y \<noteq> None" for c
  proof -
    note c = that
    obtain k where k: "key y = Some k" using c(3) by auto
    then have "key (xs ! i) = Some k"
      using assms(3) [OF k] c(1,2) by (auto simp: slot_lookup_None_iff dest: nth_mem)
    then show ?thesis using assms(1,2) c(1,2) k by (auto simp: unique_keys_def)
  qed
  consider "a = i" "b = i" | "a = i" "b \<noteq> i" | "a \<noteq> i" "b = i" | "a \<noteq> i" "b \<noteq> i" by blast
  then show "a = b"
  proof cases
    case 2
    then show ?thesis using ab assms(2) fresh [of b] by simp
  next
    case 3
    then show ?thesis using ab assms(2) fresh [of a] by simp
  next
    case 4
    then show ?thesis using ab assms(1) by (simp add: unique_keys_def)
  qed simp
qed

lemma slot_lookup_update:
  assumes u: "unique_keys key xs" and i: "i < length xs" and u': "unique_keys key (xs[i := y])"
  shows "slot_lookup key (xs[i := y]) k =
    (if key y = Some k then Some y else if key (xs ! i) = Some k then None else slot_lookup key xs k)"
proof -
  have 1: "slot_lookup key (xs[i := y]) k = Some y" if "key y = Some k"
    using slot_lookup_unique [OF u', of i k] i that by simp
  have 2: "slot_lookup key (xs[i := y]) k = None" if "key (xs ! i) = Some k" "key y \<noteq> Some k"
    unfolding slot_lookup_None_iff
  proof
    fix x assume "x \<in> set (xs[i := y])"
    then obtain j where j: "j < length xs" "x = xs[i := y] ! j" by (auto simp: in_set_conv_nth)
    show "key x \<noteq> Some k"
      using j i that u by (auto simp: nth_list_update unique_keys_def)
  qed
  have 3: "slot_lookup key (xs[i := y]) k = slot_lookup key xs k"
    if "key (xs ! i) \<noteq> Some k" "key y \<noteq> Some k"
  proof (cases "slot_lookup key xs k")
    case None
    then have "slot_lookup key (xs[i := y]) k = None"
      using that by (auto simp: slot_lookup_None_iff dest!: set_update_subset_insert [THEN subsetD])
    with None show ?thesis by simp
  next
    case (Some x)
    then obtain j where j: "j < length xs" "xs ! j = x" "key x = Some k" by (rule slot_lookup_SomeE)
    then have "j \<noteq> i" using that by auto
    then show ?thesis using slot_lookup_unique [OF u', of j k] j Some by simp
  qed
  show ?thesis using 1 2 3 by auto
qed

end
