(* ===== verification/Nexus_Config.thy ===== *)
theory Nexus_Config
  imports Nexus_Prelude
begin

section \<open>Configuration\<close>

text \<open>
  Model of \<open>include/nexus/core/Config.h\<close> and \<open>src/core/Config.cpp\<close>: the configuration record with
  its defaults, the reading of environment variables (an argument \<open>getenv\<close>) and the memory
  estimate.  \<open>size_t\<close> is a 64-bit word, so the conversions of negative numbers and the products
  wrap as they do in the code; \<open>None\<close> is a number for which \<open>atoi\<close> or \<open>atoll\<close> is undefined.

  Shown: the limits that hold of every loaded configuration, and that negative values are taken
  for the upper limit.
\<close>

record NodeConfig =
  nc_max_inbound_queues :: u64
  nc_queue_capacity :: u64
  nc_num_processing_threads :: u64
  nc_max_queue_size :: u64

record TransportConfig =
  tc_enable_udp :: bool
  tc_udp_port_base :: u16
  tc_udp_port_max :: u16

record SharedMemoryConfig =
  sc_queue_capacity :: u64
  sc_max_inbound_queues :: u64
  sc_heartbeat_interval_ms :: u32
  sc_node_timeout_ms :: u32
  sc_message_size :: u64

record LargeDataConfig =
  lc_buffer_size :: u64
  lc_max_block_size :: u64

record Config =
  cfg_node :: NodeConfig
  cfg_transport :: TransportConfig
  cfg_shm :: SharedMemoryConfig
  cfg_large_data :: LargeDataConfig

definition Config_default :: Config where
  "Config_default =
     \<lparr>cfg_node = \<lparr>nc_max_inbound_queues = 32, nc_queue_capacity = 1024, nc_num_processing_threads = 4,
        nc_max_queue_size = 25000\<rparr>,
      cfg_transport = \<lparr>tc_enable_udp = True, tc_udp_port_base = 47200, tc_udp_port_max = 47999\<rparr>,
      cfg_shm = \<lparr>sc_queue_capacity = 1024, sc_max_inbound_queues = 64, sc_heartbeat_interval_ms = 1000,
        sc_node_timeout_ms = 5000, sc_message_size = 2048\<rparr>,
      cfg_large_data = \<lparr>lc_buffer_size = 64 * 1024 * 1024, lc_max_block_size = 8 * 1024 * 1024\<rparr>\<rparr>"

definition clamp :: "u64 \<Rightarrow> u64 \<Rightarrow> u64 \<Rightarrow> u64" where
  "clamp val lo hi = (if val < lo then lo else if val > hi then hi else val)"

text \<open>\<open>if (const char* val = getenv(name)) field = convert(val)\<close>.\<close>

definition env_set ::
    "(string \<Rightarrow> string option) \<Rightarrow> string \<Rightarrow> (string \<Rightarrow> int option) \<Rightarrow> (int \<Rightarrow> Config \<Rightarrow> Config) \<Rightarrow>
     Config \<Rightarrow> Config option" where
  "env_set getenv name convert store c =
     (case getenv name of
        None \<Rightarrow> Some c
      | Some val \<Rightarrow> (case convert val of None \<Rightarrow> None | Some v \<Rightarrow> Some (store v c)))"

definition loadFromEnv_node :: "(string \<Rightarrow> string option) \<Rightarrow> Config \<Rightarrow> Config option" where
  "loadFromEnv_node getenv c0 =
     Option.bind (env_set getenv ''NEXUS_MAX_INBOUND_QUEUES'' atoi
       (\<lambda>v c. c\<lparr>cfg_node := (cfg_node c)\<lparr>nc_max_inbound_queues := clamp (word_of_int v) 8 64\<rparr>\<rparr>) c0) (\<lambda>c1.
     Option.bind (env_set getenv ''NEXUS_QUEUE_CAPACITY'' atoi
       (\<lambda>v c. c\<lparr>cfg_node := (cfg_node c)\<lparr>nc_queue_capacity := clamp (word_of_int v) 64 1024\<rparr>\<rparr>) c1) (\<lambda>c2.
     Option.bind (env_set getenv ''NEXUS_NUM_THREADS'' atoi
       (\<lambda>v c. c\<lparr>cfg_node := (cfg_node c)\<lparr>nc_num_processing_threads := clamp (word_of_int v) 1 16\<rparr>\<rparr>) c2) (\<lambda>c3.
     env_set getenv ''NEXUS_MAX_QUEUE_SIZE'' atoi
       (\<lambda>v c. c\<lparr>cfg_node := (cfg_node c)\<lparr>nc_max_queue_size := word_of_int v\<rparr>\<rparr>) c3)))"

definition loadFromEnv_shm :: "(string \<Rightarrow> string option) \<Rightarrow> Config \<Rightarrow> Config option" where
  "loadFromEnv_shm getenv c0 =
     Option.bind (env_set getenv ''NEXUS_SHM_QUEUE_CAPACITY'' atoi
       (\<lambda>v c. c\<lparr>cfg_shm := (cfg_shm c)\<lparr>sc_queue_capacity := clamp (word_of_int v) 64 1024\<rparr>\<rparr>) c0) (\<lambda>c1.
     Option.bind (env_set getenv ''NEXUS_HEARTBEAT_INTERVAL_MS'' atoi
       (\<lambda>v c. c\<lparr>cfg_shm := (cfg_shm c)\<lparr>sc_heartbeat_interval_ms := word_of_int v\<rparr>\<rparr>) c1) (\<lambda>c2.
     env_set getenv ''NEXUS_NODE_TIMEOUT_MS'' atoi
       (\<lambda>v c. c\<lparr>cfg_shm := (cfg_shm c)\<lparr>sc_node_timeout_ms := word_of_int v\<rparr>\<rparr>) c2))"

definition loadFromEnv_large_data :: "(string \<Rightarrow> string option) \<Rightarrow> Config \<Rightarrow> Config option" where
  "loadFromEnv_large_data getenv c0 =
     Option.bind (env_set getenv ''NEXUS_BUFFER_SIZE'' atoll
       (\<lambda>v c. c\<lparr>cfg_large_data := (cfg_large_data c)\<lparr>lc_buffer_size := word_of_int v\<rparr>\<rparr>) c0) (\<lambda>c1.
     env_set getenv ''NEXUS_MAX_BLOCK_SIZE'' atoll
       (\<lambda>v c. c\<lparr>cfg_large_data := (cfg_large_data c)\<lparr>lc_max_block_size := word_of_int v\<rparr>\<rparr>) c1)"

definition Config_loadFromEnv :: "(string \<Rightarrow> string option) \<Rightarrow> Config \<Rightarrow> Config option" where
  "Config_loadFromEnv getenv c0 =
     Option.bind (loadFromEnv_node getenv c0) (\<lambda>c1.
     Option.bind (loadFromEnv_shm getenv c1) (loadFromEnv_large_data getenv))"

definition Config_calculateMemoryFootprint :: "Config \<Rightarrow> u64" where
  "Config_calculateMemoryFootprint c =
     nc_max_inbound_queues (cfg_node c) * sc_queue_capacity (cfg_shm c) * sc_message_size (cfg_shm c) +
     lc_buffer_size (cfg_large_data c) +
     nc_num_processing_threads (cfg_node c) * nc_max_queue_size (cfg_node c) * 256"

subsection \<open>Limits\<close>

definition config_limits :: "Config \<Rightarrow> bool" where
  "config_limits c \<longleftrightarrow>
     8 \<le> nc_max_inbound_queues (cfg_node c) \<and> nc_max_inbound_queues (cfg_node c) \<le> 64 \<and>
     64 \<le> nc_queue_capacity (cfg_node c) \<and> nc_queue_capacity (cfg_node c) \<le> 1024 \<and>
     1 \<le> nc_num_processing_threads (cfg_node c) \<and> nc_num_processing_threads (cfg_node c) \<le> 16 \<and>
     64 \<le> sc_queue_capacity (cfg_shm c) \<and> sc_queue_capacity (cfg_shm c) \<le> 1024"

lemma clamp_bounds: "lo \<le> hi \<Longrightarrow> lo \<le> clamp v lo hi \<and> clamp v lo hi \<le> hi"
  by (auto simp: clamp_def)

lemma env_set_keeps:
  "env_set getenv name convert store c = Some c' \<Longrightarrow> P c \<Longrightarrow> (\<And>v. P (store v c)) \<Longrightarrow> P c'"
  by (auto simp: env_set_def split: option.splits)

lemma limits_store:
  assumes "config_limits c"
  shows "config_limits (c\<lparr>cfg_node := (cfg_node c)\<lparr>nc_max_inbound_queues := clamp v 8 64\<rparr>\<rparr>)"
    "config_limits (c\<lparr>cfg_node := (cfg_node c)\<lparr>nc_queue_capacity := clamp v 64 1024\<rparr>\<rparr>)"
    "config_limits (c\<lparr>cfg_node := (cfg_node c)\<lparr>nc_num_processing_threads := clamp v 1 16\<rparr>\<rparr>)"
    "config_limits (c\<lparr>cfg_node := (cfg_node c)\<lparr>nc_max_queue_size := v\<rparr>\<rparr>)"
    "config_limits (c\<lparr>cfg_shm := (cfg_shm c)\<lparr>sc_queue_capacity := clamp v 64 1024\<rparr>\<rparr>)"
    "config_limits (c\<lparr>cfg_shm := (cfg_shm c)\<lparr>sc_heartbeat_interval_ms := w\<rparr>\<rparr>)"
    "config_limits (c\<lparr>cfg_shm := (cfg_shm c)\<lparr>sc_node_timeout_ms := w\<rparr>\<rparr>)"
    "config_limits (c\<lparr>cfg_large_data := (cfg_large_data c)\<lparr>lc_buffer_size := v\<rparr>\<rparr>)"
    "config_limits (c\<lparr>cfg_large_data := (cfg_large_data c)\<lparr>lc_max_block_size := v\<rparr>\<rparr>)"
  using assms clamp_bounds [of 8 64 v] clamp_bounds [of 64 1024 v] clamp_bounds [of 1 16 v]
  by (simp_all add: config_limits_def)

lemma loadFromEnv_node_limits:
  assumes "config_limits c" "loadFromEnv_node getenv c = Some c'"
  shows "config_limits c'"
  using assms unfolding loadFromEnv_node_def bind_eq_Some_conv
  apply (elim exE conjE)
  apply (drule (1) env_set_keeps [where P = config_limits], simp add: limits_store)+
  apply assumption
  done

lemma clamp_limits [simp]: "64 \<le> clamp v 64 1024" "clamp v 64 1024 \<le> 1024"
  using clamp_bounds [of 64 1024 v] by simp_all

lemma loadFromEnv_shm_keeps:
  assumes "loadFromEnv_shm getenv c = Some c'"
  shows "cfg_node c' = cfg_node c" "config_limits c \<Longrightarrow> config_limits c'"
  using assms unfolding loadFromEnv_shm_def bind_eq_Some_conv
  by (auto simp: env_set_def config_limits_def split: option.splits)

lemma loadFromEnv_large_data_keeps:
  assumes "loadFromEnv_large_data getenv c = Some c'"
  shows "cfg_node c' = cfg_node c" "config_limits c \<Longrightarrow> config_limits c'"
  using assms unfolding loadFromEnv_large_data_def bind_eq_Some_conv
  by (auto simp: env_set_def config_limits_def split: option.splits)

lemma loadFromEnv_parts:
  assumes "Config_loadFromEnv getenv c = Some c'"
  obtains c1 where "loadFromEnv_node getenv c = Some c1" "cfg_node c' = cfg_node c1"
    "config_limits c1 \<Longrightarrow> config_limits c'"
  using assms unfolding Config_loadFromEnv_def bind_eq_Some_conv
  by (metis loadFromEnv_shm_keeps loadFromEnv_large_data_keeps)

lemma loadFromEnv_node_threads:
  assumes "loadFromEnv_node getenv c = Some c'" "getenv ''NEXUS_NUM_THREADS'' = Some v" "atoi v = Some k"
  shows "nc_num_processing_threads (cfg_node c') = clamp (word_of_int k) 1 16"
  using assms unfolding loadFromEnv_node_def bind_eq_Some_conv
  by (elim exE conjE) (simp add: env_set_def, auto split: option.splits)

text \<open>C34: Every configuration loaded from the environment has 8 to 64 inbound queues, 64 to 1024
  messages per queue and 1 to 16 threads, whatever the variables hold; in particular a negative
  number of threads is converted to a huge \<open>size_t\<close> and gives the maximum of 16, not the minimum.\<close>

theorem loaded_config_limits:
  assumes "Config_loadFromEnv getenv Config_default = Some c"
  shows "config_limits c \<and>
    (\<forall>v k. getenv ''NEXUS_NUM_THREADS'' = Some v \<longrightarrow> atoi v = Some k \<longrightarrow> k < 0 \<longrightarrow>
       nc_num_processing_threads (cfg_node c) = 16)"
proof
  have "config_limits Config_default"
    by (simp add: config_limits_def Config_default_def)
  moreover obtain c1 where c1: "loadFromEnv_node getenv Config_default = Some c1" "cfg_node c = cfg_node c1"
    "config_limits c1 \<Longrightarrow> config_limits c"
    using loadFromEnv_parts [OF assms] by blast
  ultimately show "config_limits c" using loadFromEnv_node_limits by blast
  show "\<forall>v k. getenv ''NEXUS_NUM_THREADS'' = Some v \<longrightarrow> atoi v = Some k \<longrightarrow> k < 0 \<longrightarrow>
       nc_num_processing_threads (cfg_node c) = 16"
  proof (intro allI impI)
    fix v k assume v: "getenv ''NEXUS_NUM_THREADS'' = Some v" "atoi v = Some k" "k < 0"
    have "in_signed 32 k"
      using v(2,3) by (auto simp: atoi_def split: option.splits if_splits)
    then have range: "- (2 ^ 31) \<le> k" by (simp add: in_signed_def)
    have "uint (word_of_int k :: u64) = k mod 2 ^ 64" by (simp add: uint_word_of_int)
    also have "\<dots> = (k + 2 ^ 64) mod 2 ^ 64" by (rule mod_add_self2 [symmetric])
    also have "\<dots> = k + 2 ^ 64" by (rule mod_pos_pos_trivial) (use v(3) range in auto)
    finally have "\<not> (word_of_int k :: u64) < 1" "(word_of_int k :: u64) > 16"
      using range by (simp_all add: word_less_def)
    then have "clamp (word_of_int k) 1 16 = 16" by (simp add: clamp_def)
    then show "nc_num_processing_threads (cfg_node c) = 16"
      using loadFromEnv_node_threads [OF c1(1) v(1,2)] c1(2) by simp
  qed
qed

theorem loaded_config_limits_witness:
  "\<exists>c. Config_loadFromEnv (\<lambda>n. if n = ''NEXUS_NUM_THREADS'' then Some ''-1'' else None) Config_default = Some c \<and>
     config_limits c \<and> nc_num_processing_threads (cfg_node c) = 16"
proof -
  let ?env = "\<lambda>n. if n = ''NEXUS_NUM_THREADS'' then Some ''-1'' else None"
  have v: "atoi ''-1'' = Some (- 1)"
    by (simp add: atoi_def parse_int_def is_space_def is_digit_def digits_value_def in_signed_def)
  then obtain c where c: "Config_loadFromEnv ?env Config_default = Some c"
    by (simp add: Config_loadFromEnv_def loadFromEnv_node_def loadFromEnv_shm_def loadFromEnv_large_data_def env_set_def)
  show ?thesis using loaded_config_limits [OF c] c v by auto
qed

end
