(* ===== verification/Nexus_Crc.thy ===== *)
theory Nexus_Crc
  imports Nexus_Prelude
begin

unbundle bit_operations_syntax

section \<open>CRC-32 of large data blocks\<close>

text \<open>
  Model of \<open>crc32_table\<close> and \<open>LargeDataChannel::calculateCRC32\<close> of
  \<open>src/transport/LargeDataChannel.cpp\<close>: the table as it stands in the source and the byte-wise
  loop.  The reference is the bit-wise division by the reflected polynomial \<open>0xEDB88320\<close>; the
  table-driven loop is shown equal to it.
\<close>

definition crc32_table :: "u32 list" where
  "crc32_table =
     [0x00000000, 0x77073096, 0xee0e612c, 0x990951ba, 0x076dc419, 0x706af48f, 0xe963a535, 0x9e6495a3,
      0x0edb8832, 0x79dcb8a4, 0xe0d5e91e, 0x97d2d988, 0x09b64c2b, 0x7eb17cbd, 0xe7b82d07, 0x90bf1d91,
      0x1db71064, 0x6ab020f2, 0xf3b97148, 0x84be41de, 0x1adad47d, 0x6ddde4eb, 0xf4d4b551, 0x83d385c7,
      0x136c9856, 0x646ba8c0, 0xfd62f97a, 0x8a65c9ec, 0x14015c4f, 0x63066cd9, 0xfa0f3d63, 0x8d080df5,
      0x3b6e20c8, 0x4c69105e, 0xd56041e4, 0xa2677172, 0x3c03e4d1, 0x4b04d447, 0xd20d85fd, 0xa50ab56b,
      0x35b5a8fa, 0x42b2986c, 0xdbbbc9d6, 0xacbcf940, 0x32d86ce3, 0x45df5c75, 0xdcd60dcf, 0xabd13d59,
      0x26d930ac, 0x51de003a, 0xc8d75180, 0xbfd06116, 0x21b4f4b5, 0x56b3c423, 0xcfba9599, 0xb8bda50f,
      0x2802b89e, 0x5f058808, 0xc60cd9b2, 0xb10be924, 0x2f6f7c87, 0x58684c11, 0xc1611dab, 0xb6662d3d,
      0x76dc4190, 0x01db7106, 0x98d220bc, 0xefd5102a, 0x71b18589, 0x06b6b51f, 0x9fbfe4a5, 0xe8b8d433,
      0x7807c9a2, 0x0f00f934, 0x9609a88e, 0xe10e9818, 0x7f6a0dbb, 0x086d3d2d, 0x91646c97, 0xe6635c01,
      0x6b6b51f4, 0x1c6c6162, 0x856530d8, 0xf262004e, 0x6c0695ed, 0x1b01a57b, 0x8208f4c1, 0xf50fc457,
      0x65b0d9c6, 0x12b7e950, 0x8bbeb8ea, 0xfcb9887c, 0x62dd1ddf, 0x15da2d49, 0x8cd37cf3, 0xfbd44c65,
      0x4db26158, 0x3ab551ce, 0xa3bc0074, 0xd4bb30e2, 0x4adfa541, 0x3dd895d7, 0xa4d1c46d, 0xd3d6f4fb,
      0x4369e96a, 0x346ed9fc, 0xad678846, 0xda60b8d0, 0x44042d73, 0x33031de5, 0xaa0a4c5f, 0xdd0d7cc9,
      0x5005713c, 0x270241aa, 0xbe0b1010, 0xc90c2086, 0x5768b525, 0x206f85b3, 0xb966d409, 0xce61e49f,
      0x5edef90e, 0x29d9c998, 0xb0d09822, 0xc7d7a8b4, 0x59b33d17, 0x2eb40d81, 0xb7bd5c3b, 0xc0ba6cad,
      0xedb88320, 0x9abfb3b6, 0x03b6e20c, 0x74b1d29a, 0xead54739, 0x9dd277af, 0x04db2615, 0x73dc1683,
      0xe3630b12, 0x94643b84, 0x0d6d6a3e, 0x7a6a5aa8, 0xe40ecf0b, 0x9309ff9d, 0x0a00ae27, 0x7d079eb1,
      0xf00f9344, 0x8708a3d2, 0x1e01f268, 0x6906c2fe, 0xf762575d, 0x806567cb, 0x196c3671, 0x6e6b06e7,
      0xfed41b76, 0x89d32be0, 0x10da7a5a, 0x67dd4acc, 0xf9b9df6f, 0x8ebeeff9, 0x17b7be43, 0x60b08ed5,
      0xd6d6a3e8, 0xa1d1937e, 0x38d8c2c4, 0x4fdff252, 0xd1bb67f1, 0xa6bc5767, 0x3fb506dd, 0x48b2364b,
      0xd80d2bda, 0xaf0a1b4c, 0x36034af6, 0x41047a60, 0xdf60efc3, 0xa867df55, 0x316e8eef, 0x4669be79,
      0xcb61b38c, 0xbc66831a, 0x256fd2a0, 0x5268e236, 0xcc0c7795, 0xbb0b4703, 0x220216b9, 0x5505262f,
      0xc5ba3bbe, 0xb2bd0b28, 0x2bb45a92, 0x5cb36a04, 0xc2d7ffa7, 0xb5d0cf31, 0x2cd99e8b, 0x5bdeae1d,
      0x9b64c2b0, 0xec63f226, 0x756aa39c, 0x026d930a, 0x9c0906a9, 0xeb0e363f, 0x72076785, 0x05005713,
      0x95bf4a82, 0xe2b87a14, 0x7bb12bae, 0x0cb61b38, 0x92d28e9b, 0xe5d5be0d, 0x7cdcefb7, 0x0bdbdf21,
      0x86d3d2d4, 0xf1d4e242, 0x68ddb3f8, 0x1fda836e, 0x81be16cd, 0xf6b9265b, 0x6fb077e1, 0x18b74777,
      0x88085ae6, 0xff0f6a70, 0x66063bca, 0x11010b5c, 0x8f659eff, 0xf862ae69, 0x616bffd3, 0x166ccf45,
      0xa00ae278, 0xd70dd2ee, 0x4e048354, 0x3903b3c2, 0xa7672661, 0xd06016f7, 0x4969474d, 0x3e6e77db,
      0xaed16a4a, 0xd9d65adc, 0x40df0b66, 0x37d83bf0, 0xa9bcae53, 0xdebb9ec5, 0x47b2cf7f, 0x30b5ffe9,
      0xbdbdf21c, 0xcabac28a, 0x53b39330, 0x24b4a3a6, 0xbad03605, 0xcdd70693, 0x54de5729, 0x23d967bf,
      0xb3667a2e, 0xc4614ab8, 0x5d681b02, 0x2a6f2b94, 0xb40bbe37, 0xc30c8ea1, 0x5a05df1b, 0x2d02ef8d]"

definition crc32_update :: "u32 \<Rightarrow> u8 \<Rightarrow> u32" where
  "crc32_update crc b = (crc32_table ! unat ((crc XOR ucast b) AND 0xFF)) XOR drop_bit 8 crc"

definition calculateCRC32 :: "bytes \<Rightarrow> u32" where
  "calculateCRC32 data = NOT (foldl crc32_update 0xFFFFFFFF data)"

subsection \<open>The bit-wise reference\<close>

definition crc_step :: "u32 \<Rightarrow> u32" where
  "crc_step c = (if bit c 0 then drop_bit 1 c XOR 0xEDB88320 else drop_bit 1 c)"

definition crc_byte :: "u32 \<Rightarrow> u32" where
  "crc_byte c = (crc_step ^^ 8) c"

definition crc32_bitwise :: "bytes \<Rightarrow> u32" where
  "crc32_bitwise data = NOT (foldl (\<lambda>c b. crc_byte (c XOR ucast b)) 0xFFFFFFFF data)"

lemma crc_step_xor: "crc_step (x XOR y) = crc_step x XOR crc_step y"
  by (rule bit_eqI) (auto simp: crc_step_def bit_simps)

lemma crc_byte_xor: "crc_byte (x XOR y) = crc_byte x XOR crc_byte y"
proof -
  have "(crc_step ^^ n) (x XOR y) = (crc_step ^^ n) x XOR (crc_step ^^ n) y" for n
    by (induction n) (simp_all add: crc_step_xor)
  then show ?thesis by (simp add: crc_byte_def)
qed

text \<open>A table of a linear function doubles with every further bit of the index.\<close>

definition doubled :: "u32 list \<Rightarrow> u32 \<Rightarrow> u32 list" where
  "doubled xs e = xs @ map (\<lambda>x. x XOR e) xs"

lemma crc32_table_doubling:
  "crc32_table = foldl doubled [0] [0x77073096, 0xee0e612c, 0x076dc419, 0x0edb8832, 0x1db71064,
     0x3b6e20c8, 0x76dc4190, 0xedb88320]"
  by (simp add: crc32_table_def doubled_def)

lemma crc_step_values:
  "crc_step 128 = 64" "crc_step 64 = 32" "crc_step 32 = 16" "crc_step 16 = 8" "crc_step 8 = 4"
  "crc_step 4 = 2" "crc_step 2 = 1" "crc_step 1 = 0xedb88320" "crc_step 0xedb88320 = 0x76dc4190"
  "crc_step 0x76dc4190 = 0x3b6e20c8" "crc_step 0x3b6e20c8 = 0x1db71064" "crc_step 0x1db71064 = 0x0edb8832"
  "crc_step 0x0edb8832 = 0x076dc419" "crc_step 0x076dc419 = 0xee0e612c" "crc_step 0xee0e612c = 0x77073096"
  by (simp_all add: crc_step_def bit_0)

lemma crc_byte_8: "crc_byte c = crc_step (crc_step (crc_step (crc_step (crc_step (crc_step (crc_step (crc_step c)))))))"
  by (simp add: crc_byte_def eval_nat_numeral)

lemma crc_byte_powers:
  "map crc_byte [1, 2, 4, 8, 16, 32, 64, 128] = [0x77073096, 0xee0e612c, 0x076dc419, 0x0edb8832,
     0x1db71064, 0x3b6e20c8, 0x76dc4190, 0xedb88320]"
  by (simp only: list.map crc_byte_8 crc_step_values)

lemma word_add_power_xor:
  assumes "i < 2 ^ k" "k < 32"
  shows "(word_of_nat (i + 2 ^ k) :: u32) = word_of_nat i XOR 2 ^ k"
proof -
  have "(word_of_nat i :: u32) AND 2 ^ k = 0"
  proof (rule bit_eqI)
    fix n
    have "\<not> bit i k" using assms(1) by (simp add: bit_iff_odd)
    then show "bit ((word_of_nat i :: u32) AND 2 ^ k) n = bit 0 n"
      by (auto simp: bit_simps)
  qed
  then show ?thesis by (simp add: disjunctive_add_eq_xor)
qed

lemma crc_table_double:
  assumes "k < 32"
  shows "map (\<lambda>i. crc_byte (word_of_nat i)) [0..<2 ^ Suc k] =
    doubled (map (\<lambda>i. crc_byte (word_of_nat i)) [0..<2 ^ k]) (crc_byte (2 ^ k))"
proof -
  have "[0..<2 ^ Suc k] = [0..<2 ^ k] @ map (\<lambda>i. i + 2 ^ k) [0..<2 ^ k]"
    using upt_add_eq_append [of 0 "2 ^ k" "2 ^ k"] map_add_upt [of "2 ^ k" "2 ^ k"] by (simp add: mult_2)
  moreover have "map (\<lambda>i. crc_byte (word_of_nat (i + 2 ^ k))) [0..<2 ^ k] =
      map (\<lambda>i. crc_byte (word_of_nat i) XOR crc_byte (2 ^ k)) [0..<2 ^ k]"
    using assms by (intro map_cong) (simp_all add: word_add_power_xor crc_byte_xor del: of_nat_add)
  ultimately show ?thesis by (simp only: doubled_def comp_def map_append map_map)
qed

lemma crc_table_powers:
  "k \<le> 32 \<Longrightarrow> map (\<lambda>i. crc_byte (word_of_nat i)) [0..<2 ^ k] =
     foldl doubled [0] (map (\<lambda>j. crc_byte (2 ^ j)) [0..<k])"
proof (induction k)
  case 0
  have "crc_byte 0 = 0" by (simp add: crc_byte_8 crc_step_def)
  then show ?case by simp
next
  case (Suc k)
  then show ?case using crc_table_double [of k] by (simp del: power_Suc)
qed

lemma crc32_table_entries: "crc32_table = map (\<lambda>i. crc_byte (word_of_nat i)) [0..<256]"
proof -
  have "map (\<lambda>j. crc_byte (2 ^ j)) [0..<8] = map crc_byte [1, 2, 4, 8, 16, 32, 64, 128]"
    by (simp add: upt_rec)
  then show ?thesis
    using crc_table_powers [of 8] crc_byte_powers crc32_table_doubling by simp
qed

subsection \<open>The table-driven loop computes the reference\<close>

lemma crc_step_high: "\<not> bit x 0 \<Longrightarrow> crc_step x = drop_bit 1 x"
  by (simp add: crc_step_def)

lemma crc_steps_high: "(\<And>i. i < n \<Longrightarrow> \<not> bit x i) \<Longrightarrow> (crc_step ^^ n) x = drop_bit n x"
proof (induction n)
  case (Suc n)
  then have "(crc_step ^^ n) x = drop_bit n x" "\<not> bit x n" by auto
  then show ?case by (simp add: crc_step_high bit_drop_bit_eq)
qed simp

lemma crc_byte_table:
  "crc_byte x = (crc32_table ! unat (x AND 0xFF)) XOR drop_bit 8 x"
proof -
  define hi where "hi = x AND NOT 0xFF"
  have x: "x = (x AND 0xFF) XOR hi"
    by (rule bit_eqI) (auto simp: hi_def bit_simps)
  have mask: "(0xFF :: u32) = mask 8" by (simp add: mask_eq_exp_minus_1)
  have "\<not> bit hi i" if "i < 8" for i
    using that by (auto simp: hi_def mask bit_simps)
  then have "crc_byte hi = drop_bit 8 hi"
    unfolding crc_byte_def by (rule crc_steps_high)
  also have "drop_bit 8 hi = drop_bit 8 x"
    by (rule bit_eqI) (auto simp: hi_def mask bit_simps dest: bit_imp_le_length)
  finally have hi: "crc_byte hi = drop_bit 8 x" .
  have lt: "unat (x AND 0xFF) < 256"
    unfolding mask using take_bit_nat_less_exp [of 8 "unat x"]
    by (simp add: unsigned_take_bit_eq flip: take_bit_eq_mask)
  then have "crc32_table ! unat (x AND 0xFF) = crc_byte (x AND 0xFF)"
    by (simp add: crc32_table_entries)
  then show ?thesis
    using hi x by (metis crc_byte_xor)
qed

lemma crc32_update_reference: "crc32_update crc b = crc_byte (crc XOR ucast b)"
proof -
  have "drop_bit 8 (crc XOR ucast b) = drop_bit 8 crc"
    by (rule bit_eqI) (auto simp: bit_simps dest: bit_imp_le_length)
  then show ?thesis by (simp add: crc32_update_def crc_byte_table)
qed

text \<open>C27: The table-driven \<open>calculateCRC32\<close>, with the 256 constants of the source, computes the CRC-32
  of the reflected polynomial \<open>0xEDB88320\<close> bit by bit, on every byte string.\<close>

theorem calculateCRC32_reference: "calculateCRC32 data = crc32_bitwise data"
proof -
  have "crc32_update = (\<lambda>c b. crc_byte (c XOR ucast b))"
    by (intro ext) (rule crc32_update_reference)
  then show ?thesis by (simp add: calculateCRC32_def crc32_bitwise_def)
qed

end
