(* ===== verification/Nexus_Queues.thy ===== *)
theory Nexus_Queues
  imports Nexus_Prelude
begin

section \<open>Message queues of a node\<close>

text \<open>
  The queues between the receiving threads of a node and its workers, from
  \<open>include/nexus/core/NodeImpl.h\<close> and \<open>src/core/NodeImpl.cpp\<close>: four bounded queues of messages, one per
  processing thread, with an overflow policy (\<open>enqueueMessage\<close>), and one queue of system messages
  (\<open>enqueueSystemMessage\<close>).  A queue is the list of its messages, oldest first.  \<open>None\<close> stands for
  undefined behaviour: \<open>pop\<close> on an empty queue, or the use of a message that was popped.

  Shown: what a queue holds after any number of messages, for each policy, and how many drops were
  counted; both bounded queues share the contract \<open>keeps_newest\<close>.
\<close>

subsection \<open>Messages and policies\<close>

record PendingMessage =
  pm_source_node_id :: string
  pm_group :: string
  pm_topic :: string
  pm_payload :: bytes

datatype QueueOverflowPolicy = POLICY_DROP_OLDEST | POLICY_DROP_NEWEST | POLICY_BLOCK

datatype SystemMessageType = SYS_SERVICE_REGISTER | SYS_SERVICE_UNREGISTER | SYS_NODE_JOIN | SYS_NODE_LEAVE

record SystemMessage =
  sm_type :: SystemMessageType
  sm_source_node_id :: string
  sm_group :: string
  sm_topic :: string
  sm_payload :: bytes

definition NUM_PROCESSING_THREADS :: nat where "NUM_PROCESSING_THREADS = 4"
definition MAX_MESSAGE_BATCH_SIZE :: nat where "MAX_MESSAGE_BATCH_SIZE = 16"
definition MAX_SYSTEM_QUEUE_SIZE :: nat where "MAX_SYSTEM_QUEUE_SIZE = 1000"

text \<open>\<open>std::hash\<close> is a parameter.\<close>

definition routing_thread :: "(string \<Rightarrow> nat) \<Rightarrow> string \<Rightarrow> string \<Rightarrow> nat" where
  "routing_thread hasher grp topic = hasher (grp @ '':'' @ topic) mod NUM_PROCESSING_THREADS"

text \<open>
  \<open>push_message\<close> is the locked part of \<open>enqueueMessage\<close> on one queue and the drop counter; it returns
  the arguments of the overflow callback when that is called.  With \<open>DROP_OLDEST\<close> the callback gets
  the group and topic of a message that has been popped.
\<close>

definition push_message ::
    "nat \<Rightarrow> QueueOverflowPolicy \<Rightarrow> bool \<Rightarrow> PendingMessage \<Rightarrow> PendingMessage list \<times> u64 \<Rightarrow>
     ((string \<times> string \<times> u64) option \<times> PendingMessage list \<times> u64) option" where
  "push_message max_queue_size policy has_callback msg = (\<lambda>(queue, dropped).
     if length queue \<ge> max_queue_size then
       (case policy of
          POLICY_DROP_OLDEST \<Rightarrow>
            if queue = [] \<or> has_callback then None else Some (None, tl queue @ [msg], dropped + 1)
        | POLICY_DROP_NEWEST \<Rightarrow>
            Some (if has_callback then Some (pm_group msg, pm_topic msg, dropped + 1) else None, queue, dropped + 1)
        | POLICY_BLOCK \<Rightarrow> if queue = [] then None else Some (None, tl queue @ [msg], dropped))
     else Some (None, queue @ [msg], dropped))"

text \<open>What a processing thread takes at once.\<close>

definition take_batch :: "PendingMessage list \<Rightarrow> PendingMessage list \<times> PendingMessage list" where
  "take_batch queue = (take MAX_MESSAGE_BATCH_SIZE queue, drop MAX_MESSAGE_BATCH_SIZE queue)"

definition push_system :: "SystemMessage \<Rightarrow> SystemMessage list \<Rightarrow> SystemMessage list" where
  "push_system msg queue = (if length queue \<ge> MAX_SYSTEM_QUEUE_SIZE then tl queue else queue) @ [msg]"

subsection \<open>Bounded queues that keep the newest\<close>

text \<open>\<open>last_n n xs\<close>: the last \<open>n\<close> elements.\<close>

definition last_n :: "nat \<Rightarrow> 'a list \<Rightarrow> 'a list" where
  "last_n n xs = drop (length xs - n) xs"

lemma last_n_short [simp]: "length xs \<le> n \<Longrightarrow> last_n n xs = xs"
  by (simp add: last_n_def)

lemma length_last_n: "length (last_n n xs) = min n (length xs)"
  by (auto simp: last_n_def)

lemma last_n_append_last_n: "last_n n (last_n n xs @ ys) = last_n n (xs @ ys)"
proof (cases "length xs \<le> n")
  case False
  then have "length ys + (length xs - n) = length (xs @ ys) - n" by simp
  then have "last_n n (xs @ ys) = drop (length ys) (drop (length xs - n) (xs @ ys))"
    by (simp only: last_n_def drop_drop)
  also have "\<dots> = last_n n (last_n n xs @ ys)" using False by (simp add: last_n_def)
  finally show ?thesis by simp
qed simp

locale keeps_newest =
  fixes push :: "'m \<Rightarrow> 'm list \<Rightarrow> 'm list"
    and cap :: nat
  assumes push_room: "length q < cap \<Longrightarrow> push m q = q @ [m]"
    and push_full: "length q = cap \<Longrightarrow> push m q = tl q @ [m]"
    and cap_pos: "0 < cap"
begin

lemma push_last_n: "length q \<le> cap \<Longrightarrow> push m q = last_n cap (q @ [m])"
  using push_room [of q m] push_full [of q m] cap_pos
  by (cases "length q < cap") (auto simp: last_n_def drop_Suc)

lemma push_all: "length q \<le> cap \<Longrightarrow> fold push ms q = last_n cap (q @ ms)"
proof (induction ms arbitrary: q)
  case (Cons m ms)
  have "length (last_n cap (q @ [m])) \<le> cap" by (simp add: length_last_n)
  then show ?case
    using Cons by (simp add: push_last_n last_n_append_last_n)
qed simp

lemma push_bounded: "length q \<le> cap \<Longrightarrow> length (fold push ms q) \<le> cap"
  by (simp add: push_all length_last_n)

end

interpretation system_queue: keeps_newest push_system MAX_SYSTEM_QUEUE_SIZE
  by unfold_locales (auto simp: push_system_def MAX_SYSTEM_QUEUE_SIZE_def)

text \<open>The queue of a thread under \<open>DROP_OLDEST\<close> and \<open>BLOCK\<close>.\<close>

definition push_oldest :: "nat \<Rightarrow> PendingMessage \<Rightarrow> PendingMessage list \<Rightarrow> PendingMessage list" where
  "push_oldest cap m q = (if length q \<ge> Suc cap then tl q else q) @ [m]"

interpretation message_queue: keeps_newest "push_oldest cap" "Suc cap" for cap
  by unfold_locales (auto simp: push_oldest_def)

text \<open>A sequence of messages pushed into one queue.\<close>

fun push_all_messages ::
    "nat \<Rightarrow> QueueOverflowPolicy \<Rightarrow> bool \<Rightarrow> PendingMessage list \<Rightarrow> PendingMessage list \<times> u64 \<Rightarrow>
     (PendingMessage list \<times> u64) option" where
  "push_all_messages max_queue_size policy has_callback [] st = Some st"
| "push_all_messages max_queue_size policy has_callback (m # ms) st =
     (case push_message max_queue_size policy has_callback m st of
        None \<Rightarrow> None
      | Some (cb, st1) \<Rightarrow> push_all_messages max_queue_size policy has_callback ms st1)"

lemma push_all_oldest:
  assumes "length q \<le> Suc cap"
  shows "push_all_messages (Suc cap) POLICY_DROP_OLDEST False ms (q, d) =
    Some (last_n (Suc cap) (q @ ms), d + word_of_nat (length (q @ ms) - Suc cap))"
  using assms
proof (induction ms arbitrary: q d)
  case (Cons m ms)
  show ?case
  proof (cases "length q = Suc cap")
    case True
    have q: "tl q @ [m] = last_n (Suc cap) (q @ [m])"
      using message_queue.push_last_n [OF Cons.prems, of m] True by (simp add: push_oldest_def)
    have "push_message (Suc cap) POLICY_DROP_OLDEST False m (q, d) = Some (None, tl q @ [m], d + 1)"
      using True by (auto simp: push_message_def)
    moreover have "last_n (Suc cap) ((tl q @ [m]) @ ms) = last_n (Suc cap) (q @ m # ms)"
      unfolding q last_n_append_last_n by simp
    ultimately show ?thesis
      using Cons.IH [of "tl q @ [m]" "d + 1"] True by (simp add: algebra_simps)
  next
    case False
    then have "length (q @ [m]) \<le> Suc cap" using Cons.prems by simp
    then show ?thesis using Cons.IH [of "q @ [m]" d] False Cons.prems by (simp add: push_message_def)
  qed
qed simp

lemma push_all_block:
  assumes "length q \<le> Suc cap"
  shows "push_all_messages (Suc cap) POLICY_BLOCK has_callback ms (q, d) = Some (last_n (Suc cap) (q @ ms), d)"
  using assms
proof (induction ms arbitrary: q)
  case (Cons m ms)
  have push: "push_message (Suc cap) POLICY_BLOCK has_callback m (q, d) = Some (None, push_oldest cap m q, d)"
    by (auto simp: push_message_def push_oldest_def)
  have q: "push_oldest cap m q = last_n (Suc cap) (q @ [m])"
    using message_queue.push_last_n [OF Cons.prems] .
  then have len: "length (push_oldest cap m q) \<le> Suc cap" by (simp add: length_last_n)
  show ?case
    unfolding push_all_messages.simps push option.case prod.case Cons.IH [OF len]
    by (simp add: q last_n_append_last_n)
qed simp

lemma push_all_newest:
  assumes "length q \<le> cap"
  shows "push_all_messages cap POLICY_DROP_NEWEST has_callback ms (q, d) =
    Some (take cap (q @ ms), d + word_of_nat (length (q @ ms) - cap))"
  using assms
proof (induction ms arbitrary: q d)
  case (Cons m ms)
  show ?case
  proof (cases "length q = cap")
    case True
    then show ?thesis using Cons.IH [of q "d + 1"] by (simp add: push_message_def algebra_simps)
  next
    case False
    then have "length (q @ [m]) \<le> cap" using Cons.prems by simp
    then show ?thesis using Cons.IH [of "q @ [m]" d] False Cons.prems by (simp add: push_message_def)
  qed
qed simp

subsection \<open>Properties\<close>

text \<open>C22: The overflow policies, for any number of messages into a queue with a positive limit and no
  overflow callback: \<open>DROP_OLDEST\<close> keeps the newest messages and counts the lost ones, \<open>DROP_NEWEST\<close>
  keeps the oldest and counts the lost ones, \<open>BLOCK\<close> does not block but behaves like \<open>DROP_OLDEST\<close>
  without counting.  The order of what is kept never changes.\<close>

theorem overflow_policy_exact:
  assumes "length q \<le> Suc cap"
  shows "push_all_messages (Suc cap) policy False ms (q, d) =
    (case policy of
       POLICY_DROP_OLDEST \<Rightarrow> Some (last_n (Suc cap) (q @ ms), d + word_of_nat (length (q @ ms) - Suc cap))
     | POLICY_DROP_NEWEST \<Rightarrow> Some (take (Suc cap) (q @ ms), d + word_of_nat (length (q @ ms) - Suc cap))
     | POLICY_BLOCK \<Rightarrow> Some (last_n (Suc cap) (q @ ms), d))"
  using push_all_oldest [OF assms] push_all_newest [OF assms] push_all_block [OF assms] by (cases policy) simp_all

theorem overflow_policy_exact_witness:
  "push_all_messages (Suc 0) POLICY_DROP_OLDEST False
     [\<lparr>pm_source_node_id = ''a'', pm_group = ''g'', pm_topic = ''t'', pm_payload = [1]\<rparr>,
      \<lparr>pm_source_node_id = ''a'', pm_group = ''g'', pm_topic = ''t'', pm_payload = [2]\<rparr>] ([], 0) =
   Some ([\<lparr>pm_source_node_id = ''a'', pm_group = ''g'', pm_topic = ''t'', pm_payload = [2]\<rparr>], 1)"
  by (subst overflow_policy_exact) (simp_all add: last_n_def)

text \<open>Undefined behaviour on overflow: enqueueing is defined exactly when the queue has room, or the
  policy is \<open>DROP_NEWEST\<close>, or there is something to pop and, for \<open>DROP_OLDEST\<close>, no overflow callback,
  because the callback is given the group and topic of the message that was just destroyed.\<close>

theorem enqueue_defined_iff:
  "push_message max_queue_size policy has_callback msg (queue, dropped) \<noteq> None \<longleftrightarrow>
     length queue < max_queue_size \<or> policy = POLICY_DROP_NEWEST \<or>
     (queue \<noteq> [] \<and> (policy = POLICY_DROP_OLDEST \<longrightarrow> \<not> has_callback))"
  by (cases policy) (auto simp: push_message_def)

theorem enqueue_defined_iff_witness:
  "push_message 1 POLICY_DROP_OLDEST True
     \<lparr>pm_source_node_id = ''a'', pm_group = ''g'', pm_topic = ''t'', pm_payload = []\<rparr>
     ([\<lparr>pm_source_node_id = ''a'', pm_group = ''g'', pm_topic = ''t'', pm_payload = []\<rparr>], 0) = None"
  using enqueue_defined_iff [of 1 POLICY_DROP_OLDEST True
      "\<lparr>pm_source_node_id = ''a'', pm_group = ''g'', pm_topic = ''t'', pm_payload = []\<rparr>"
      "[\<lparr>pm_source_node_id = ''a'', pm_group = ''g'', pm_topic = ''t'', pm_payload = []\<rparr>]" 0] by (simp del: not_None_eq)

end
