(* ===== verification/Nexus_GlobalRegistry.thy ===== *)
theory Nexus_GlobalRegistry
  imports Nexus_Prelude
begin

section \<open>Service descriptors and the in-process registry\<close>

text \<open>
  Model of the enumerations and of \<open>ServiceDescriptor\<close> in \<open>include/nexus/core/Node.h\<close> and of
  \<open>src/registry/GlobalRegistry.cpp\<close>, the singleton that every node of a process shares.  The
  two \<open>std::map\<close> members are ordered maps; a \<open>std::weak_ptr<NodeImpl>\<close> is a number that
  names the node object, and whether \<open>lock()\<close> still succeeds is the argument \<open>alive\<close>.  Every
  operation holds one mutex from its first to its last access, so each is one step.

  Shown: the registry invariant \<open>registry_ok\<close> (descriptors filed under their own group, at most
  one per node and capability, no empty group) is kept by every operation; the transport rule of
  \<open>registerService\<close>; what each removal removes and what it leaves.  The locale
  \<open>service_directory\<close> is what the node relies on when it purges a departed node.
\<close>

subsection \<open>Enumerations and descriptors\<close>

text \<open>
  The enumerators, and for a value that arrived in a packet and names none of them, the raw byte:
  \<open>static_cast<ServiceType>(payload[0])\<close> keeps it.
\<close>

datatype TransportType = INPROCESS | SHARED_MEMORY | UDP | TransportType_raw u8

datatype ServiceType = ST_ALL | NORMAL_MESSAGE | LARGE_DATA | ServiceType_raw u8

fun TransportType_code :: "TransportType \<Rightarrow> u8" where
  "TransportType_code INPROCESS = 0"
| "TransportType_code SHARED_MEMORY = 1"
| "TransportType_code UDP = 2"
| "TransportType_code (TransportType_raw b) = b"

definition TransportType_of :: "u8 \<Rightarrow> TransportType" where
  "TransportType_of b =
     (if b = 0 then INPROCESS else if b = 1 then SHARED_MEMORY else if b = 2 then UDP
      else TransportType_raw b)"

fun ServiceType_code :: "ServiceType \<Rightarrow> u8" where
  "ServiceType_code ST_ALL = 0"
| "ServiceType_code NORMAL_MESSAGE = 1"
| "ServiceType_code LARGE_DATA = 2"
| "ServiceType_code (ServiceType_raw b) = b"

definition ServiceType_of :: "u8 \<Rightarrow> ServiceType" where
  "ServiceType_of b =
     (if b = 0 then ST_ALL else if b = 1 then NORMAL_MESSAGE else if b = 2 then LARGE_DATA
      else ServiceType_raw b)"

record ServiceDescriptor =
  svc_node_id :: string
  svc_group :: string
  svc_topic :: string
  svc_type :: ServiceType
  svc_channel_name :: string
  svc_transport :: TransportType
  svc_udp_address :: string

definition ServiceDescriptor_default :: ServiceDescriptor where
  "ServiceDescriptor_default =
     \<lparr>svc_node_id = [], svc_group = [], svc_topic = [], svc_type = NORMAL_MESSAGE,
      svc_channel_name = [], svc_transport = INPROCESS, svc_udp_address = []\<rparr>"

definition getCapability :: "ServiceDescriptor \<Rightarrow> string" where
  "getCapability s =
     (if svc_type s = LARGE_DATA then svc_group s @ ''/'' @ svc_channel_name s @ ''/'' @ svc_topic s
      else svc_group s @ ''/'' @ svc_topic s)"

definition getServiceKey :: "ServiceDescriptor \<Rightarrow> string" where
  "getServiceKey s =
     svc_node_id s @ '':'' @ getCapability s @ '':'' @ show_nat (unat (TransportType_code (svc_transport s)))"

datatype ServiceEvent = SERVICE_ADDED | SERVICE_REMOVED | NODE_JOINED | NODE_LEFT

subsection \<open>The registry\<close>

type_synonym node_ref = nat

record GlobalRegistry =
  gr_nodes :: "(string, node_ref) omap"
  gr_services :: "(string, ServiceDescriptor list) omap"

definition GlobalRegistry_init :: GlobalRegistry where
  "GlobalRegistry_init = \<lparr>gr_nodes = [], gr_services = []\<rparr>"

definition GlobalRegistry_registerNode :: "string \<Rightarrow> node_ref \<Rightarrow> GlobalRegistry \<Rightarrow> GlobalRegistry" where
  "GlobalRegistry_registerNode nid ref g = g\<lparr>gr_nodes := om_insert nid ref (gr_nodes g)\<rparr>"

fun remove_node_services :: "string \<Rightarrow> (string, ServiceDescriptor list) omap
    \<Rightarrow> (string, ServiceDescriptor list) omap" where
  "remove_node_services nid [] = []"
| "remove_node_services nid ((grp, vec) # rest) =
     (let vec' = filter (\<lambda>s. svc_node_id s \<noteq> nid) vec in
      if vec' = [] then remove_node_services nid rest
      else (grp, vec') # remove_node_services nid rest)"

definition GlobalRegistry_unregisterNode :: "string \<Rightarrow> GlobalRegistry \<Rightarrow> GlobalRegistry" where
  "GlobalRegistry_unregisterNode nid g =
     g\<lparr>gr_nodes := om_delete nid (gr_nodes g), gr_services := remove_node_services nid (gr_services g)\<rparr>"

fun getAllNodes_loop :: "(node_ref \<Rightarrow> bool) \<Rightarrow> (string, node_ref) omap
    \<Rightarrow> node_ref list \<times> (string, node_ref) omap" where
  "getAllNodes_loop alive [] = ([], [])"
| "getAllNodes_loop alive ((nid, ref) # rest) =
     (case getAllNodes_loop alive rest of (result, nodes) \<Rightarrow>
        if alive ref then (ref # result, (nid, ref) # nodes) else (result, nodes))"

definition GlobalRegistry_getAllNodes ::
    "(node_ref \<Rightarrow> bool) \<Rightarrow> GlobalRegistry \<Rightarrow> node_ref list \<times> GlobalRegistry" where
  "GlobalRegistry_getAllNodes alive g =
     (case getAllNodes_loop alive (gr_nodes g) of (result, nodes) \<Rightarrow> (result, g\<lparr>gr_nodes := nodes\<rparr>))"

definition GlobalRegistry_findNode :: "(node_ref \<Rightarrow> bool) \<Rightarrow> string \<Rightarrow> GlobalRegistry \<Rightarrow> node_ref option" where
  "GlobalRegistry_findNode alive nid g =
     (case om_lookup (gr_nodes g) nid of
        Some ref \<Rightarrow> if alive ref then Some ref else None
      | None \<Rightarrow> None)"

text \<open>The loop of \<open>registerService\<close> over the services of the group.\<close>

fun registerService_loop :: "ServiceDescriptor \<Rightarrow> ServiceDescriptor list \<Rightarrow> ServiceDescriptor list" where
  "registerService_loop svc [] = [svc]"
| "registerService_loop svc (existing # rest) =
     (if svc_node_id existing = svc_node_id svc \<and> getCapability existing = getCapability svc then
        if svc_transport existing = svc_transport svc then existing # rest
        else if svc_transport existing = SHARED_MEMORY then existing # rest
        else if svc_transport svc = SHARED_MEMORY then svc # rest
        else existing # rest
      else existing # registerService_loop svc rest)"

definition GlobalRegistry_registerService ::
    "string \<Rightarrow> ServiceDescriptor \<Rightarrow> GlobalRegistry \<Rightarrow> GlobalRegistry" where
  "GlobalRegistry_registerService grp svc g =
     (let vec = (case om_lookup (gr_services g) grp of Some v \<Rightarrow> v | None \<Rightarrow> [])
      in g\<lparr>gr_services := om_insert grp (registerService_loop svc vec) (gr_services g)\<rparr>)"

definition GlobalRegistry_unregisterService ::
    "string \<Rightarrow> ServiceDescriptor \<Rightarrow> GlobalRegistry \<Rightarrow> GlobalRegistry" where
  "GlobalRegistry_unregisterService grp svc g =
     (case om_lookup (gr_services g) grp of
        None \<Rightarrow> g
      | Some vec \<Rightarrow>
          let vec' = filter (\<lambda>s. \<not> (svc_node_id s = svc_node_id svc \<and> svc_topic s = svc_topic svc)) vec
          in if vec' = [] then g\<lparr>gr_services := om_delete grp (gr_services g)\<rparr>
             else g\<lparr>gr_services := om_insert grp vec' (gr_services g)\<rparr>)"

definition GlobalRegistry_findServices :: "string \<Rightarrow> GlobalRegistry \<Rightarrow> ServiceDescriptor list" where
  "GlobalRegistry_findServices grp g =
     (if grp = [] then concat (map snd (gr_services g))
      else case om_lookup (gr_services g) grp of Some vec \<Rightarrow> vec | None \<Rightarrow> [])"

definition GlobalRegistry_clearServices :: "GlobalRegistry \<Rightarrow> GlobalRegistry" where
  "GlobalRegistry_clearServices g = g\<lparr>gr_services := []\<rparr>"

definition GlobalRegistry_getNodeCount :: "GlobalRegistry \<Rightarrow> nat" where
  "GlobalRegistry_getNodeCount g = length (gr_nodes g)"

definition GlobalRegistry_getServiceCount :: "GlobalRegistry \<Rightarrow> nat" where
  "GlobalRegistry_getServiceCount g = foldl (\<lambda>count p. count + length (snd p)) 0 (gr_services g)"

subsection \<open>The contract a node relies on\<close>

text \<open>
  A directory of services from which a client removes descriptors one by one.  A removal takes
  away every descriptor of the same node, group and topic.
\<close>

definition same_subscription :: "ServiceDescriptor \<Rightarrow> ServiceDescriptor \<Rightarrow> bool" where
  "same_subscription s t \<longleftrightarrow>
     svc_node_id s = svc_node_id t \<and> svc_group s = svc_group t \<and> svc_topic s = svc_topic t"

locale service_directory =
  fixes listing :: "'r \<Rightarrow> ServiceDescriptor list"
    and remove :: "ServiceDescriptor \<Rightarrow> 'r \<Rightarrow> 'r"
    and ok :: "'r \<Rightarrow> bool"
  assumes remove_ok: "ok r \<Longrightarrow> ok (remove s r)"
    and listing_remove: "ok r \<Longrightarrow> listing (remove s r) = filter (\<lambda>t. \<not> same_subscription t s) (listing r)"
begin

lemma remove_all_ok: "ok r \<Longrightarrow> ok (fold remove ss r)"
  by (induction ss arbitrary: r) (auto simp: remove_ok)

lemma listing_remove_all:
  "ok r \<Longrightarrow> listing (fold remove ss r) =
     filter (\<lambda>t. \<forall>s \<in> set ss. \<not> same_subscription t s) (listing r)"
proof (induction ss arbitrary: r)
  case (Cons s ss)
  then show ?case
    by (simp add: remove_ok listing_remove conj_commute)
qed simp

lemma purge_node:
  assumes "ok r"
  shows "listing (fold remove (filter (\<lambda>s. svc_node_id s = nid) (listing r)) r) =
    filter (\<lambda>t. svc_node_id t \<noteq> nid) (listing r)"
  unfolding listing_remove_all [OF assms]
  by (rule filter_cong) (auto simp: same_subscription_def)

end

subsection \<open>The invariant\<close>

definition same_service :: "ServiceDescriptor \<Rightarrow> ServiceDescriptor \<Rightarrow> bool" where
  "same_service s t \<longleftrightarrow> svc_node_id s = svc_node_id t \<and> getCapability s = getCapability t"

definition group_ok :: "string \<times> ServiceDescriptor list \<Rightarrow> bool" where
  "group_ok p \<longleftrightarrow> snd p \<noteq> [] \<and> list_all (\<lambda>s. svc_group s = fst p) (snd p) \<and>
     sorted_wrt (\<lambda>s t. \<not> same_service s t) (snd p)"

definition registry_ok :: "GlobalRegistry \<Rightarrow> bool" where
  "registry_ok g \<longleftrightarrow> om_wf (gr_nodes g) \<and> om_wf (gr_services g) \<and> list_all group_ok (gr_services g)"

lemma remove_node_services_eq:
  "remove_node_services nid m =
     filter (\<lambda>p. snd p \<noteq> []) (map (\<lambda>p. (fst p, filter (\<lambda>s. svc_node_id s \<noteq> nid) (snd p))) m)"
  by (induction m) (auto simp: Let_def)

lemma om_wf_filter: "om_wf m \<Longrightarrow> om_wf (filter P m)"
  unfolding om_wf_def by (induction m) auto

lemma om_wf_map_values: "om_wf (map (\<lambda>p. (fst p, f (snd p))) m) \<longleftrightarrow> om_wf m"
  by (simp add: om_wf_def comp_def)

lemma remove_node_services_wf: "om_wf m \<Longrightarrow> om_wf (remove_node_services nid m)"
  by (simp add: remove_node_services_eq om_wf_filter om_wf_map_values)

lemma group_ok_filter:
  "group_ok (grp, vec) \<Longrightarrow> filter Q vec \<noteq> [] \<Longrightarrow> group_ok (grp, filter Q vec)"
  by (auto simp: group_ok_def list_all_iff sorted_wrt_filter)

lemma remove_node_services_ok: "list_all group_ok m \<Longrightarrow> list_all group_ok (remove_node_services nid m)"
proof (induction m)
  case (Cons p m)
  then show ?case
    using group_ok_filter [of "fst p" "snd p" "\<lambda>s. svc_node_id s \<noteq> nid"]
    by (simp add: remove_node_services_eq)
qed simp

lemma remove_node_services_concat:
  "concat (map snd (remove_node_services nid m)) = filter (\<lambda>s. svc_node_id s \<noteq> nid) (concat (map snd m))"
  by (induction m) (auto simp: remove_node_services_eq)

lemma remove_node_services_lookup:
  "om_wf m \<Longrightarrow> om_lookup (remove_node_services nid m) grp =
     (case om_lookup m grp of None \<Rightarrow> None
      | Some vec \<Rightarrow> let vec' = filter (\<lambda>s. svc_node_id s \<noteq> nid) vec in if vec' = [] then None else Some vec')"
proof (induction m)
  case (Cons p m)
  have "map_of (remove_node_services nid m) (fst p) = None"
    using Cons(2) by (auto simp: om_wf_def remove_node_services_eq map_of_eq_None_iff)
  then show ?case
    using Cons by (auto simp: om_lookup_def om_wf_def Let_def remove_node_services_eq)
qed (simp add: om_lookup_def)

lemma getAllNodes_loop_filter:
  "getAllNodes_loop alive m =
     (map snd (filter (\<lambda>p. alive (snd p)) m), filter (\<lambda>p. alive (snd p)) m)"
  by (induction alive m rule: getAllNodes_loop.induct) auto

lemma registerService_loop_nonempty: "registerService_loop svc vec \<noteq> []"
  by (cases vec) auto

lemma registerService_loop_set:
  "set (registerService_loop svc vec) \<subseteq> insert svc (set vec)"
  by (induction svc vec rule: registerService_loop.induct) auto

lemma same_service_sym: "same_service s t \<longleftrightarrow> same_service t s"
  by (auto simp: same_service_def)

lemma registerService_loop_distinct:
  "sorted_wrt (\<lambda>s t. \<not> same_service s t) vec \<Longrightarrow>
   sorted_wrt (\<lambda>s t. \<not> same_service s t) (registerService_loop svc vec)"
proof (induction svc vec rule: registerService_loop.induct)
  case (2 svc existing rest)
  then show ?case
    using registerService_loop_set [of svc rest] by (auto simp: same_service_def)
qed simp

lemma group_ok_lookup:
  "registry_ok g \<Longrightarrow> om_lookup (gr_services g) grp = Some vec \<Longrightarrow> group_ok (grp, vec)"
  by (auto simp: registry_ok_def list_all_iff dest!: om_lookup_mem)

lemma list_all_om_insert:
  "list_all P m \<Longrightarrow> P (k, v) \<Longrightarrow> list_all P (om_insert k v m)"
  by (induction k v m rule: om_insert.induct) auto

lemma registry_ok_registerService:
  assumes "registry_ok g" "svc_group svc = grp"
  shows "registry_ok (GlobalRegistry_registerService grp svc g)"
proof -
  define vec where "vec = (case om_lookup (gr_services g) grp of Some v \<Rightarrow> v | None \<Rightarrow> [])"
  have "list_all (\<lambda>s. svc_group s = grp) vec" "sorted_wrt (\<lambda>s t. \<not> same_service s t) vec"
    using group_ok_lookup [OF assms(1)]
    by (auto simp: vec_def group_ok_def split: option.splits)
  then have "group_ok (grp, registerService_loop svc vec)"
    using registerService_loop_set [of svc vec] assms(2)
    by (auto simp: group_ok_def list_all_iff registerService_loop_nonempty registerService_loop_distinct)
  then show ?thesis
    using assms(1)
    by (auto simp: registry_ok_def GlobalRegistry_registerService_def Let_def om.ok_store
        simp flip: vec_def intro: list_all_om_insert)
qed

lemma registry_ok_unregisterService:
  assumes "registry_ok g" shows "registry_ok (GlobalRegistry_unregisterService grp svc g)"
proof (cases "om_lookup (gr_services g) grp")
  case (Some vec)
  let ?keep = "\<lambda>s. \<not> (svc_node_id s = svc_node_id svc \<and> svc_topic s = svc_topic svc)"
  have "group_ok (grp, filter ?keep vec)" if "filter ?keep vec \<noteq> []"
    using group_ok_filter [OF group_ok_lookup [OF assms Some] that] .
  then show ?thesis
    using assms Some
    by (auto simp: registry_ok_def GlobalRegistry_unregisterService_def Let_def om.ok_store om.ok_erase
        om_delete_def list_all_iff[of _ "filter _ _"] simp: list_all_iff[of _ "gr_services g"]
        intro!: list_all_om_insert intro: om_wf_filter)
qed (use assms in \<open>simp add: GlobalRegistry_unregisterService_def\<close>)

lemma concat_map_filter: "filter P (concat (map snd m)) = concat (map (\<lambda>p. filter P (snd p)) m)"
  by (simp add: filter_concat comp_def)

lemma concat_map_snd_erase:
  "v = [] \<Longrightarrow> concat (map snd (om_delete k m)) = concat (map (\<lambda>p. if fst p = k then v else snd p) m)"
  by (induction m) (auto simp: om_delete_def)

lemma concat_map_snd_replace:
  "concat (map snd (map (\<lambda>p. if fst p = k then (k, v) else p) m)) =
   concat (map (\<lambda>p. if fst p = k then v else snd p) m)"
  by (induction m) auto

lemma findServices_all: "GlobalRegistry_findServices [] g = concat (map snd (gr_services g))"
  by (simp add: GlobalRegistry_findServices_def)

lemma group_members:
  "registry_ok g \<Longrightarrow> p \<in> set (gr_services g) \<Longrightarrow> t \<in> set (snd p) \<Longrightarrow> svc_group t = fst p"
  by (auto simp: registry_ok_def group_ok_def list_all_iff)

lemma listing_unregisterService:
  assumes ok: "registry_ok g"
  shows "GlobalRegistry_findServices [] (GlobalRegistry_unregisterService (svc_group s) s g) =
    filter (\<lambda>t. \<not> same_subscription t s) (GlobalRegistry_findServices [] g)"
proof -
  let ?k = "svc_group s" and ?m = "gr_services g"
  let ?keep = "\<lambda>t. \<not> (svc_node_id t = svc_node_id s \<and> svc_topic t = svc_topic s)"
  let ?P = "\<lambda>t. \<not> same_subscription t s"
  have wf: "om_wf ?m" using ok by (simp add: registry_ok_def)
  have other: "filter ?P (snd p) = snd p" if "p \<in> set ?m" "fst p \<noteq> ?k" for p
    using group_members [OF ok that(1)] that(2)
    by (auto simp: filter_id_conv same_subscription_def)
  have own: "filter ?P (snd p) = filter ?keep (snd p)" if "p \<in> set ?m" "fst p = ?k" for p
    using group_members [OF ok that(1)] that(2)
    by (auto simp: same_subscription_def intro!: filter_cong)
  show ?thesis
  proof (cases "om_lookup ?m ?k")
    case None
    then have "fst p \<noteq> ?k" if "p \<in> set ?m" for p
      using that by (force simp: om_lookup_def map_of_eq_None_iff)
    then show ?thesis
      using None other
      by (simp add: findServices_all GlobalRegistry_unregisterService_def concat_map_filter cong: map_cong)
  next
    case (Some vec)
    have vec: "snd p = vec" if "p \<in> set ?m" "fst p = ?k" for p
      using om_lookup_eq_mem [OF wf, of ?k] Some that by (metis option.inject prod.collapse)
    define vec' where "vec' = filter ?keep vec"
    have step: "GlobalRegistry_unregisterService ?k s g =
        g\<lparr>gr_services := if vec' = [] then om_delete ?k ?m else om_insert ?k vec' ?m\<rparr>"
      unfolding GlobalRegistry_unregisterService_def Some option.case Let_def vec'_def by simp
    have "map (\<lambda>p. filter ?P (snd p)) ?m = map (\<lambda>p. if fst p = ?k then vec' else snd p) ?m"
      using other own vec unfolding vec'_def by (intro map_cong) auto
    then have flt: "filter ?P (concat (map snd ?m)) = concat (map (\<lambda>p. if fst p = ?k then vec' else snd p) ?m)"
      by (simp only: concat_map_filter)
    have "concat (map snd (if vec' = [] then om_delete ?k ?m else om_insert ?k vec' ?m)) =
        concat (map (\<lambda>p. if fst p = ?k then vec' else snd p) ?m)"
      using Some om_insert_present [OF wf, of ?k] concat_map_snd_erase [of vec' ?k ?m]
        concat_map_snd_replace [of ?k vec' ?m] by simp
    then show ?thesis by (simp only: step flt findServices_all) simp
  qed
qed

interpretation svc_dir: service_directory "GlobalRegistry_findServices []"
  "\<lambda>s. GlobalRegistry_unregisterService (svc_group s) s" registry_ok
  by unfold_locales (auto simp: registry_ok_unregisterService listing_unregisterService)

subsection \<open>Reachable registries\<close>

text \<open>The states that the operations, called the way the node calls them, can produce.\<close>

inductive registry_reach :: "GlobalRegistry \<Rightarrow> bool" where
  start: "registry_reach GlobalRegistry_init"
| register_node: "registry_reach g \<Longrightarrow> registry_reach (GlobalRegistry_registerNode nid ref g)"
| unregister_node: "registry_reach g \<Longrightarrow> registry_reach (GlobalRegistry_unregisterNode nid g)"
| all_nodes: "registry_reach g \<Longrightarrow> registry_reach (snd (GlobalRegistry_getAllNodes alive g))"
| register_service: "registry_reach g \<Longrightarrow> registry_reach (GlobalRegistry_registerService (svc_group svc) svc g)"
| unregister_service: "registry_reach g \<Longrightarrow> registry_reach (GlobalRegistry_unregisterService grp svc g)"
| clear_services: "registry_reach g \<Longrightarrow> registry_reach (GlobalRegistry_clearServices g)"

lemma registry_ok_getAllNodes: "registry_ok g \<Longrightarrow> registry_ok (snd (GlobalRegistry_getAllNodes alive g))"
  by (simp add: registry_ok_def GlobalRegistry_getAllNodes_def getAllNodes_loop_filter om_wf_filter)

lemma registry_ok_unregisterNode: "registry_ok g \<Longrightarrow> registry_ok (GlobalRegistry_unregisterNode nid g)"
  by (simp add: registry_ok_def GlobalRegistry_unregisterNode_def om.ok_erase
      remove_node_services_wf remove_node_services_ok)

lemma registry_ok_init: "registry_ok GlobalRegistry_init"
  by (simp add: registry_ok_def GlobalRegistry_init_def om.ok_nothing)

lemma findServices_registerService:
  "registry_ok g \<Longrightarrow> grp \<noteq> [] \<Longrightarrow>
   GlobalRegistry_findServices grp (GlobalRegistry_registerService grp svc g) =
     registerService_loop svc (GlobalRegistry_findServices grp g)"
  by (auto simp: GlobalRegistry_findServices_def GlobalRegistry_registerService_def Let_def
      om.find_store registry_ok_def)

definition transport_choice :: "ServiceDescriptor option \<Rightarrow> ServiceDescriptor \<Rightarrow> ServiceDescriptor" where
  "transport_choice old svc =
     (case old of None \<Rightarrow> svc
      | Some e \<Rightarrow> if svc_transport e \<noteq> SHARED_MEMORY \<and> svc_transport svc = SHARED_MEMORY then svc else e)"

lemma registerService_loop_find:
  "List.find (same_service svc) (registerService_loop svc vec) =
     Some (transport_choice (List.find (same_service svc) vec) svc)"
  by (induction svc vec rule: registerService_loop.induct)
    (auto simp: transport_choice_def same_service_def)

lemma registerService_loop_others:
  "sorted_wrt (\<lambda>s t. \<not> same_service s t) vec \<Longrightarrow>
   filter (\<lambda>t. \<not> same_service svc t) (registerService_loop svc vec) = filter (\<lambda>t. \<not> same_service svc t) vec"
  by (induction svc vec rule: registerService_loop.induct) (auto simp: same_service_def)

subsection \<open>Properties\<close>

text \<open>C11: Every registry the process can reach is well formed: each group lists its own services
  only, at most one per node and capability, and no group is kept once it is empty.\<close>

theorem registry_invariant:
  assumes "registry_reach g" shows "registry_ok g"
  using assms
proof (induction rule: registry_reach.induct)
  case (register_node g nid ref)
  then show ?case by (simp add: registry_ok_def GlobalRegistry_registerNode_def om.ok_store)
qed (simp_all add: registry_ok_init registry_ok_unregisterNode registry_ok_getAllNodes
    registry_ok_registerService registry_ok_unregisterService
    registry_ok_def [of "GlobalRegistry_clearServices _"] GlobalRegistry_clearServices_def,
    simp add: registry_ok_def om.ok_nothing)

definition example_service :: ServiceDescriptor where
  "example_service = ServiceDescriptor_default
     \<lparr>svc_node_id := ''n1'', svc_group := ''sensor'', svc_topic := ''temp'', svc_transport := UDP\<rparr>"

definition example_registry :: GlobalRegistry where
  "example_registry =
     GlobalRegistry_registerService ''sensor'' example_service
       (GlobalRegistry_registerNode ''n1'' 7 GlobalRegistry_init)"

lemma example_registry_reach: "registry_reach example_registry"
  using registry_reach.register_service [OF registry_reach.register_node [OF registry_reach.start], of example_service]
  by (simp add: example_registry_def example_service_def)

theorem registry_invariant_witness: "registry_ok example_registry"
  by (rule registry_invariant [OF example_registry_reach])

lemma example_registry_ok: "registry_ok example_registry"
  unfolding example_registry_def
  by (rule registry_ok_registerService)
    (simp_all add: registry_ok_def GlobalRegistry_registerNode_def GlobalRegistry_init_def om_wf_def
      example_service_def)



text \<open>Unregistering a node removes the node and exactly its services: every listing, of one
  group or of all, keeps the services of the other nodes in their order.\<close>

theorem unregisterNode_removes_exactly:
  assumes "registry_ok g"
  shows "GlobalRegistry_findServices grp (GlobalRegistry_unregisterNode nid g) =
           filter (\<lambda>s. svc_node_id s \<noteq> nid) (GlobalRegistry_findServices grp g) \<and>
         GlobalRegistry_findNode alive nid (GlobalRegistry_unregisterNode nid g) = None \<and>
         (n \<noteq> nid \<longrightarrow> GlobalRegistry_findNode alive n (GlobalRegistry_unregisterNode nid g) =
            GlobalRegistry_findNode alive n g)"
  using assms
  by (auto simp: GlobalRegistry_findServices_def GlobalRegistry_unregisterNode_def GlobalRegistry_findNode_def
      remove_node_services_concat remove_node_services_lookup registry_ok_def om.find_erase Let_def
      split: option.splits)

theorem unregisterNode_removes_exactly_witness:
  "GlobalRegistry_findServices [] (GlobalRegistry_unregisterNode ''n1'' example_registry) =
     filter (\<lambda>s. svc_node_id s \<noteq> ''n1'') (GlobalRegistry_findServices [] example_registry)"
  using unregisterNode_removes_exactly [OF example_registry_ok, of "[]" "''n1''" "\<lambda>_. True" "''n2''"] by simp

text \<open>Unregistering a service removes from the listing every descriptor of the same node, group
  and topic, whatever its type, channel or transport, and nothing else.\<close>

theorem unregisterService_effect:
  assumes "registry_ok g"
  shows "GlobalRegistry_findServices [] (GlobalRegistry_unregisterService (svc_group s) s g) =
           filter (\<lambda>t. \<not> same_subscription t s) (GlobalRegistry_findServices [] g) \<and>
         GlobalRegistry_getServiceCount g = length (GlobalRegistry_findServices [] g)"
proof -
  have "foldl (\<lambda>count p. count + length (snd p)) n m = n + length (concat (map snd m))"
    for n and m :: "(string, ServiceDescriptor list) omap"
    by (induction m arbitrary: n) auto
  then show ?thesis
    using svc_dir.listing_remove [OF assms, of s]
    by (simp add: GlobalRegistry_getServiceCount_def findServices_all)
qed

theorem unregisterService_effect_witness:
  "GlobalRegistry_findServices [] (GlobalRegistry_unregisterService ''sensor'' example_service example_registry) =
     filter (\<lambda>t. \<not> same_subscription t example_service) (GlobalRegistry_findServices [] example_registry)"
  using unregisterService_effect [OF example_registry_ok, of example_service]
  by (simp add: example_service_def)

end
