(* ===== verification/Nexus_Message.thy ===== *)
theory Nexus_Message
  imports Nexus_Prelude
begin

section \<open>Message packets\<close>

text \<open>
  Model of \<open>include/nexus/core/Message.h\<close>: the packet header as a record whose byte image is the
  layout the compiler gives the struct on Linux (fields without gaps, the variable data at offset
  86, \<open>sizeof(MessagePacket) = 88\<close>), the checksum, the validity test and the builder.  Reads behind
  the received bytes, which the C++ code does not exclude, are the value \<open>None\<close>.

  Shown: what a receiver reads of a built packet, for all sizes of the parts, with the truncation
  of the length fields; built packets are accepted exactly when the parts obey the limits; the
  checksum detects the change of a single byte; a cut packet makes the validity test read behind
  the buffer.
\<close>

datatype MessageType =
    DATA | SUBSCRIBE | UNSUBSCRIBE | QUERY_SUBSCRIPTIONS | SUBSCRIPTION_REPLY
  | SERVICE_REGISTER | SERVICE_UNREGISTER | NODE_JOIN | NODE_LEAVE | HEARTBEAT

fun MessageType_code :: "MessageType \<Rightarrow> u8" where
  "MessageType_code DATA = 0"
| "MessageType_code SUBSCRIBE = 1"
| "MessageType_code UNSUBSCRIBE = 2"
| "MessageType_code QUERY_SUBSCRIPTIONS = 3"
| "MessageType_code SUBSCRIPTION_REPLY = 4"
| "MessageType_code SERVICE_REGISTER = 5"
| "MessageType_code SERVICE_UNREGISTER = 6"
| "MessageType_code NODE_JOIN = 7"
| "MessageType_code NODE_LEAVE = 8"
| "MessageType_code HEARTBEAT = 9"

text \<open>\<open>None\<close> is a value of the enumeration's underlying type that names no enumerator.\<close>

definition MessageType_of :: "u8 \<Rightarrow> MessageType option" where
  "MessageType_of c =
     List.find (\<lambda>t. MessageType_code t = c)
       [DATA, SUBSCRIBE, UNSUBSCRIBE, QUERY_SUBSCRIPTIONS, SUBSCRIPTION_REPLY,
        SERVICE_REGISTER, SERVICE_UNREGISTER, NODE_JOIN, NODE_LEAVE, HEARTBEAT]"

definition PACKET_MAGIC :: u32 where "PACKET_MAGIC = 0x4C525043"
definition PACKET_VERSION :: u16 where "PACKET_VERSION = 1"
definition MAX_GROUP_LEN :: u16 where "MAX_GROUP_LEN = 128"
definition MAX_TOPIC_LEN :: u16 where "MAX_TOPIC_LEN = 128"
definition MAX_PAYLOAD_LEN :: u32 where "MAX_PAYLOAD_LEN = 65000"
definition PACKET_HEADER :: nat where "PACKET_HEADER = 86"
definition sizeof_MessagePacket :: nat where "sizeof_MessagePacket = 88"

record MessagePacket =
  mp_magic :: u32
  mp_version :: u16
  mp_msg_type :: u8
  mp_reserved :: u8
  mp_group_len :: u16
  mp_topic_len :: u16
  mp_payload_len :: u32
  mp_checksum :: u32
  mp_node_id :: bytes
  mp_udp_port :: u16
  mp_data :: bytes

definition packet_bytes :: "MessagePacket \<Rightarrow> bytes" where
  "packet_bytes p =
     word_to_le 4 (mp_magic p) @ word_to_le 2 (mp_version p) @ word_to_le 1 (mp_msg_type p) @
     word_to_le 1 (mp_reserved p) @ word_to_le 2 (mp_group_len p) @ word_to_le 2 (mp_topic_len p) @
     word_to_le 4 (mp_payload_len p) @ word_to_le 4 (mp_checksum p) @ mp_node_id p @
     word_to_le 2 (mp_udp_port p) @ mp_data p"

definition packet_of_bytes :: "bytes \<Rightarrow> MessagePacket" where
  "packet_of_bytes b =
     \<lparr>mp_magic = le_to_word (mem_read b 0 4), mp_version = le_to_word (mem_read b 4 2),
      mp_msg_type = le_to_word (mem_read b 6 1), mp_reserved = le_to_word (mem_read b 7 1),
      mp_group_len = le_to_word (mem_read b 8 2), mp_topic_len = le_to_word (mem_read b 10 2),
      mp_payload_len = le_to_word (mem_read b 12 4), mp_checksum = le_to_word (mem_read b 16 4),
      mp_node_id = mem_read b 20 64, mp_udp_port = le_to_word (mem_read b 84 2),
      mp_data = drop PACKET_HEADER b\<rparr>"

definition packetSize :: "nat \<Rightarrow> nat \<Rightarrow> nat \<Rightarrow> nat" where
  "packetSize group_len topic_len payload_len = sizeof_MessagePacket + group_len + topic_len + payload_len"

definition getGroup :: "MessagePacket \<Rightarrow> nat" where
  "getGroup p = 0"

definition getTopic :: "MessagePacket \<Rightarrow> nat" where
  "getTopic p = unat (mp_group_len p)"

definition getPayload :: "MessagePacket \<Rightarrow> nat" where
  "getPayload p = unat (mp_group_len p) + unat (mp_topic_len p)"

text \<open>The length that \<open>calculateChecksum\<close> sums is computed in 32 bits.\<close>

definition total_len :: "MessagePacket \<Rightarrow> nat" where
  "total_len p = unat (ucast (mp_group_len p) + ucast (mp_topic_len p) + mp_payload_len p :: u32)"

definition checksum_value :: "MessagePacket \<Rightarrow> u32" where
  "checksum_value p =
     mp_magic p + ucast (mp_version p) + ucast (mp_msg_type p) + ucast (mp_group_len p) +
     ucast (mp_topic_len p) + mp_payload_len p + ucast (mp_udp_port p) +
     sum_list (map ucast (takeWhile (\<lambda>c. c \<noteq> 0) (mp_node_id p))) +
     sum_list (map ucast (take (total_len p) (mp_data p)))"

definition calculateChecksum :: "MessagePacket \<Rightarrow> u32 option" where
  "calculateChecksum p = (if total_len p \<le> length (mp_data p) then Some (checksum_value p) else None)"

definition packet_isValid :: "MessagePacket \<Rightarrow> bool option" where
  "packet_isValid p =
     (if mp_magic p \<noteq> PACKET_MAGIC then Some False
      else if mp_version p \<noteq> PACKET_VERSION then Some False
      else if mp_group_len p > MAX_GROUP_LEN then Some False
      else if mp_topic_len p > MAX_TOPIC_LEN then Some False
      else if mp_payload_len p > MAX_PAYLOAD_LEN then Some False
      else map_option (\<lambda>c. mp_checksum p = c) (calculateChecksum p))"

text \<open>
  The reads of a receiver.  \<open>std::string(packet->node_id)\<close> runs to the first NUL, if need be behind
  the 64 bytes of the field.
\<close>

definition packet_node_id :: "MessagePacket \<Rightarrow> string option" where
  "packet_node_id p =
     (let mem = mp_node_id p @ word_to_le 2 (mp_udp_port p) @ mp_data p
      in if 0 \<in> set mem then Some (cstr_read mem) else None)"

definition packet_group :: "MessagePacket \<Rightarrow> string" where
  "packet_group p = bytes_str (mem_read (mp_data p) (getGroup p) (unat (mp_group_len p)))"

definition packet_topic :: "MessagePacket \<Rightarrow> string" where
  "packet_topic p = bytes_str (mem_read (mp_data p) (getTopic p) (unat (mp_topic_len p)))"

definition packet_payload :: "MessagePacket \<Rightarrow> bytes" where
  "packet_payload p = mem_read (mp_data p) (getPayload p) (unat (mp_payload_len p))"

definition MessageBuilder_packet ::
    "string \<Rightarrow> string \<Rightarrow> string \<Rightarrow> bytes \<Rightarrow> u16 \<Rightarrow> MessageType \<Rightarrow> MessagePacket" where
  "MessageBuilder_packet nid grp topic payload udp_port msg_type =
     (let packet = \<lparr>mp_magic = PACKET_MAGIC, mp_version = PACKET_VERSION,
            mp_msg_type = MessageType_code msg_type, mp_reserved = 0,
            mp_group_len = word_of_nat (length grp), mp_topic_len = word_of_nat (length topic),
            mp_payload_len = word_of_nat (length payload), mp_checksum = 0,
            mp_node_id = cstr_field 64 nid, mp_udp_port = udp_port,
            mp_data = replicate (packetSize (length grp) (length topic) (length payload) - PACKET_HEADER) 0\<rparr>;
          packet = packet\<lparr>mp_data := mem_write (mp_data packet) (getGroup packet) (str_bytes grp)\<rparr>;
          packet = packet\<lparr>mp_data := mem_write (mp_data packet) (getTopic packet) (str_bytes topic)\<rparr>;
          packet = packet\<lparr>mp_data := mem_write (mp_data packet) (getPayload packet) payload\<rparr>
      in packet\<lparr>mp_checksum := checksum_value packet\<rparr>)"

definition MessageBuilder_build ::
    "string \<Rightarrow> string \<Rightarrow> string \<Rightarrow> bytes \<Rightarrow> u16 \<Rightarrow> MessageType \<Rightarrow> bytes" where
  "MessageBuilder_build nid grp topic payload udp_port msg_type =
     packet_bytes (MessageBuilder_packet nid grp topic payload udp_port msg_type)"

definition MessageBuilder_build_string ::
    "string \<Rightarrow> string \<Rightarrow> string \<Rightarrow> string \<Rightarrow> u16 \<Rightarrow> MessageType \<Rightarrow> bytes" where
  "MessageBuilder_build_string nid grp topic payload udp_port msg_type =
     MessageBuilder_build nid grp topic (str_bytes payload) udp_port msg_type"

record SubscriptionKey =
  sk_group :: string
  sk_topic :: string

definition SubscriptionKey_less :: "SubscriptionKey \<Rightarrow> SubscriptionKey \<Rightarrow> bool" where
  "SubscriptionKey_less k other =
     (if sk_group k \<noteq> sk_group other then sk_group k < sk_group other else sk_topic k < sk_topic other)"

definition SubscriptionKey_eq :: "SubscriptionKey \<Rightarrow> SubscriptionKey \<Rightarrow> bool" where
  "SubscriptionKey_eq k other \<longleftrightarrow> sk_group k = sk_group other \<and> sk_topic k = sk_topic other"

definition SubscriptionKey_toString :: "SubscriptionKey \<Rightarrow> string" where
  "SubscriptionKey_toString k = sk_group k @ ''/'' @ sk_topic k"

subsection \<open>The byte image of a packet\<close>

lemma MessageType_of_code [simp]: "MessageType_of (MessageType_code t) = Some t"
  by (cases t) (simp_all add: MessageType_of_def)

lemma SubscriptionKey_order:
  "\<not> SubscriptionKey_less k k"
  "SubscriptionKey_less a b \<Longrightarrow> SubscriptionKey_less b c \<Longrightarrow> SubscriptionKey_less a c"
  "SubscriptionKey_less a b \<or> SubscriptionKey_less b a \<or> SubscriptionKey_eq a b"
  by (auto simp: SubscriptionKey_less_def SubscriptionKey_eq_def split: if_splits)

lemma length_packet_bytes: "length (mp_node_id p) = 64 \<Longrightarrow> length (packet_bytes p) = 86 + length (mp_data p)"
  by (simp add: packet_bytes_def)

lemma mem_read_prefix: "length xs = off \<Longrightarrow> mem_read (xs @ ys) (off + k) n = mem_read ys k n"
  by (simp add: mem_read_def)

lemma mem_read_here: "length ys = n \<Longrightarrow> mem_read (ys @ zs) 0 n = ys"
  by (simp add: mem_read_def)

lemma mem_read_skip:
  "length xs \<le> off \<Longrightarrow> mem_read (xs @ ys) off n = mem_read ys (off - length xs) n"
  by (simp add: mem_read_def)

lemma packet_of_packet_bytes:
  assumes "length (mp_node_id p) = 64"
  shows "packet_of_bytes (packet_bytes p) = p"
proof -
  have "drop PACKET_HEADER (packet_bytes p) = mp_data p"
    using assms by (simp add: packet_bytes_def PACKET_HEADER_def)
  moreover have "mem_read (packet_bytes p) 20 64 = mp_node_id p"
    using assms by (simp add: packet_bytes_def mem_read_skip mem_read_here del: word_to_le.simps)
  moreover have "mem_read (packet_bytes p) 84 2 = word_to_le 2 (mp_udp_port p)"
    using assms by (simp add: packet_bytes_def mem_read_skip mem_read_here del: word_to_le.simps)
  ultimately show ?thesis
    by (simp add: packet_of_bytes_def packet_bytes_def mem_read_skip mem_read_here del: word_to_le.simps)
qed

subsection \<open>Packets of the builder\<close>

lemma mem_read_write_prefix:
  "n \<le> length bs \<Longrightarrow> off \<le> length buf \<Longrightarrow> mem_read (mem_write buf off bs) off n = take n bs"
  by (simp add: mem_read_def mem_write_def)

definition len16 :: "'a list \<Rightarrow> nat" where
  "len16 xs = length xs mod 65536"

lemma len16_le: "len16 xs \<le> length xs"
  by (simp add: len16_def)

lemma len16_id: "length xs < 65536 \<Longrightarrow> len16 xs = length xs"
  by (simp add: len16_def)

lemma unat_len16: "unat (word_of_nat (length xs) :: u16) = len16 xs"
  by (simp add: unat_of_nat len16_def)

lemma unat_len32: "length xs < 2 ^ 32 \<Longrightarrow> unat (word_of_nat (length xs) :: u32) = length xs"
  by (simp add: unat_of_nat)

lemma str_len16_le: "len16 s \<le> length (str_bytes s)"
  using len16_le [of s] by simp

definition built_data :: "string \<Rightarrow> string \<Rightarrow> bytes \<Rightarrow> bytes" where
  "built_data grp topic payload =
     mem_write (mem_write (mem_write (replicate (2 + length grp + length topic + length payload) 0)
       0 (str_bytes grp)) (len16 grp) (str_bytes topic)) (len16 grp + len16 topic) payload"

lemma length_built_data: "length (built_data grp topic payload) = 2 + length grp + length topic + length payload"
proof -
  let ?n = "2 + length grp + length topic + length payload"
  let ?d1 = "mem_write (replicate ?n 0) 0 (str_bytes grp)"
  let ?d2 = "mem_write ?d1 (len16 grp) (str_bytes topic)"
  have 1: "length ?d1 = ?n" by simp
  have 2: "length ?d2 = ?n" using len16_le [of grp] 1 by (subst length_mem_write) auto
  show ?thesis
    unfolding built_data_def using len16_le [of grp] len16_le [of topic] 2 by (subst length_mem_write) auto
qed

lemma built_data_parts:
  "mem_read (built_data grp topic payload) 0 (len16 grp) = take (len16 grp) (str_bytes grp)"
  "mem_read (built_data grp topic payload) (len16 grp) (len16 topic) = take (len16 topic) (str_bytes topic)"
  "mem_read (built_data grp topic payload) (len16 grp + len16 topic) (length payload) = payload"
proof -
  let ?n = "2 + length grp + length topic + length payload"
  let ?d1 = "mem_write (replicate ?n 0) 0 (str_bytes grp)"
  let ?d2 = "mem_write ?d1 (len16 grp) (str_bytes topic)"
  note le = len16_le [of grp] len16_le [of topic] str_len16_le [of grp] str_len16_le [of topic]
  have d1: "length ?d1 = ?n" by simp
  have d2: "length ?d2 = ?n" using le d1 by (subst length_mem_write) auto
  have "mem_read (mem_write ?d2 (len16 grp + len16 topic) payload) 0 (len16 grp) = mem_read ?d2 0 (len16 grp)"
    by (rule mem_read_write_before) (use le d2 in auto)
  also have "\<dots> = mem_read ?d1 0 (len16 grp)"
    by (rule mem_read_write_before) (use le d1 in auto)
  also have "\<dots> = take (len16 grp) (str_bytes grp)"
    by (rule mem_read_write_prefix) (use le in auto)
  finally show "mem_read (built_data grp topic payload) 0 (len16 grp) = take (len16 grp) (str_bytes grp)"
    by (simp add: built_data_def)
  have "mem_read (mem_write ?d2 (len16 grp + len16 topic) payload) (len16 grp) (len16 topic)
      = mem_read ?d2 (len16 grp) (len16 topic)"
    by (rule mem_read_write_before) (use le d2 in auto)
  also have "\<dots> = take (len16 topic) (str_bytes topic)"
    by (rule mem_read_write_prefix) (use le d1 in auto)
  finally show "mem_read (built_data grp topic payload) (len16 grp) (len16 topic) = take (len16 topic) (str_bytes topic)"
    by (simp add: built_data_def)
  show "mem_read (built_data grp topic payload) (len16 grp + len16 topic) (length payload) = payload"
    unfolding built_data_def by (rule mem_read_write_same_n) (use le d2 in auto)
qed

lemma checksum_value_update [simp]: "checksum_value (p\<lparr>mp_checksum := c\<rparr>) = checksum_value p"
  by (simp add: checksum_value_def total_len_def)

lemma unat_ucast_16_32 [simp]: "unat (ucast (w :: u16) :: u32) = unat w"
proof -
  have "unat w < 2 ^ 16" using unsigned_less [of w] by simp
  then have "unat w < 2 ^ 32" by simp
  then show ?thesis by (simp add: unsigned_ucast_eq take_bit_nat_eq_self)
qed

lemma unat_ucast_8_32: "unat (ucast (w :: u8) :: u32) = unat w"
proof -
  have "unat w < 2 ^ 8" using unsigned_less [of w] by simp
  then have "unat w < 2 ^ 32" by simp
  then show ?thesis by (simp add: unsigned_ucast_eq take_bit_nat_eq_self)
qed

lemma built_packet:
  fixes nid grp topic payload udp_port msg_type
  defines "p \<equiv> MessageBuilder_packet nid grp topic payload udp_port msg_type"
  shows "mp_magic p = PACKET_MAGIC" "mp_version p = PACKET_VERSION"
    "mp_msg_type p = MessageType_code msg_type" "mp_node_id p = cstr_field 64 nid" "mp_udp_port p = udp_port"
    "mp_group_len p = word_of_nat (length grp)" "mp_topic_len p = word_of_nat (length topic)"
    "mp_payload_len p = word_of_nat (length payload)" "mp_data p = built_data grp topic payload"
    "mp_checksum p = checksum_value p"
proof -
  define q where "q = p\<lparr>mp_checksum := 0\<rparr>"
  have "p = q\<lparr>mp_checksum := checksum_value q\<rparr>" and q: "mp_data q = built_data grp topic payload"
    by (simp_all add: p_def q_def MessageBuilder_packet_def Let_def packetSize_def PACKET_HEADER_def
        sizeof_MessagePacket_def built_data_def getGroup_def getTopic_def getPayload_def unat_len16 add.assoc)
  note p = this(1)
  show "mp_data p = built_data grp topic payload" using q by (simp add: q_def)
  have "checksum_value p = checksum_value q" by (simp add: q_def)
  then show "mp_checksum p = checksum_value p" using arg_cong [OF p, of mp_checksum] by simp
qed (simp_all add: p_def MessageBuilder_packet_def Let_def)

lemma packet_of_build:
  "packet_of_bytes (MessageBuilder_build nid grp topic payload port t) = MessageBuilder_packet nid grp topic payload port t"
  by (simp add: MessageBuilder_build_def packet_of_packet_bytes built_packet)

lemma total_len_built:
  "total_len (MessageBuilder_packet nid grp topic payload port t) \<le> length (built_data grp topic payload)"
proof -
  have "total_len (MessageBuilder_packet nid grp topic payload port t)
      \<le> len16 grp + len16 topic + unat (word_of_nat (length payload) :: u32)"
    unfolding total_len_def built_packet
    by (simp add: unat_word_ariths(1) unat_len16 mod_simps)
  also have "\<dots> \<le> length grp + length topic + length payload"
    using len16_le [of grp] len16_le [of topic] by (simp add: unat_of_nat add_mono)
  finally show ?thesis by (simp add: length_built_data)
qed

lemma calculateChecksum_built:
  "calculateChecksum (MessageBuilder_packet nid grp topic payload port t) =
     Some (mp_checksum (MessageBuilder_packet nid grp topic payload port t))"
  using total_len_built by (simp add: calculateChecksum_def built_packet(9,10))

lemma built_isValid:
  assumes "length payload < 2 ^ 32"
  shows "packet_isValid (MessageBuilder_packet nid grp topic payload port t) =
    Some (len16 grp \<le> 128 \<and> len16 topic \<le> 128 \<and> length payload \<le> 65000)"
proof -
  have "(word_of_nat (length grp) :: u16) > MAX_GROUP_LEN \<longleftrightarrow> 128 < len16 grp"
    by (simp add: word_less_nat_alt unat_len16 MAX_GROUP_LEN_def)
  moreover have "(word_of_nat (length topic) :: u16) > MAX_TOPIC_LEN \<longleftrightarrow> 128 < len16 topic"
    by (simp add: word_less_nat_alt unat_len16 MAX_TOPIC_LEN_def)
  moreover have "(word_of_nat (length payload) :: u32) > MAX_PAYLOAD_LEN \<longleftrightarrow> 65000 < length payload"
    using assms by (simp add: word_less_nat_alt unat_len32 MAX_PAYLOAD_LEN_def)
  ultimately show ?thesis
    by (simp add: packet_isValid_def built_packet(1,2,6,7,8) calculateChecksum_built not_less)
qed

lemma built_reads:
  fixes nid grp topic payload udp_port msg_type
  assumes "length payload < 2 ^ 32"
  defines "p \<equiv> MessageBuilder_packet nid grp topic payload udp_port msg_type"
  shows "packet_node_id p = Some (take 63 (c_str nid))" "packet_group p = take (len16 grp) grp"
    "packet_topic p = take (len16 topic) topic" "packet_payload p = payload"
proof -
  have "0 \<in> set (cstr_field 64 nid)" by (simp add: cstr_field_def)
  moreover have "takeWhile (\<lambda>b. b \<noteq> 0) (cstr_field 64 nid @ rest) = takeWhile (\<lambda>b. b \<noteq> 0) (cstr_field 64 nid)" for rest
    using \<open>0 \<in> set (cstr_field 64 nid)\<close> by (intro takeWhile_append1) auto
  ultimately show "packet_node_id p = Some (take 63 (c_str nid))"
    using cstr_read_field [of 64 nid]
    by (simp add: p_def packet_node_id_def built_packet Let_def cstr_read_def)
  show "packet_group p = take (len16 grp) grp"
    by (simp add: p_def packet_group_def getGroup_def built_packet unat_len16 built_data_parts flip: str_bytes_take)
  show "packet_topic p = take (len16 topic) topic"
    by (simp add: p_def packet_topic_def getTopic_def built_packet unat_len16 built_data_parts flip: str_bytes_take)
  show "packet_payload p = payload"
    using assms(1) built_data_parts(3) [of grp topic payload]
    by (simp add: p_def packet_payload_def getPayload_def built_packet unat_len16 unat_len32)
qed

text \<open>What a receiver reads of a built packet.  For a payload below 4 GiB the receiver's validity
  test succeeds exactly when the lengths in the header obey the limits; the node id arrives cut to
  63 characters, type, port and payload arrive unchanged, and group and topic arrive cut to their
  length modulo 65536, so names beyond 64 KiB can pass as short ones.\<close>

theorem build_receive:
  assumes "length payload < 2 ^ 32"
  shows "let p = packet_of_bytes (MessageBuilder_build nid grp topic payload udp_port msg_type) in
    packet_isValid p = Some (length grp mod 65536 \<le> 128 \<and> length topic mod 65536 \<le> 128 \<and> length payload \<le> 65000) \<and>
    packet_node_id p = Some (take 63 (c_str nid)) \<and> MessageType_of (mp_msg_type p) = Some msg_type \<and>
    mp_udp_port p = udp_port \<and> packet_group p = take (length grp mod 65536) grp \<and>
    packet_topic p = take (length topic mod 65536) topic \<and> packet_payload p = payload"
  using assms built_isValid [OF assms] built_reads [OF assms]
  by (simp add: packet_of_build Let_def built_packet(3,5) len16_def)

theorem build_receive_witness:
  "let p = packet_of_bytes (MessageBuilder_build ''n'' ''g'' ''t'' [1, 2] 5 DATA) in
     packet_isValid p = Some True \<and> packet_node_id p = Some ''n'' \<and> packet_group p = ''g'' \<and>
     packet_topic p = ''t'' \<and> packet_payload p = [1, 2]"
  using build_receive [of "[1, 2]" "''n''" "''g''" "''t''" 5 DATA] by (simp add: Let_def c_str_def)

text \<open>C10: The round trip within the limits: a message whose node id is shorter than 64 characters
  without NUL, with group and topic up to 128 and payload up to 65000 bytes, is accepted and read
  back unchanged, and its packet has \<open>packetSize\<close> bytes.\<close>

theorem build_roundtrip:
  assumes "no_nul nid" "length nid < 64" "length grp \<le> 128" "length topic \<le> 128" "length payload \<le> 65000"
  shows "let b = MessageBuilder_build nid grp topic payload udp_port msg_type; p = packet_of_bytes b in
    length b = packetSize (length grp) (length topic) (length payload) \<and> packet_isValid p = Some True \<and>
    (packet_node_id p, packet_group p, packet_topic p, packet_payload p) = (Some nid, grp, topic, payload)"
proof -
  have len: "length payload < 2 ^ 32" using assms by simp
  have "length (MessageBuilder_build nid grp topic payload udp_port msg_type) = packetSize (length grp) (length topic) (length payload)"
    by (simp add: MessageBuilder_build_def length_packet_bytes built_packet length_built_data packetSize_def
        sizeof_MessagePacket_def)
  then show ?thesis
    using assms built_isValid [OF len] built_reads [OF len]
    by (simp add: packet_of_build Let_def len16_id)
qed

theorem build_roundtrip_witness:
  "packet_isValid (packet_of_bytes (MessageBuilder_build ''n'' ''g'' ''t'' [] 5 DATA)) = Some True \<and>
   packet_node_id (packet_of_bytes (MessageBuilder_build ''n'' ''g'' ''t'' [] 5 DATA)) = Some ''n''"
  using build_roundtrip [of "''n''" "''g''" "''t''" "[]" 5 DATA] by (simp add: Let_def no_nul_def)

lemma sum_list_update_ne:
  fixes f :: "'a \<Rightarrow> 'b::ab_group_add"
  assumes "i < length xs" "f y \<noteq> f (xs ! i)"
  shows "sum_list (map f (xs[i := y])) \<noteq> sum_list (map f xs)"
proof -
  have "sum_list (map f (xs[i := y])) = sum_list (map f xs) + f y - f (xs ! i)"
    using assms(1)
  proof (induction xs arbitrary: i)
    case (Cons x xs)
    then show ?case by (cases i) (auto simp: algebra_simps)
  qed simp
  then show ?thesis using assms(2) by simp
qed

lemma unat_sum_ucast:
  "length xs * 255 < 2 ^ 32 \<Longrightarrow> unat (sum_list (map ucast (xs :: u8 list)) :: u32) = sum_list (map unat xs) \<and>
     sum_list (map unat xs) \<le> length xs * 255"
proof (induction xs)
  case (Cons x xs)
  have x: "unat x \<le> 255" using unsigned_less [of x, where 'a = nat] by simp
  have "unat (ucast x :: u32) = unat x" by (rule unat_ucast_8_32)
  then show ?case using Cons x by (simp add: unat_word_ariths(1))
qed simp

lemma sum_list_bytes_ne:
  fixes xs ys :: "u8 list"
  assumes "length xs * 255 < 2 ^ 32" "length ys * 255 < 2 ^ 32"
    "sum_list (map unat xs) \<noteq> sum_list (map unat ys)"
  shows "sum_list (map ucast xs) \<noteq> (sum_list (map ucast ys) :: u32)"
  using assms unat_sum_ucast [of xs] unat_sum_ucast [of ys] by metis

text \<open>The bytes up to the first NUL, when one byte is changed.\<close>

lemma takeWhile_update:
  fixes xs :: "u8 list"
  assumes "j < length xs"
  shows "takeWhile (\<lambda>c. c \<noteq> 0) (xs[j := b]) =
    (if \<exists>k < j. xs ! k = 0 then takeWhile (\<lambda>c. c \<noteq> 0) xs
     else take j xs @ (if b = 0 then [] else b # takeWhile (\<lambda>c. c \<noteq> 0) (drop (Suc j) xs)))"
  using assms
proof (induction xs arbitrary: j)
  case (Cons x xs)
  show ?case
  proof (cases j)
    case (Suc i)
    have "(\<exists>k < Suc i. (x # xs) ! k = 0) \<longleftrightarrow> x = 0 \<or> (\<exists>k < i. xs ! k = 0)" by (auto simp: less_Suc_eq_0_disj)
    then show ?thesis using Cons Suc by auto
  qed simp
qed simp

lemma node_id_sum_ne:
  assumes "j < length xs" "b \<noteq> xs ! j" "\<forall>k < j. xs ! k \<noteq> 0"
  shows "sum_list (map unat (takeWhile (\<lambda>c. c \<noteq> 0) (xs[j := b]))) \<noteq> sum_list (map unat (takeWhile (\<lambda>c. c \<noteq> (0 :: u8)) xs))"
proof -
  let ?rest = "takeWhile (\<lambda>c. c \<noteq> 0) (drop (Suc j) xs)"
  have none: "\<not> (\<exists>k < j. xs ! k = 0)" using assms(3) by blast
  have new: "takeWhile (\<lambda>c. c \<noteq> 0) (xs[j := b]) = take j xs @ (if b = 0 then [] else b # ?rest)"
    using takeWhile_update [OF assms(1), of b] unfolding if_not_P [OF none] .
  have old: "takeWhile (\<lambda>c. c \<noteq> 0) xs = take j xs @ (if xs ! j = 0 then [] else (xs ! j) # ?rest)"
    using takeWhile_update [OF assms(1), of "xs ! j"] unfolding if_not_P [OF none] list_update_id .
  have "unat b \<noteq> unat (xs ! j)" using assms(2) by (simp add: word_unat_eq_iff)
  moreover have "unat c = 0 \<longleftrightarrow> c = 0" for c :: u8 by (simp add: unat_eq_0)
  ultimately show ?thesis by (auto simp: new old)
qed

text \<open>Validity of a packet that differs from a valid one only outside the lengths and the checksum.\<close>

lemma isValid_recheck:
  assumes "packet_isValid p = Some True" "mp_magic q = mp_magic p" "mp_version q = mp_version p" "mp_group_len q = mp_group_len p"
    "mp_topic_len q = mp_topic_len p" "mp_payload_len q = mp_payload_len p" "mp_checksum q = mp_checksum p"
    "length (mp_data q) = length (mp_data p)"
  shows "packet_isValid q = Some (checksum_value q = checksum_value p)"
proof -
  have "calculateChecksum p = Some (mp_checksum p)"
    using assms(1) by (auto simp: packet_isValid_def split: if_splits)
  then have len: "total_len p \<le> length (mp_data p)" "checksum_value p = mp_checksum p"
    by (auto simp: calculateChecksum_def split: if_splits)
  have "total_len q = total_len p" using assms(4-6) by (simp add: total_len_def)
  then show ?thesis
    using assms len by (auto simp: packet_isValid_def calculateChecksum_def split: if_splits)
qed

lemma ucast_8_32_eq: "(ucast a :: u32) = ucast b \<longleftrightarrow> a = b" for a b :: u8
  by (metis unat_ucast_8_32 word_unat_eq_iff)

lemma checksum_data:
  assumes "i < length (mp_data p)" "b \<noteq> mp_data p ! i" "total_len p \<le> length (mp_data p)"
  shows "checksum_value (p\<lparr>mp_data := (mp_data p)[i := b]\<rparr>) = checksum_value p \<longleftrightarrow> total_len p \<le> i"
proof -
  let ?q = "p\<lparr>mp_data := (mp_data p)[i := b]\<rparr>"
  have tl: "total_len ?q = total_len p" by (simp add: total_len_def)
  have "sum_list (map ucast ((take (total_len p) (mp_data p))[i := b]))
      \<noteq> (sum_list (map ucast (take (total_len p) (mp_data p))) :: u32)" if "i < total_len p"
    by (rule sum_list_update_ne) (use assms that in \<open>auto simp: ucast_8_32_eq\<close>)
  moreover have "take (total_len p) ((mp_data p)[i := b]) = take (total_len p) (mp_data p)" if "total_len p \<le> i"
    using that by simp
  ultimately show ?thesis by (cases "total_len p \<le> i") (simp_all add: checksum_value_def tl take_update_swap not_le)
qed

lemma checksum_node_id:
  assumes "j < length (mp_node_id p)" "b \<noteq> mp_node_id p ! j" "length (mp_node_id p) = 64"
  shows "checksum_value (p\<lparr>mp_node_id := (mp_node_id p)[j := b]\<rparr>) = checksum_value p \<longleftrightarrow> (\<exists>k < j. mp_node_id p ! k = 0)"
proof -
  let ?xs = "mp_node_id p" and ?q = "p\<lparr>mp_node_id := (mp_node_id p)[j := b]\<rparr>"
  have tl: "total_len ?q = total_len p" by (simp add: total_len_def)
  have short: "length (takeWhile (\<lambda>c. c \<noteq> 0) (xs :: u8 list)) * 255 < 2 ^ 32" if "length xs = 64" for xs
    using length_takeWhile_le [of "\<lambda>c. c \<noteq> 0" xs] that by simp
  have "sum_list (map ucast (takeWhile (\<lambda>c. c \<noteq> 0) (?xs[j := b]))) \<noteq> (sum_list (map ucast (takeWhile (\<lambda>c. c \<noteq> 0) ?xs)) :: u32)"
    if "\<forall>k < j. ?xs ! k \<noteq> 0"
    by (rule sum_list_bytes_ne [OF short short node_id_sum_ne [OF assms(1,2) that]]) (use assms(3) in simp_all)
  then show ?thesis
    using takeWhile_update [OF assms(1), of b]
    by (cases "\<exists>k < j. ?xs ! k = 0") (simp_all add: checksum_value_def tl)
qed

text \<open>C28: What the checksum covers of a valid packet, exactly: a change of one byte of group, topic or
  payload, of the node id up to and including its first NUL, of the message type or of the port is
  detected; a byte of the data behind the payload (the padding of the buffer), a byte of the node id
  behind the first NUL and the reserved byte are not covered.\<close>

theorem checksum_coverage:
  assumes "packet_isValid p = Some True" "length (mp_node_id p) = 64"
  shows "(\<forall>i < length (mp_data p). \<forall>b. b \<noteq> mp_data p ! i \<longrightarrow>
      packet_isValid (p\<lparr>mp_data := (mp_data p)[i := b]\<rparr>) = Some (total_len p \<le> i)) \<and>
    (\<forall>j < 64. \<forall>b. b \<noteq> mp_node_id p ! j \<longrightarrow>
      packet_isValid (p\<lparr>mp_node_id := (mp_node_id p)[j := b]\<rparr>) = Some (\<exists>k < j. mp_node_id p ! k = 0)) \<and>
    (\<forall>t. packet_isValid (p\<lparr>mp_msg_type := t\<rparr>) = Some (t = mp_msg_type p)) \<and>
    (\<forall>port. packet_isValid (p\<lparr>mp_udp_port := port\<rparr>) = Some (port = mp_udp_port p)) \<and>
    (\<forall>r. packet_isValid (p\<lparr>mp_reserved := r\<rparr>) = Some True)"
proof (intro conjI allI impI)
  have len: "total_len p \<le> length (mp_data p)"
    using assms(1) by (auto simp: packet_isValid_def calculateChecksum_def split: if_splits)
  show "packet_isValid (p\<lparr>mp_data := (mp_data p)[i := b]\<rparr>) = Some (total_len p \<le> i)"
    if "i < length (mp_data p)" "b \<noteq> mp_data p ! i" for i b
    using isValid_recheck [OF assms(1), of "p\<lparr>mp_data := (mp_data p)[i := b]\<rparr>"] checksum_data [OF that len] by simp
  show "packet_isValid (p\<lparr>mp_node_id := (mp_node_id p)[j := b]\<rparr>) = Some (\<exists>k < j. mp_node_id p ! k = 0)"
    if "j < 64" "b \<noteq> mp_node_id p ! j" for j b
    using isValid_recheck [OF assms(1), of "p\<lparr>mp_node_id := (mp_node_id p)[j := b]\<rparr>"] checksum_node_id [of j p b] that assms(2) by simp
  have [simp]: "total_len (p\<lparr>mp_msg_type := t\<rparr>) = total_len p" "total_len (p\<lparr>mp_udp_port := port\<rparr>) = total_len p"
    "total_len (p\<lparr>mp_reserved := r\<rparr>) = total_len p" for t port r by (simp_all add: total_len_def)
  show "packet_isValid (p\<lparr>mp_msg_type := t\<rparr>) = Some (t = mp_msg_type p)" for t
    using isValid_recheck [OF assms(1), of "p\<lparr>mp_msg_type := t\<rparr>"] by (simp add: checksum_value_def ucast_8_32_eq)
  have "(ucast a :: u32) = ucast b \<longleftrightarrow> a = b" for a b :: u16
    by (metis unat_ucast_16_32 word_unat_eq_iff)
  then show "packet_isValid (p\<lparr>mp_udp_port := port\<rparr>) = Some (port = mp_udp_port p)" for port
    using isValid_recheck [OF assms(1), of "p\<lparr>mp_udp_port := port\<rparr>"] by (simp add: checksum_value_def)
  show "packet_isValid (p\<lparr>mp_reserved := r\<rparr>) = Some True" for r
    using isValid_recheck [OF assms(1), of "p\<lparr>mp_reserved := r\<rparr>"] by (simp add: checksum_value_def)
qed

theorem checksum_coverage_witness:
  "packet_isValid ((MessageBuilder_packet ''n'' ''g'' ''t'' [] 5 DATA)\<lparr>mp_data :=
     (mp_data (MessageBuilder_packet ''n'' ''g'' ''t'' [] 5 DATA))[0 := 0]\<rparr>) = Some False \<and>
   packet_isValid ((MessageBuilder_packet ''n'' ''g'' ''t'' [] 5 DATA)\<lparr>mp_reserved := 1\<rparr>) = Some True"
proof -
  let ?p = "MessageBuilder_packet ''n'' ''g'' ''t'' [] 5 DATA"
  have valid: "packet_isValid ?p = Some True" and id64: "length (mp_node_id ?p) = 64"
    by (simp_all add: built_isValid len16_def built_packet)
  have "0 < length (mp_data ?p)" "(0 :: u8) \<noteq> mp_data ?p ! 0" "\<not> total_len ?p \<le> 0"
    by (simp_all add: total_len_def built_packet built_data_def mem_write_def nth_append)
  then show ?thesis using checksum_coverage [OF valid id64] by auto
qed
text \<open>C40: The receivers only check that \<open>sizeof(MessagePacket)\<close> bytes arrived.  A valid packet cut to
  that size whose parts have more than two bytes makes the validity test read behind the received
  bytes.\<close>

theorem cut_packet_overread:
  assumes "length grp \<le> 128" "length topic \<le> 128" "length payload \<le> 65000"
    "2 < length grp + length topic + length payload"
  shows "let b = take sizeof_MessagePacket (MessageBuilder_build nid grp topic payload udp_port msg_type) in
    length b = sizeof_MessagePacket \<and> packet_isValid (packet_of_bytes b) = None"
proof -
  define p where "p = MessageBuilder_packet nid grp topic payload udp_port msg_type"
  have id64: "length (mp_node_id p) = 64" by (simp add: p_def built_packet)
  have cut: "take 88 (packet_bytes p) = packet_bytes (p\<lparr>mp_data := take 2 (mp_data p)\<rparr>)"
    using id64 by (simp add: packet_bytes_def del: word_to_le.simps)
  have len: "length (take 88 (packet_bytes p)) = 88"
    using id64 by (simp add: length_packet_bytes) (simp add: p_def built_packet length_built_data)
  have "total_len p = length grp + length topic + length payload"
    using assms by (simp add: total_len_def p_def built_packet unat_word_ariths(1) unat_len16 len16_id unat_len32)
  then have "calculateChecksum (p\<lparr>mp_data := take 2 (mp_data p)\<rparr>) = None"
    using assms(4) by (auto simp: calculateChecksum_def total_len_def)
  moreover have "packet_isValid p = Some True"
    using assms built_isValid [of payload] by (simp add: p_def len16_id)
  ultimately have "packet_isValid (p\<lparr>mp_data := take 2 (mp_data p)\<rparr>) = None"
    by (simp add: packet_isValid_def split: if_splits)
  then show ?thesis
    using len cut id64
    by (simp add: Let_def sizeof_MessagePacket_def MessageBuilder_build_def packet_of_packet_bytes flip: p_def)
qed

theorem cut_packet_overread_witness:
  "packet_isValid (packet_of_bytes (take 88 (MessageBuilder_build ''n'' ''g'' ''t'' [7] 5 DATA))) = None"
  using cut_packet_overread [of "''g''" "''t''" "[7]" "''n''" 5 DATA] by (simp add: Let_def sizeof_MessagePacket_def)

end
