(* ===== verification/Nexus_Udp.thy ===== *)
theory Nexus_Udp
  imports Nexus_Prelude
begin

section \<open>UdpTransport and the endpoints of remote nodes\<close>

text \<open>
  Model of \<open>include/nexus/transport/UdpTransport.h\<close> and \<open>src/transport/UdpTransport.cpp\<close>, and of what
  \<open>src/core/NodeImpl.cpp\<close> does around it: the choice of a port and the reading of an endpoint
  \<open>ip:port\<close>.  The socket calls of the operating system are answers in the argument \<open>udp_os\<close>;
  \<open>inet_pton\<close> is a predicate on addresses and \<open>sendto\<close> a number of bytes sent.

  Shown: a transport is initialised exactly while it has a socket; a message goes to one address and
  port with the documented defaults; an endpoint that was written by the library is read back; the
  port counter does not return to the start of its range.
\<close>

subsection \<open>The transport\<close>

record UdpTransport =
  ut_socket :: bool
  ut_port :: u16
  ut_initialized :: bool
  ut_running :: bool

record udp_os =
  uo_socket :: bool
  uo_setsockopt :: bool
  uo_bind :: "u16 \<Rightarrow> bool"
  uo_getsockname :: "u16 option"

definition DEFAULT_BROADCAST_PORT :: u16 where "DEFAULT_BROADCAST_PORT = 47120"
definition BROADCAST_ADDR :: string where "BROADCAST_ADDR = ''255.255.255.255''"

definition UdpTransport_init :: UdpTransport where
  "UdpTransport_init = \<lparr>ut_socket = False, ut_port = 0, ut_initialized = False, ut_running = False\<rparr>"

definition UdpTransport_initialize :: "udp_os \<Rightarrow> u16 \<Rightarrow> UdpTransport \<Rightarrow> bool \<times> UdpTransport" where
  "UdpTransport_initialize os port u =
     (if ut_initialized u then (True, u)
      else if \<not> uo_socket os then (False, u\<lparr>ut_socket := False\<rparr>)
      else if \<not> uo_setsockopt os then (False, u\<lparr>ut_socket := False\<rparr>)
      else if \<not> uo_bind os port then (False, u\<lparr>ut_socket := False\<rparr>)
      else (True, u\<lparr>ut_socket := True, ut_port := (case uo_getsockname os of Some p \<Rightarrow> p | None \<Rightarrow> port),
                    ut_initialized := True, ut_running := True\<rparr>))"

definition UdpTransport_shutdown :: "UdpTransport \<Rightarrow> UdpTransport" where
  "UdpTransport_shutdown u =
     (if \<not> ut_initialized u then u
      else u\<lparr>ut_running := False, ut_socket := False, ut_initialized := False\<rparr>)"

text \<open>The destination of a message, and whether all of it was sent.\<close>

definition udp_destination :: "string \<Rightarrow> u16 \<Rightarrow> string \<times> u16" where
  "udp_destination dest_addr dest_port =
     (if dest_addr = [] then BROADCAST_ADDR else dest_addr,
      if dest_port = 0 then DEFAULT_BROADCAST_PORT else dest_port)"

definition UdpTransport_send ::
    "(string \<Rightarrow> bool) \<Rightarrow> (bytes \<Rightarrow> string \<times> u16 \<Rightarrow> int) \<Rightarrow> bytes \<Rightarrow> string \<Rightarrow> u16 \<Rightarrow> UdpTransport \<Rightarrow> bool" where
  "UdpTransport_send inet_pton sendto data dest_addr dest_port u =
     (if \<not> ut_initialized u \<or> \<not> ut_socket u \<or> data = [] then False
      else
        let dest = udp_destination dest_addr dest_port in
        if \<not> inet_pton (fst dest) then False
        else sendto data dest = int (length data))"

definition UdpTransport_broadcast ::
    "(string \<Rightarrow> bool) \<Rightarrow> (bytes \<Rightarrow> string \<times> u16 \<Rightarrow> int) \<Rightarrow> bytes \<Rightarrow> UdpTransport \<Rightarrow> bool" where
  "UdpTransport_broadcast inet_pton sendto data u =
     UdpTransport_send inet_pton sendto data BROADCAST_ADDR DEFAULT_BROADCAST_PORT u"

text \<open>
  One round of the receive thread: what \<open>recvfrom\<close> returned, what the callback gets, and whether
  the thread goes on.  An empty datagram is ignored.
\<close>

datatype recv_answer = RECV bytes string | RECV_AGAIN | RECV_ERROR

definition UdpTransport_receive :: "bool \<Rightarrow> recv_answer \<Rightarrow> (bytes \<times> string) option \<times> bool" where
  "UdpTransport_receive has_callback r =
     (case r of
        RECV data from_address \<Rightarrow> (if data \<noteq> [] \<and> has_callback then Some (data, from_address) else None, True)
      | RECV_AGAIN \<Rightarrow> (None, True)
      | RECV_ERROR \<Rightarrow> (None, False))"

subsection \<open>Endpoints\<close>

text \<open>
  An address \<open>ip:port\<close>, split at the first colon; \<open>0.0.0.0\<close> stands for this host.  The port is read
  by \<open>std::stoi\<close> (an exception skips the endpoint) and cast to 16 bits.
\<close>

definition find_char :: "char \<Rightarrow> string \<Rightarrow> nat option" where
  "find_char c s = find_index (\<lambda>x. x = c) s"

definition parse_endpoint :: "string \<Rightarrow> (string \<times> u16) option" where
  "parse_endpoint endpoint =
     (case find_char CHR '':'' endpoint of
        None \<Rightarrow> None
      | Some colon_pos \<Rightarrow>
          if colon_pos = 0 \<or> colon_pos = length endpoint - 1 then None
          else
            let ip_str = take colon_pos endpoint;
                ip = (if ip_str = ''0.0.0.0'' then ''127.0.0.1'' else ip_str)
            in case stoi (drop (colon_pos + 1) endpoint) of
                 None \<Rightarrow> None
               | Some v \<Rightarrow> Some (ip, word_of_int v))"

definition own_endpoint :: "u16 \<Rightarrow> string" where
  "own_endpoint port = ''0.0.0.0:'' @ show_nat (unat port)"

subsection \<open>Choosing a port\<close>

definition PORT_BASE :: u16 where "PORT_BASE = 47200"
definition PORT_MAX :: u16 where "PORT_MAX = 47999"
definition PORT_COUNT :: nat where "PORT_COUNT = 800"

text \<open>
  The static counter \<open>next_port\<close> is shared by the nodes of a process; the model has the value it has
  for the only node that is initialising.  Past the end of the range the code intends to set the
  counter back by a compare-and-exchange that expects \<open>target_port\<close>, but \<open>fetch_add\<close> has already
  stored the next value: the exchange is written out here.
\<close>

definition first_next_port :: "nat \<Rightarrow> u16 \<Rightarrow> u16" where
  "first_next_port clock next_port =
     (if next_port = 0 then PORT_BASE + word_of_nat (clock mod 800) else next_port)"

definition port_attempt :: "u16 \<Rightarrow> u16 \<times> u16" where
  "port_attempt next_port =
     (let target_port = next_port; next_port = next_port + 1 in
      if target_port > PORT_MAX then
        let next_port = (if next_port = target_port then PORT_BASE else next_port)
        in (next_port, next_port + 1)
      else (target_port, next_port))"

fun port_loop :: "nat \<Rightarrow> udp_os \<Rightarrow> u16 \<Rightarrow> UdpTransport \<Rightarrow> bool \<times> u16 list \<times> u16 \<times> UdpTransport" where
  "port_loop 0 os next_port u = (False, [], next_port, u)"
| "port_loop (Suc attempts) os next_port u =
     (case port_attempt next_port of (target_port, next_port1) \<Rightarrow>
        case UdpTransport_initialize os target_port u of (bound, u1) \<Rightarrow>
          if bound then (True, [target_port], next_port1, u1)
          else case port_loop attempts os next_port1 u1 of (bound', tried, next_port2, u2) \<Rightarrow>
                 (bound', target_port # tried, next_port2, u2))"

definition bind_port :: "udp_os \<Rightarrow> nat \<Rightarrow> u16 \<Rightarrow> u16 \<times> UdpTransport \<Rightarrow> bool \<times> u16 \<times> UdpTransport" where
  "bind_port os clock udp_port = (\<lambda>(next_port, u).
     if udp_port = 0 then
       (case port_loop PORT_COUNT os (first_next_port clock next_port) u of (bound, tried, next_port1, u1) \<Rightarrow>
          if bound then (True, next_port1, u1)
          else case UdpTransport_initialize os 0 u1 of (bound', u2) \<Rightarrow> (bound', next_port1, u2))
     else (case UdpTransport_initialize os udp_port u of (bound, u1) \<Rightarrow> (bound, next_port, u1)))"

subsection \<open>Lemmas\<close>

definition udp_ok :: "UdpTransport \<Rightarrow> bool" where
  "udp_ok u \<longleftrightarrow> ut_initialized u = ut_socket u \<and> (ut_running u \<longrightarrow> ut_initialized u)"

lemma udp_ok_initialize:
  "udp_ok u \<Longrightarrow> UdpTransport_initialize os port u = (ok, u') \<Longrightarrow> udp_ok u' \<and> (ok \<longleftrightarrow> ut_initialized u')"
  by (auto simp: UdpTransport_initialize_def udp_ok_def split: if_splits)

lemma udp_ok_shutdown: "udp_ok u \<Longrightarrow> udp_ok (UdpTransport_shutdown u) \<and> \<not> ut_initialized (UdpTransport_shutdown u)"
  by (auto simp: UdpTransport_shutdown_def udp_ok_def)

lemma port_attempt_beyond:
  assumes "PORT_MAX < p" "unat p < 65534"
  shows "port_attempt p = (p + 1, p + 2)" "unat (p + 1) = unat p + 1" "unat (p + 2) = unat p + 2"
proof -
  have "unat (p + 1) = unat p + 1" "unat (p + 2) = unat p + 2"
    using assms(2) by (simp_all add: unat_word_ariths)
  then show "port_attempt p = (p + 1, p + 2)" "unat (p + 1) = unat p + 1" "unat (p + 2) = unat p + 2"
    using assms(1) by (simp_all add: port_attempt_def Let_def add.assoc)
qed

lemma port_attempt_inside: "p \<le> PORT_MAX \<Longrightarrow> port_attempt p = (p, p + 1)"
  by (simp add: port_attempt_def Let_def)

text \<open>
  The ports that \<open>n\<close> attempts try from a counter value, and the counter after them: one by one up to
  the end of the range, then every second port behind it.
\<close>

definition scan_ports :: "nat \<Rightarrow> nat \<Rightarrow> nat list" where
  "scan_ports n p = take n ([p..<48000] @ map (\<lambda>j. max p 48000 + 1 + 2 * j) [0..<n])"

definition scan_counter :: "nat \<Rightarrow> nat \<Rightarrow> nat" where
  "scan_counter n p = (if n \<le> 48000 - p then p + n else max p 48000 + 2 * (n - (48000 - p)))"

definition bindable :: "udp_os \<Rightarrow> u16 \<Rightarrow> bool" where
  "bindable os port \<longleftrightarrow> uo_socket os \<and> uo_setsockopt os \<and> uo_bind os port"

lemma scan_ports_inside:
  assumes "p < 48000" shows "scan_ports (Suc n) p = p # scan_ports n (Suc p)"
proof -
  have up: "[p..<48000] = p # [Suc p..<48000]" using assms by (rule upt_conv_Cons)
  have "take n ([Suc p..<48000] @ map (\<lambda>j. max p 48000 + 1 + 2 * j) [0..<Suc n]) =
        take n ([Suc p..<48000] @ map (\<lambda>j. max (Suc p) 48000 + 1 + 2 * j) [0..<n])"
    using assms by (simp add: max_def)
  then show ?thesis unfolding scan_ports_def up by simp
qed

lemma scan_ports_beyond:
  assumes "48000 \<le> p" shows "scan_ports (Suc n) p = Suc p # scan_ports n (p + 2)"
proof -
  have "map (\<lambda>j. p + 1 + 2 * j) [0..<Suc n] = Suc p # map (\<lambda>j. p + 2 + 1 + 2 * j) [0..<n]"
    by (simp add: upt_conv_Cons map_Suc_upt [symmetric] comp_def del: upt_Suc)
  then show ?thesis using assms by (simp add: scan_ports_def max_def del: upt_Suc)
qed

lemma scan_counter_step:
  "p < 48000 \<Longrightarrow> scan_counter (Suc n) p = scan_counter n (Suc p)"
  "48000 \<le> p \<Longrightarrow> scan_counter (Suc n) p = scan_counter n (p + 2)"
  by (auto simp: scan_counter_def max_def)

lemma UdpTransport_initialize_bindable:
  assumes "\<not> ut_initialized u" "UdpTransport_initialize os port u = (ok, u')"
  shows "ok \<longleftrightarrow> bindable os port" "\<not> ok \<Longrightarrow> \<not> ut_initialized u'"
  using assms by (auto simp: UdpTransport_initialize_def bindable_def split: if_splits)

lemma port_loop_scan:
  fixes p :: u16
  assumes "\<not> ut_initialized u" "unat p + 2 * n < 65536" "port_loop n os p u = (bound, tried, p', u')"
  shows "bound = (\<exists>t \<in> set (map word_of_nat (scan_ports n (unat p))). bindable os t) \<and>
    tried = takeWhile (\<lambda>t. \<not> bindable os t) (map word_of_nat (scan_ports n (unat p))) @ take 1 (dropWhile (\<lambda>t. \<not> bindable os t) (map word_of_nat (scan_ports n (unat p)))) \<and>
    unat p' = scan_counter (length tried) (unat p)"
  using assms
proof (induction n arbitrary: p u tried)
  case 0
  then show ?case by (simp add: scan_ports_def scan_counter_def)
next
  case (Suc n)
  define t where "t = (if unat p < 48000 then unat p else Suc (unat p))"
  define nx where "nx = (if unat p < 48000 then Suc (unat p) else unat p + 2)"
  have max: "p \<le> PORT_MAX \<longleftrightarrow> unat p < 48000" by (auto simp: word_le_nat_alt PORT_MAX_def)
  have att: "port_attempt p = (word_of_nat t, word_of_nat nx)"
  proof (cases "unat p < 48000")
    case True
    have "(word_of_nat (Suc (unat p)) :: u16) = p + 1" by simp
    then show ?thesis using port_attempt_inside [of p] True max by (simp add: t_def nx_def)
  next
    case False
    have "(word_of_nat (Suc (unat p)) :: u16) = p + 1" "(word_of_nat (unat p + 2) :: u16) = p + 2" by simp_all
    then show ?thesis using port_attempt_beyond(1) [of p] False max Suc.prems(2) by (simp add: t_def nx_def)
  qed
  have unat_nx: "unat (word_of_nat nx :: u16) = nx"
    using Suc.prems(2) by (subst unat_of_nat) (simp add: nx_def)
  have ports: "map word_of_nat (scan_ports (Suc n) (unat p)) = word_of_nat t # map word_of_nat (scan_ports n nx)"
    using scan_ports_inside scan_ports_beyond by (simp add: t_def nx_def)
  have counter: "scan_counter (Suc m) (unat p) = scan_counter m nx" for m
    using scan_counter_step by (simp add: nx_def)
  obtain b u1 where i: "UdpTransport_initialize os (word_of_nat t) u = (b, u1)" by fastforce
  note ini = UdpTransport_initialize_bindable [OF Suc.prems(1) i]
  show ?case
  proof (cases b)
    case True
    then show ?thesis using Suc.prems(3) att i ini(1) counter [of 0] unat_nx
      unfolding ports by (auto simp: scan_counter_def)
  next
    case False
    obtain tried1 where r: "port_loop n os (word_of_nat nx) u1 = (bound, tried1, p', u')" "tried = word_of_nat t # tried1"
      using Suc.prems(3) att i False by (auto split: prod.splits)
    have "nx + 2 * n < 65536" using Suc.prems(2) by (simp add: nx_def)
    from Suc.IH [OF ini(2) [OF False] _ r(1)] this show ?thesis
      using ini(1) False r(2) counter unfolding ports unat_nx by auto
  qed
qed

lemma scan_ports_ge: "t \<in> set (scan_ports n p) \<Longrightarrow> p \<le> t \<and> t \<le> max p 48000 + 2 * n"
  unfolding scan_ports_def by (auto dest!: in_set_takeD)

lemma find_char_append:
  "c \<notin> set s \<Longrightarrow> find_char c (s @ c # t) = Some (length s)"
  by (induction s) (auto simp: find_char_def)

lemma parse_own_endpoint: "parse_endpoint (own_endpoint port) = Some (''127.0.0.1'', port)"
proof -
  have "unat port < 2 ^ 16" using unsigned_less [of port] by simp
  then have "stoi (show_nat (unat port)) = Some (int (unat port))" by (intro stoi_show_nat) simp
  moreover have "find_char CHR '':'' (own_endpoint port) = Some 7"
    using find_char_append [of "CHR '':''" "''0.0.0.0''" "show_nat (unat port)"] by (simp add: own_endpoint_def)
  moreover have "length (own_endpoint port) = 8 + length (show_nat (unat port))" by (simp add: own_endpoint_def)
  moreover have "0 < length (show_nat (unat port))" by simp
  ultimately show ?thesis
    by (simp add: parse_endpoint_def Let_def own_endpoint_def)
qed

subsection \<open>Properties\<close>

text \<open>C23: The search for a UDP port, exactly, for a call in which the 16-bit counter does not overflow (it
  starts below 63936, in particular at any port of the range): the ports tried are the counter value
  and the following ones up to 47999, and then every second port from 48001 on, until one can be
  bound; the counter ends behind the last one.  So a port below the start of the search is never
  tried by the call, although the code means to go on at 47200: the compare-and-exchange expects a
  value that \<open>fetch_add\<close> has already replaced.\<close>

theorem udp_port_scan:
  assumes "\<not> ut_initialized u" "unat next_port + 1600 < 65536"
    "port_loop PORT_COUNT os next_port u = (bound, tried, next_port', u')"
  defines "ports \<equiv> map word_of_nat (scan_ports 800 (unat next_port)) :: u16 list"
  shows "bound = (\<exists>t \<in> set ports. bindable os t) \<and>
    tried = takeWhile (\<lambda>t. \<not> bindable os t) ports @ take 1 (dropWhile (\<lambda>t. \<not> bindable os t) ports) \<and>
    unat next_port' = scan_counter (length tried) (unat next_port) \<and>
    (\<forall>t \<in> set tried. next_port \<le> t)"
proof -
  note scan = port_loop_scan [OF assms(1) _ assms(3), unfolded PORT_COUNT_def, folded ports_def]
  have "next_port \<le> t" if t: "t \<in> set ports" for t
  proof -
    obtain x where x: "t = word_of_nat x" "unat next_port \<le> x" "x \<le> max (unat next_port) 48000 + 1600"
      using t scan_ports_ge [of _ 800 "unat next_port"] unfolding ports_def by auto
    then have "unat (word_of_nat x :: u16) = x" using assms(2) by (subst unat_of_nat) (simp add: max_def split: if_splits)
    then show ?thesis using x by (simp add: word_le_nat_alt)
  qed
  moreover have "set tried \<subseteq> set ports" if "tried = takeWhile (\<lambda>t. \<not> bindable os t) ports @ take 1 (dropWhile (\<lambda>t. \<not> bindable os t) ports)"
    using that by (auto dest: set_takeWhileD in_set_takeD set_dropWhileD)
  ultimately show ?thesis using scan assms(2) by auto
qed

theorem udp_port_scan_witness:
  "case port_loop PORT_COUNT \<lparr>uo_socket = True, uo_setsockopt = True, uo_bind = \<lambda>p. p = 48003, uo_getsockname = None\<rparr>
     47999 UdpTransport_init of (bound, tried, next_port', u') \<Rightarrow>
     bound \<and> tried = [47999, 48001, 48003] \<and> next_port' = 48004"
proof -
  let ?os = "\<lparr>uo_socket = True, uo_setsockopt = True, uo_bind = \<lambda>p. p = 48003, uo_getsockname = None\<rparr>"
  obtain bound tried np u' where r: "port_loop PORT_COUNT ?os 47999 UdpTransport_init = (bound, tried, np, u')"
    by (metis prod_cases4)
  have sp: "scan_ports 800 47999 = 47999 # 48001 # 48003 # scan_ports 797 48004"
    using scan_ports_inside [of 47999 799] scan_ports_beyond [of 48000 798] scan_ports_beyond [of 48002 797] by simp
  have "\<not> ut_initialized UdpTransport_init" by (simp add: UdpTransport_init_def)
  from udp_port_scan [OF this _ r] have "bound" "tried = [47999, 48001, 48003]" "unat np = scan_counter (length tried) 47999"
    by (auto simp: sp bindable_def)
  then show ?thesis using r by (simp add: scan_counter_def word_unat_eq_iff)
qed

end
