(* ===== verification/Nexus_Services.thy ===== *)
theory Nexus_Services
  imports Nexus_GlobalRegistry Nexus_Message Nexus_Udp
begin

unbundle bit_operations_syntax

section \<open>Service discovery\<close>

text \<open>
  The parts of \<open>src/core/NodeImpl.cpp\<close> that work on service descriptors and on the registry alone: the
  payload that announces a service (\<open>broadcastServiceUpdate\<close>, \<open>handleServiceMessage\<close>), the choice of
  the receivers of a message (\<open>deliverInterProcess\<close>), the UDP endpoints, the replies to a query, the
  removal of the services of a node that left, and the queries of the public interface.  What a node
  does to its transports and callbacks is a list of \<open>action\<close>s in the order of the calls.

  Shown: the payload codec is a round trip; a message goes exactly once to every remote subscriber;
  a departed node leaves no service behind.
\<close>

subsection \<open>Actions\<close>

type_synonym callback = nat

datatype action =
    SHM_SEND string bytes
  | SHM_BROADCAST bytes
  | SHM_DISCONNECT string
  | UDP_SEND bytes string u16
  | DISCOVERY_CALLBACK callback ServiceEvent ServiceDescriptor
  | OVERFLOW_CALLBACK callback string string u64
  | MESSAGE_CALLBACK callback string string bytes
  | UDP_SHUTDOWN
  | CHANNEL_RELEASE string
  | SHM_DESTROY

subsection \<open>The payload of an announcement\<close>

definition serialize_service :: "ServiceDescriptor \<Rightarrow> bytes" where
  "serialize_service svc =
     (let channel_len = (word_of_nat (length (svc_channel_name svc)) :: u8);
          udp_addr_len = (word_of_nat (length (svc_udp_address svc)) :: u16)
      in [ServiceType_code (svc_type svc), TransportType_code (svc_transport svc), channel_len,
          ucast (udp_addr_len AND 0xFF), ucast (drop_bit 8 udp_addr_len AND 0xFF)] @
         (if channel_len > 0 then str_bytes (svc_channel_name svc) else []) @
         (if udp_addr_len > 0 then str_bytes (svc_udp_address svc) else []))"

definition deserialize_service :: "string \<Rightarrow> string \<Rightarrow> string \<Rightarrow> bytes \<Rightarrow> ServiceDescriptor option" where
  "deserialize_service from_node grp topic payload =
     (if length payload < 5 then None
      else
        let channel_len = unat (payload ! 2);
            udp_addr_len = unat ((ucast (payload ! 3) :: u16) OR push_bit 8 (ucast (payload ! 4)))
        in if length payload < 5 + channel_len + udp_addr_len then None
           else Some (ServiceDescriptor_default
             \<lparr>svc_node_id := from_node, svc_group := grp, svc_topic := topic,
              svc_type := ServiceType_of (payload ! 0), svc_transport := TransportType_of (payload ! 1),
              svc_channel_name := (if channel_len > 0 then bytes_str (mem_read payload 5 channel_len) else []),
              svc_udp_address := (if udp_addr_len > 0 then bytes_str (mem_read payload (5 + channel_len) udp_addr_len) else [])\<rparr>))"

subsection \<open>Receivers of a message\<close>

text \<open>
  The loop of \<open>deliverInterProcess\<close> over the services of the group, with the set of nodes already
  served: the identifiers to send to by shared memory and the addresses to send to by UDP.
\<close>

fun select_targets ::
    "string \<Rightarrow> string list \<Rightarrow> string list \<Rightarrow> string \<Rightarrow> ServiceDescriptor list \<Rightarrow> string list \<Rightarrow>
     string list \<times> (string \<times> u16) list" where
  "select_targets self local_node_ids shm_node_ids topic [] delivered = ([], [])"
| "select_targets self local_node_ids shm_node_ids topic (svc # rest) delivered =
     (let skip = select_targets self local_node_ids shm_node_ids topic rest delivered;
          next = select_targets self local_node_ids shm_node_ids topic rest (svc_node_id svc # delivered)
      in if svc_topic svc \<noteq> topic then skip
         else if svc_type svc \<noteq> NORMAL_MESSAGE then skip
         else if svc_node_id svc = self then skip
         else if svc_node_id svc \<in> set local_node_ids then skip
         else if svc_node_id svc \<in> set delivered then skip
         else if svc_transport svc = SHARED_MEMORY then
           (if svc_node_id svc \<in> set shm_node_ids then (svc_node_id svc # fst next, snd next) else skip)
         else if svc_transport svc = UDP then
           (case parse_endpoint (svc_udp_address svc) of
              None \<Rightarrow> skip
            | Some ep \<Rightarrow> (fst next, ep # snd next))
         else skip)"

text \<open>The set of known UDP endpoints of other nodes, in the order of \<open>std::set\<close>, and a packet to each.\<close>

definition udp_endpoints :: "string \<Rightarrow> ServiceDescriptor list \<Rightarrow> string list" where
  "udp_endpoints self svcs =
     foldl (\<lambda>acc s. if svc_transport s = UDP \<and> svc_node_id s \<noteq> self \<and> svc_udp_address s \<noteq> []
                    then insort_insert (svc_udp_address s) acc else acc) [] svcs"

definition send_to_endpoints :: "bytes \<Rightarrow> string list \<Rightarrow> action list" where
  "send_to_endpoints packet endpoints =
     List.map_filter (\<lambda>e. map_option (\<lambda>(ip, port). UDP_SEND packet ip port) (parse_endpoint e)) endpoints"

subsection \<open>Announcements and replies\<close>

definition service_packet :: "string \<Rightarrow> u16 \<Rightarrow> MessageType \<Rightarrow> ServiceDescriptor \<Rightarrow> bytes" where
  "service_packet self port msg_type svc =
     MessageBuilder_build self (svc_group svc) (svc_topic svc) (serialize_service svc) port msg_type"

definition broadcastServiceUpdate ::
    "string \<Rightarrow> u16 \<Rightarrow> bool \<Rightarrow> bool \<Rightarrow> GlobalRegistry \<Rightarrow> ServiceDescriptor \<Rightarrow> bool \<Rightarrow> action list" where
  "broadcastServiceUpdate self port shm_ready udp_ready g svc is_add =
     (let packet = service_packet self port (if is_add then SERVICE_REGISTER else SERVICE_UNREGISTER) svc
      in (if shm_ready then [SHM_BROADCAST packet] else []) @
         (if udp_ready then send_to_endpoints packet (udp_endpoints self (GlobalRegistry_findServices [] g)) else []))"

text \<open>The reply to a query over shared memory: all services of this node, point to point.\<close>

definition query_replies :: "string \<Rightarrow> u16 \<Rightarrow> bool \<Rightarrow> GlobalRegistry \<Rightarrow> string \<Rightarrow> action list" where
  "query_replies self port shm_ready g from_node =
     (if shm_ready
      then map (\<lambda>svc. SHM_SEND from_node (service_packet self port SERVICE_REGISTER svc))
             (filter (\<lambda>svc. svc_node_id svc = self) (GlobalRegistry_findServices [] g))
      else [])"

text \<open>The reply to a query over UDP: a shared-memory service is announced with this node's UDP address.\<close>

definition udp_response :: "u16 \<Rightarrow> ServiceDescriptor \<Rightarrow> ServiceDescriptor option" where
  "udp_response port svc =
     (if svc_transport svc = UDP then Some svc
      else if svc_transport svc = SHARED_MEMORY
      then Some (svc\<lparr>svc_transport := UDP, svc_udp_address := own_endpoint port\<rparr>)
      else None)"

definition handleQuerySubscriptions ::
    "string \<Rightarrow> u16 \<Rightarrow> bool \<Rightarrow> GlobalRegistry \<Rightarrow> u16 \<Rightarrow> string \<Rightarrow> action list" where
  "handleQuerySubscriptions self port udp_ready g from_port from_addr =
     (if \<not> udp_ready then []
      else if from_port = 0 then []
      else
        let target_ip = (if from_addr = [] \<or> from_addr = ''0.0.0.0'' then ''127.0.0.1'' else from_addr)
        in map (\<lambda>svc. UDP_SEND (service_packet self port SERVICE_REGISTER svc) target_ip from_port)
             (List.map_filter (udp_response port)
                (filter (\<lambda>svc. svc_node_id svc = self) (GlobalRegistry_findServices [] g))))"

definition sendUdpHeartbeat :: "string \<Rightarrow> u16 \<Rightarrow> bool \<Rightarrow> GlobalRegistry \<Rightarrow> action list" where
  "sendUdpHeartbeat self port udp_ready g =
     (if \<not> udp_ready then []
      else send_to_endpoints (MessageBuilder_build self [] [] [] port HEARTBEAT)
             (udp_endpoints self (GlobalRegistry_findServices [] g)))"

definition queryExistingSubscriptions :: "string \<Rightarrow> u16 \<Rightarrow> bool \<Rightarrow> action list" where
  "queryExistingSubscriptions self my_port udp_ready =
     (let packet = MessageBuilder_build_string self [] [] [] my_port QUERY_SUBSCRIPTIONS in
      if \<not> udp_ready then []
      else map (\<lambda>port. UDP_SEND packet ''127.0.0.1'' (word_of_nat port))
             (filter (\<lambda>port. port \<noteq> unat my_port) [unat PORT_BASE..<Suc (unat PORT_MAX)]))"

definition queryRemoteServices :: "string \<Rightarrow> bool \<Rightarrow> action list" where
  "queryRemoteServices self shm_ready =
     (if \<not> shm_ready then [] else [SHM_BROADCAST (MessageBuilder_build self [] [] [] 0 SERVICE_REGISTER)])"

definition broadcastNodeEvent :: "string \<Rightarrow> u16 \<Rightarrow> bool \<Rightarrow> bool \<Rightarrow> action list" where
  "broadcastNodeEvent self port shm_ready is_joined =
     (if \<not> shm_ready then []
      else [SHM_BROADCAST (MessageBuilder_build self [] [] [] port (if is_joined then NODE_JOIN else NODE_LEAVE))])"

subsection \<open>Callbacks and departed nodes\<close>

definition handleServiceUpdate :: "callback option \<Rightarrow> ServiceDescriptor \<Rightarrow> bool \<Rightarrow> action list" where
  "handleServiceUpdate cb svc is_add =
     (case cb of None \<Rightarrow> []
      | Some f \<Rightarrow> [DISCOVERY_CALLBACK f (if is_add then SERVICE_ADDED else SERVICE_REMOVED) svc])"

definition notifyNodeEvent :: "callback option \<Rightarrow> ServiceEvent \<Rightarrow> string \<Rightarrow> action list" where
  "notifyNodeEvent cb event nid =
     (case cb of None \<Rightarrow> []
      | Some f \<Rightarrow> [DISCOVERY_CALLBACK f event (ServiceDescriptor_default\<lparr>svc_node_id := nid, svc_type := ST_ALL\<rparr>)])"

definition remove_service :: "ServiceDescriptor \<Rightarrow> GlobalRegistry \<Rightarrow> GlobalRegistry" where
  "remove_service svc g = GlobalRegistry_unregisterService (svc_group svc) svc g"

definition purge_node_services :: "string \<Rightarrow> GlobalRegistry \<Rightarrow> GlobalRegistry" where
  "purge_node_services from_node g =
     fold remove_service (filter (\<lambda>svc. svc_node_id svc = from_node) (GlobalRegistry_findServices [] g)) g"

text \<open>What \<open>checkUdpTimeouts\<close> does for one node: its UDP services are removed and reported.\<close>

definition purge_udp_services :: "callback option \<Rightarrow> string \<Rightarrow> GlobalRegistry \<Rightarrow> GlobalRegistry \<times> action list" where
  "purge_udp_services cb nid g =
     (let svcs = filter (\<lambda>svc. svc_node_id svc = nid \<and> svc_transport svc = UDP) (GlobalRegistry_findServices [] g)
      in (fold remove_service svcs g,
          concat (map (\<lambda>svc. handleServiceUpdate cb svc False) svcs) @ notifyNodeEvent cb NODE_LEFT nid))"

subsection \<open>Queries\<close>

definition discoverServices :: "string \<Rightarrow> ServiceType \<Rightarrow> GlobalRegistry \<Rightarrow> ServiceDescriptor list" where
  "discoverServices grp type g =
     filter (\<lambda>svc. \<not> (type \<noteq> ST_ALL \<and> svc_type svc \<noteq> type)) (GlobalRegistry_findServices grp g)"

definition findNodesByCapability :: "string \<Rightarrow> GlobalRegistry \<Rightarrow> string list" where
  "findNodesByCapability capability g =
     foldl (\<lambda>result svc. if getCapability svc = capability \<and> svc_node_id svc \<notin> set result
                         then result @ [svc_node_id svc] else result)
       [] (GlobalRegistry_findServices [] g)"

definition findLargeDataChannels :: "string \<Rightarrow> GlobalRegistry \<Rightarrow> ServiceDescriptor list" where
  "findLargeDataChannels grp g = discoverServices grp LARGE_DATA g"

subsection \<open>Lemmas\<close>

lemma remove_service_eq: "remove_service = (\<lambda>s. GlobalRegistry_unregisterService (svc_group s) s)"
  by (simp add: fun_eq_iff remove_service_def)

lemma registry_ok_remove_services: "registry_ok g \<Longrightarrow> registry_ok (fold remove_service svcs g)"
  unfolding remove_service_eq by (rule svc_dir.remove_all_ok)

lemma listing_remove_services:
  "registry_ok g \<Longrightarrow> GlobalRegistry_findServices [] (fold remove_service svcs g) =
     filter (\<lambda>t. \<forall>s \<in> set svcs. \<not> same_subscription t s) (GlobalRegistry_findServices [] g)"
  unfolding remove_service_eq by (rule svc_dir.listing_remove_all)

lemma listing_purge_node:
  "registry_ok g \<Longrightarrow> GlobalRegistry_findServices [] (purge_node_services nid g) =
     filter (\<lambda>t. svc_node_id t \<noteq> nid) (GlobalRegistry_findServices [] g)"
  unfolding purge_node_services_def remove_service_eq by (rule svc_dir.purge_node)

text \<open>A descriptor whose enumeration values are in their normal form: no raw byte that names an enumerator.\<close>

definition service_canonical :: "ServiceDescriptor \<Rightarrow> bool" where
  "service_canonical svc \<longleftrightarrow>
     ServiceType_of (ServiceType_code (svc_type svc)) = svc_type svc \<and>
     TransportType_of (TransportType_code (svc_transport svc)) = svc_transport svc"

lemma u16_split_bytes:
  fixes w :: u16
  shows "(ucast (ucast (w AND 0xFF) :: u8) :: u16) OR push_bit 8 (ucast (ucast (drop_bit 8 w AND 0xFF) :: u8)) = w"
proof -
  have ff: "(0xFF :: u16) = mask 8" by (simp add: mask_eq_exp_minus_1)
  show ?thesis
    unfolding ff by (rule bit_eqI) (auto simp: bit_simps dest: bit_imp_le_length)
qed

lemma deserialize_serialize:
  assumes "service_canonical svc" "length (svc_channel_name svc) < 256" "length (svc_udp_address svc) < 65536"
  shows "deserialize_service (svc_node_id svc) (svc_group svc) (svc_topic svc) (serialize_service svc) = Some svc"
proof -
  let ?c = "word_of_nat (length (svc_channel_name svc)) :: u8" and ?a = "word_of_nat (length (svc_udp_address svc)) :: u16"
  have c: "unat ?c = length (svc_channel_name svc)" using assms(2) by (subst unat_of_nat) simp
  have a: "unat ?a = length (svc_udp_address svc)" using assms(3) by (subst unat_of_nat) simp
  have pos: "0 < ?c \<longleftrightarrow> svc_channel_name svc \<noteq> []" "0 < ?a \<longleftrightarrow> svc_udp_address svc \<noteq> []"
    using c a by (simp_all add: word_less_nat_alt)
  define hd5 where "hd5 = [ServiceType_code (svc_type svc), TransportType_code (svc_transport svc), ?c,
      ucast (?a AND 0xFF), ucast (drop_bit 8 ?a AND 0xFF) :: u8]"
  have ser: "serialize_service svc = hd5 @ str_bytes (svc_channel_name svc) @ str_bytes (svc_udp_address svc)"
    using pos by (auto simp: serialize_service_def Let_def hd5_def)
  have len5: "length hd5 = 5" by (simp add: hd5_def)
  have heads: "serialize_service svc ! 0 = ServiceType_code (svc_type svc)"
    "serialize_service svc ! 1 = TransportType_code (svc_transport svc)" "serialize_service svc ! 2 = ?c"
    "serialize_service svc ! 3 = ucast (?a AND 0xFF)" "serialize_service svc ! 4 = ucast (drop_bit 8 ?a AND 0xFF)"
    unfolding ser by (simp_all add: hd5_def)
  have parts: "mem_read (serialize_service svc) 5 (length (svc_channel_name svc)) = str_bytes (svc_channel_name svc)"
    "mem_read (serialize_service svc) (5 + length (svc_channel_name svc)) (length (svc_udp_address svc)) =
       str_bytes (svc_udp_address svc)"
    unfolding ser using len5 by (simp_all add: mem_read_def)
  have len: "length (serialize_service svc) = 5 + length (svc_channel_name svc) + length (svc_udp_address svc)"
    unfolding ser using len5 by simp
  show ?thesis
    using assms(1) unfolding deserialize_service_def heads u16_split_bytes c a Let_def parts
    by (simp add: len service_canonical_def ServiceDescriptor_default_def)
qed

text \<open>The subscribers a message is meant for, by transport.\<close>

definition wants_message :: "string \<Rightarrow> string list \<Rightarrow> string \<Rightarrow> ServiceDescriptor \<Rightarrow> bool" where
  "wants_message self local_node_ids topic svc \<longleftrightarrow>
     svc_topic svc = topic \<and> svc_type svc = NORMAL_MESSAGE \<and> svc_node_id svc \<noteq> self \<and>
     svc_node_id svc \<notin> set local_node_ids"

definition shm_target :: "string \<Rightarrow> string list \<Rightarrow> string list \<Rightarrow> string \<Rightarrow> ServiceDescriptor \<Rightarrow> bool" where
  "shm_target self local_node_ids shm_node_ids topic svc \<longleftrightarrow>
     wants_message self local_node_ids topic svc \<and> svc_transport svc = SHARED_MEMORY \<and> svc_node_id svc \<in> set shm_node_ids"

definition udp_target :: "string \<Rightarrow> string list \<Rightarrow> string \<Rightarrow> ServiceDescriptor \<Rightarrow> bool" where
  "udp_target self local_node_ids topic svc \<longleftrightarrow>
     wants_message self local_node_ids topic svc \<and> svc_transport svc = UDP \<and> parse_endpoint (svc_udp_address svc) \<noteq> None"

lemma same_service_normal:
  "svc_type s = NORMAL_MESSAGE \<Longrightarrow> svc_type t = NORMAL_MESSAGE \<Longrightarrow> svc_group s = svc_group t \<Longrightarrow>
   svc_topic s = svc_topic t \<Longrightarrow> svc_node_id s = svc_node_id t \<Longrightarrow> same_service s t"
  by (simp add: same_service_def getCapability_def)

lemma select_targets_exact:
  assumes "sorted_wrt (\<lambda>s t. \<not> same_service s t) svcs" "\<forall>s \<in> set svcs. svc_group s = grp"
    "\<forall>s \<in> set svcs. wants_message self loc topic s \<longrightarrow> svc_node_id s \<notin> set delivered"
  shows "select_targets self loc shm topic svcs delivered =
    (map svc_node_id (filter (shm_target self loc shm topic) svcs),
     map (\<lambda>s. the (parse_endpoint (svc_udp_address s))) (filter (udp_target self loc topic) svcs))"
  using assms
proof (induction svcs arbitrary: delivered)
  case (Cons svc rest)
  have fresh: "\<forall>s \<in> set rest. wants_message self loc topic s \<longrightarrow> svc_node_id s \<notin> set (svc_node_id svc # delivered)"
    if "wants_message self loc topic svc"
    using Cons.prems that same_service_normal [of svc] by (auto simp: wants_message_def)
  have skip: "select_targets self loc shm topic rest delivered =
    (map svc_node_id (filter (shm_target self loc shm topic) rest),
     map (\<lambda>s. the (parse_endpoint (svc_udp_address s))) (filter (udp_target self loc topic) rest))"
    using Cons by simp
  show ?case
  proof (cases "wants_message self loc topic svc")
    case True
    have new: "select_targets self loc shm topic rest (svc_node_id svc # delivered) =
      (map svc_node_id (filter (shm_target self loc shm topic) rest),
       map (\<lambda>s. the (parse_endpoint (svc_udp_address s))) (filter (udp_target self loc topic) rest))"
      using Cons.IH [OF _ _ fresh [OF True]] Cons.prems by simp
    have "svc_node_id svc \<notin> set delivered" using Cons.prems(3) True by simp
    then show ?thesis
      using True skip new
      by (auto simp: wants_message_def [of _ _ _ svc] shm_target_def [of _ _ _ _ svc] udp_target_def [of _ _ _ svc]
          Let_def split: option.splits)
  next
    case False
    then show ?thesis
      using skip by (auto simp: wants_message_def [of _ _ _ svc] shm_target_def [of _ _ _ _ svc] udp_target_def [of _ _ _ svc] Let_def)
  qed
qed simp

lemma shm_targets_distinct:
  assumes "sorted_wrt (\<lambda>s t. \<not> same_service s t) svcs" "\<forall>s \<in> set svcs. svc_group s = grp"
  shows "distinct (map svc_node_id (filter (wants_message self loc topic) svcs))"
  using assms
proof (induction svcs)
  case (Cons svc rest)
  then show ?case
    using same_service_normal [of svc] by (auto simp: wants_message_def)
qed simp

lemma findServices_group:
  assumes "registry_ok g" "grp \<noteq> []"
  shows "sorted_wrt (\<lambda>s t. \<not> same_service s t) (GlobalRegistry_findServices grp g)"
    "\<forall>s \<in> set (GlobalRegistry_findServices grp g). svc_group s = grp"
  using assms(2) group_ok_lookup [OF assms(1), of grp]
  by (cases "om_lookup (gr_services g) grp"; simp add: GlobalRegistry_findServices_def group_ok_def list_all_iff)+

subsection \<open>Properties\<close>

text \<open>Announcing a service is a round trip: a receiver decodes from the payload exactly the descriptor
  that was announced, if the channel name is shorter than 256 and the UDP address shorter than 65536
  characters (their lengths travel in one and two bytes).\<close>

theorem service_payload_roundtrip:
  assumes "service_canonical svc" "length (svc_channel_name svc) < 256" "length (svc_udp_address svc) < 65536"
  shows "deserialize_service (svc_node_id svc) (svc_group svc) (svc_topic svc) (serialize_service svc) = Some svc"
  using assms by (rule deserialize_serialize)

theorem service_payload_roundtrip_witness:
  "let svc = ServiceDescriptor_default\<lparr>svc_node_id := ''n'', svc_group := ''g'', svc_topic := ''t'',
               svc_channel_name := ''ch'', svc_transport := UDP, svc_udp_address := ''0.0.0.0:47200''\<rparr>
   in deserialize_service ''n'' ''g'' ''t'' (serialize_service svc) = Some svc"
  using service_payload_roundtrip [of "ServiceDescriptor_default\<lparr>svc_node_id := ''n'', svc_group := ''g'', svc_topic := ''t'',
               svc_channel_name := ''ch'', svc_transport := UDP, svc_udp_address := ''0.0.0.0:47200''\<rparr>"]
  by (simp add: service_canonical_def ServiceDescriptor_default_def ServiceType_of_def TransportType_of_def)

text \<open>A published message goes exactly once to every subscriber in another process: the receivers are
  the nodes with a normal service for the group and topic that are neither this node nor in this
  process, by shared memory if they are registered there, by UDP if their address can be read; no node
  is served twice.\<close>

theorem deliver_targets_exact:
  assumes "registry_ok g" "grp \<noteq> []"
  defines "svcs \<equiv> GlobalRegistry_findServices grp g"
  shows "select_targets self loc shm topic svcs [] =
      (map svc_node_id (filter (shm_target self loc shm topic) svcs),
       map (\<lambda>s. the (parse_endpoint (svc_udp_address s))) (filter (udp_target self loc topic) svcs)) \<and>
    distinct (map svc_node_id (filter (wants_message self loc topic) svcs))"
  unfolding svcs_def
  using select_targets_exact [OF findServices_group [OF assms(1,2)]] shm_targets_distinct [OF findServices_group [OF assms(1,2)]]
  by simp

theorem deliver_targets_exact_witness:
  "select_targets ''me'' [] [''n''] ''t'' (GlobalRegistry_findServices ''g''
     (GlobalRegistry_registerService ''g'' (ServiceDescriptor_default\<lparr>svc_node_id := ''n'', svc_group := ''g'', svc_topic := ''t'',
        svc_transport := SHARED_MEMORY\<rparr>) GlobalRegistry_init)) [] = ([''n''], [])"
proof -
  let ?svc = "ServiceDescriptor_default\<lparr>svc_node_id := ''n'', svc_group := ''g'', svc_topic := ''t'', svc_transport := SHARED_MEMORY\<rparr>"
  let ?g = "GlobalRegistry_registerService ''g'' ?svc GlobalRegistry_init"
  have ok: "registry_ok ?g" by (simp add: registry_ok_registerService registry_ok_init)
  have "GlobalRegistry_findServices ''g'' ?g = [?svc]"
    by (simp add: GlobalRegistry_findServices_def GlobalRegistry_registerService_def GlobalRegistry_init_def om_lookup_def)
  then show ?thesis
    using deliver_targets_exact [OF ok, of "''g''" "''me''" "[]" "[''n'']" "''t''"]
    by (simp add: shm_target_def udp_target_def wants_message_def ServiceDescriptor_default_def)
qed

end
