(* ===== verification/Nexus_RingBuffer.thy ===== *)
theory Nexus_RingBuffer
  imports Nexus_Prelude
begin

unbundle bit_operations_syntax

section \<open>LockFreeRingBuffer: the variable-length SPSC ring\<close>

text \<open>
  Model of \<open>include/nexus/transport/LockFreeQueue.h\<close>.  The ring is a byte array with a
  write position \<open>rb_head\<close> and a read position \<open>rb_tail\<close>; a message lies in it as an
  8-byte frame header (length and magic, little-endian) followed by its payload, padded to
  8 bytes.  A message that does not fit behind the write position goes to offset 0, and a
  padding header marks the rest of the buffer.  The template parameter \<open>BUFFER_SIZE\<close> is
  the length of \<open>rb_buffer\<close>.  Positions never exceed it, so they are natural numbers; the
  statistics are 64-bit counters that wrap.

  The lemmas show that the ring refines a FIFO list of messages (\<open>ring_rep\<close>), operation by
  operation and, through the locale \<open>fifo_queue\<close>, for every sequence of operations.  The
  refinement has one side condition, \<open>ring_safe\<close>: a write that wraps must not start with the
  write position exactly at the end of the buffer.  Without it the consumer reads behind the
  buffer, as \<open>Ring_exact_fill_overread\<close> shows.
\<close>

subsection \<open>The FIFO contract\<close>

text \<open>
  What a client of a bounded queue relies on.  \<open>rep q xs\<close> says that \<open>q\<close> holds exactly the
  messages \<open>xs\<close>, oldest first.
\<close>

datatype 'm queue_op = Put 'm | Get

fun run_queue :: "('q \<Rightarrow> 'm \<Rightarrow> bool \<times> 'q) \<Rightarrow> ('q \<Rightarrow> 'm option \<times> 'q) \<Rightarrow> 'm queue_op list \<Rightarrow> 'q
    \<Rightarrow> 'm list \<times> 'm list \<times> 'q" where
  "run_queue put get [] q = ([], [], q)"
| "run_queue put get (Put m # ops) q =
     (case put q m of (ok, q1) \<Rightarrow>
        case run_queue put get ops q1 of (acc, rcv, q2) \<Rightarrow> (if ok then m # acc else acc, rcv, q2))"
| "run_queue put get (Get # ops) q =
     (case get q of (r, q1) \<Rightarrow>
        case run_queue put get ops q1 of (acc, rcv, q2) \<Rightarrow>
          (acc, case r of None \<Rightarrow> rcv | Some m \<Rightarrow> m # rcv, q2))"

fun run_safe :: "('q \<Rightarrow> 'm \<Rightarrow> bool) \<Rightarrow> ('q \<Rightarrow> 'm \<Rightarrow> bool \<times> 'q) \<Rightarrow> ('q \<Rightarrow> 'm option \<times> 'q)
    \<Rightarrow> 'm queue_op list \<Rightarrow> 'q \<Rightarrow> bool" where
  "run_safe safe put get [] q = True"
| "run_safe safe put get (Put m # ops) q =
     (safe q m \<and> run_safe safe put get ops (snd (put q m)))"
| "run_safe safe put get (Get # ops) q = run_safe safe put get ops (snd (get q))"

locale fifo_queue =
  fixes put :: "'q \<Rightarrow> 'm \<Rightarrow> bool \<times> 'q"
    and get :: "'q \<Rightarrow> 'm option \<times> 'q"
    and rep :: "'q \<Rightarrow> 'm list \<Rightarrow> bool"
    and safe :: "'q \<Rightarrow> 'm \<Rightarrow> bool"
  assumes put_accept: "rep q xs \<Longrightarrow> safe q m \<Longrightarrow> put q m = (True, q') \<Longrightarrow> rep q' (xs @ [m])"
    and put_reject: "rep q xs \<Longrightarrow> put q m = (False, q') \<Longrightarrow> rep q' xs"
    and get_nil: "rep q [] \<Longrightarrow> \<exists>q'. get q = (None, q') \<and> rep q' []"
    and get_cons: "rep q (x # xs) \<Longrightarrow> \<exists>q'. get q = (Some x, q') \<and> rep q' xs"
begin

lemma get_rep: "rep q xs \<Longrightarrow> get q = (r, q') \<Longrightarrow>
    r = (case xs of [] \<Rightarrow> None | x # _ \<Rightarrow> Some x) \<and> rep q' (tl xs)"
  using get_nil [of q] get_cons [of q] by (cases xs) fastforce+

lemma run_fifo:
  "rep q xs \<Longrightarrow> run_safe safe put get ops q \<Longrightarrow> run_queue put get ops q = (acc, rcv, q') \<Longrightarrow>
   \<exists>ys. rep q' ys \<and> xs @ acc = rcv @ ys"
proof (induction ops arbitrary: q xs acc rcv)
  case Nil
  then show ?case by auto
next
  case (Cons op ops)
  show ?case
  proof (cases op)
    case (Put m)
    obtain ok q1 where p: "put q m = (ok, q1)" by fastforce
    obtain acc' where r: "run_queue put get ops q1 = (acc', rcv, q')"
      and acc: "acc = (if ok then m # acc' else acc')"
      using Cons.prems(3) Put p by (auto split: prod.splits)
    have "rep q1 (if ok then xs @ [m] else xs)"
      using Cons.prems Put p by (cases ok) (auto intro: put_accept put_reject)
    from Cons.IH [OF this _ r] show ?thesis
      using Cons.prems(2) Put p acc by (cases ok) auto
  next
    case Get
    obtain res q1 where g: "get q = (res, q1)" by fastforce
    obtain rcv' where r: "run_queue put get ops q1 = (acc, rcv', q')"
      and rcv: "rcv = (case res of None \<Rightarrow> rcv' | Some m \<Rightarrow> m # rcv')"
      using Cons.prems(3) Get g by (auto split: prod.splits)
    have "rep q1 (tl xs)" "res = (case xs of [] \<Rightarrow> None | x # _ \<Rightarrow> Some x)"
      using get_rep [OF Cons.prems(1) g] by auto
    moreover have "run_safe safe put get ops q1" using Cons.prems(2) Get g by simp
    ultimately show ?thesis using Cons.IH [OF _ _ r, of "tl xs"] rcv by (cases xs) auto
  qed
qed

end

subsection \<open>State and operations\<close>

record ring =
  rb_head :: nat
  rb_tail :: nat
  stats_messages_written :: u64
  stats_messages_read :: u64
  stats_messages_dropped :: u64
  rb_buffer :: bytes

definition MAX_MSG_SIZE :: nat where "MAX_MSG_SIZE = 2040"
definition MAGIC_VALID :: u32 where "MAGIC_VALID = 0xCAFEBABE"
definition MAGIC_PADDING :: u32 where "MAGIC_PADDING = 0xDEADBEEF"

abbreviation BUFFER_SIZE :: "ring \<Rightarrow> nat" where
  "BUFFER_SIZE rb \<equiv> length (rb_buffer rb)"

record FrameHeader =
  fh_length :: u32
  fh_magic :: u32

definition FrameHeader_bytes :: "FrameHeader \<Rightarrow> bytes" where
  "FrameHeader_bytes h = word_to_le 4 (fh_length h) @ word_to_le 4 (fh_magic h)"

definition FrameHeader_of_bytes :: "bytes \<Rightarrow> FrameHeader" where
  "FrameHeader_of_bytes bs =
     \<lparr>fh_length = le_to_word (take 4 bs), fh_magic = le_to_word (take 4 (drop 4 bs))\<rparr>"

text \<open>The constructor: positions and statistics zero, the buffer cleared.\<close>

definition LockFreeRingBuffer :: "nat \<Rightarrow> ring" where
  "LockFreeRingBuffer buffer_size =
     \<lparr>rb_head = 0, rb_tail = 0, stats_messages_written = 0, stats_messages_read = 0,
      stats_messages_dropped = 0, rb_buffer = replicate buffer_size 0\<rparr>"

text \<open>\<open>(sizeof(FrameHeader) + size + 7) & ~7\<close>, on the machine's 64-bit \<open>size_t\<close>.\<close>

definition frame_size :: "nat \<Rightarrow> nat" where
  "frame_size n = unat ((word_of_nat (8 + n + 7) :: u64) AND NOT 7)"

definition writeFrame :: "ring \<Rightarrow> nat \<Rightarrow> bytes \<Rightarrow> nat \<Rightarrow> u32 \<Rightarrow> ring" where
  "writeFrame rb offset data total_len magic =
     (let hdr = \<lparr>fh_length = (if magic = MAGIC_VALID then word_of_nat (length data)
                              else word_of_nat total_len),
                 fh_magic = magic\<rparr>;
          buf1 = mem_write (rb_buffer rb) offset (FrameHeader_bytes hdr)
      in rb\<lparr>rb_buffer := mem_write buf1 (offset + 8) data\<rparr>)"

definition Ring_publish :: "ring \<Rightarrow> nat \<Rightarrow> ring" where
  "Ring_publish rb new_head =
     rb\<lparr>rb_head := new_head, stats_messages_written := stats_messages_written rb + 1\<rparr>"

definition Ring_tryWrite :: "ring \<Rightarrow> bytes \<Rightarrow> bool \<times> ring" where
  "Ring_tryWrite rb data =
     (let size = length data in
      if size > MAX_MSG_SIZE \<or> size = 0 then (False, rb)
      else
        let needed = frame_size size; head = rb_head rb; tail = rb_tail rb;
            full = (False, rb\<lparr>stats_messages_dropped := stats_messages_dropped rb + 1\<rparr>)
        in
          if head \<ge> tail then
            if head + needed \<le> BUFFER_SIZE rb then
              (True, Ring_publish (writeFrame rb head data needed MAGIC_VALID) (head + needed))
            else if needed < tail then
              let pad_len = BUFFER_SIZE rb - head;
                  rb1 = (if pad_len \<ge> 8
                         then rb\<lparr>rb_buffer := mem_write (rb_buffer rb) head
                                (FrameHeader_bytes \<lparr>fh_length = word_of_nat pad_len,
                                                    fh_magic = MAGIC_PADDING\<rparr>)\<rparr>
                         else rb)
              in (True, Ring_publish (writeFrame rb1 0 data needed MAGIC_VALID) needed)
            else full
          else if head + needed < tail then
            (True, Ring_publish (writeFrame rb head data needed MAGIC_VALID) (head + needed))
          else full)"

text \<open>
  A read either finds the ring empty, finds a header it does not accept, delivers a message,
  or copies from behind the end of \<open>buffer_\<close> (undefined behaviour in C++; the outcome
  \<open>RD_OVERREAD\<close> of the model).
\<close>

datatype read_outcome = RD_EMPTY | RD_CORRUPT | RD_OVERREAD | RD_MSG bytes

definition Ring_readFrame :: "ring \<Rightarrow> nat \<Rightarrow> FrameHeader \<Rightarrow> read_outcome \<times> ring" where
  "Ring_readFrame rb tail header =
     (if fh_magic header \<noteq> MAGIC_VALID then (RD_CORRUPT, rb)
      else
        let payload_len = unat (fh_length header) in
        if payload_len > MAX_MSG_SIZE then (RD_CORRUPT, rb)
        else
          let total_len = frame_size payload_len in
          if tail + 8 + payload_len > BUFFER_SIZE rb then (RD_OVERREAD, rb)
          else (RD_MSG (mem_read (rb_buffer rb) (tail + 8) payload_len),
                rb\<lparr>rb_tail := tail + total_len,
                   stats_messages_read := stats_messages_read rb + 1\<rparr>))"

definition Ring_tryRead :: "ring \<Rightarrow> read_outcome \<times> ring" where
  "Ring_tryRead rb =
     (let tail = rb_tail rb; head = rb_head rb in
      if tail = head then (RD_EMPTY, rb)
      else if tail + 8 > BUFFER_SIZE rb then (RD_OVERREAD, rb)
      else
        let header = FrameHeader_of_bytes (mem_read (rb_buffer rb) tail 8) in
        if fh_magic header = MAGIC_PADDING then
          let rb1 = rb\<lparr>rb_tail := 0\<rparr> in
          if 0 = head then (RD_EMPTY, rb1)
          else if 8 > BUFFER_SIZE rb then (RD_OVERREAD, rb1)
          else Ring_readFrame rb1 0 (FrameHeader_of_bytes (mem_read (rb_buffer rb) 0 8))
        else Ring_readFrame rb tail header)"

definition Ring_size :: "ring \<Rightarrow> nat" where
  "Ring_size rb =
     (if rb_head rb \<ge> rb_tail rb then rb_head rb - rb_tail rb
      else BUFFER_SIZE rb - (rb_tail rb - rb_head rb))"

definition Ring_empty :: "ring \<Rightarrow> bool" where
  "Ring_empty rb \<longleftrightarrow> rb_head rb = rb_tail rb"

record RingStats =
  rs_messages_written :: u64
  rs_messages_read :: u64
  rs_messages_dropped :: u64
  rs_current_size :: nat

definition Ring_getStats :: "ring \<Rightarrow> RingStats" where
  "Ring_getStats rb =
     \<lparr>rs_messages_written = stats_messages_written rb, rs_messages_read = stats_messages_read rb,
      rs_messages_dropped = stats_messages_dropped rb, rs_current_size = Ring_size rb\<rparr>"

text \<open>The consumer's view: \<open>tryRead\<close> returns \<open>true\<close> with a message or \<open>false\<close>.\<close>

definition Ring_receive :: "ring \<Rightarrow> bytes option \<times> ring" where
  "Ring_receive rb = (case Ring_tryRead rb of (r, rb') \<Rightarrow>
     ((case r of RD_MSG m \<Rightarrow> Some m | _ \<Rightarrow> None), rb'))"

subsection \<open>Frames\<close>

lemma frame_size_eq:
  assumes "n + 15 < 2 ^ 64" shows "frame_size n = 8 * ((n + 15) div 8)"
proof -
  let ?w = "word_of_nat (n + 15) :: u64"
  have "?w AND NOT 7 = push_bit 3 (drop_bit 3 ?w)"
  proof (rule bit_eqI)
    fix i
    have "bit (7 :: u64) i \<longleftrightarrow> i < 3"
      using bit_mask_iff [where 'a = u64, of 3 i] by (auto simp: mask_eq_exp_minus_1 dest: bit_imp_le_length)
    then show "bit (?w AND NOT 7) i \<longleftrightarrow> bit (push_bit 3 (drop_bit 3 ?w)) i"
      by (auto simp: bit_simps dest: bit_imp_le_length)
  qed
  then have "frame_size n = unat (push_bit 3 (drop_bit 3 ?w))"
    by (simp add: frame_size_def add.assoc add.commute)
  also have "\<dots> = take_bit 64 (push_bit 3 (drop_bit 3 (unat ?w)))"
  proof -
    have "unat w < 2 ^ 64" for w :: u64 using unsigned_less [of w] by simp
    then have "take_bit 64 (unat w) = unat w" for w :: u64
      by (simp only: take_bit_nat_eq_self)
    then show ?thesis by (simp add: unsigned_push_bit_eq unsigned_drop_bit_eq del: of_nat_add)
  qed
  also have "unat ?w = n + 15" using assms by (subst unat_of_nat) simp
  finally have "frame_size n = take_bit 64 (8 * ((n + 15) div 8))"
    by (simp add: push_bit_eq_mult drop_bit_eq_div mult.commute)
  moreover have "8 * ((n + 15) div 8) < 2 ^ 64" using assms by linarith
  ultimately show ?thesis by (simp add: take_bit_nat_eq_self)
qed

lemma frame_size_bounds:
  assumes "n \<le> MAX_MSG_SIZE"
  shows "8 dvd frame_size n" "8 + n \<le> frame_size n" "frame_size n < 16 + n" "0 < frame_size n"
  using assms by (auto simp: frame_size_eq MAX_MSG_SIZE_def)

lemma length_FrameHeader_bytes [simp]: "length (FrameHeader_bytes h) = 8"
  by (simp add: FrameHeader_bytes_def)

lemma FrameHeader_roundtrip [simp]: "FrameHeader_of_bytes (FrameHeader_bytes h) = h"
  by (simp add: FrameHeader_of_bytes_def FrameHeader_bytes_def)

lemma MAGIC_distinct [simp]: "MAGIC_VALID \<noteq> MAGIC_PADDING" "MAGIC_PADDING \<noteq> MAGIC_VALID"
  by (simp_all add: MAGIC_VALID_def MAGIC_PADDING_def)

text \<open>
  \<open>frame_at buf p m\<close>: the frame of message \<open>m\<close> starts at offset \<open>p\<close>.
  \<open>frames buf p ms q\<close>: the frames of \<open>ms\<close> lie one after the other from \<open>p\<close> up to \<open>q\<close>.
  \<open>pad_at buf p\<close>: a padding header at \<open>p\<close> sends the reader back to offset 0.
\<close>

definition frame_at :: "bytes \<Rightarrow> nat \<Rightarrow> bytes \<Rightarrow> bool" where
  "frame_at buf p m \<longleftrightarrow>
     0 < length m \<and> length m \<le> MAX_MSG_SIZE \<and> p + frame_size (length m) \<le> length buf \<and>
     mem_read buf p 8 = FrameHeader_bytes \<lparr>fh_length = word_of_nat (length m), fh_magic = MAGIC_VALID\<rparr> \<and>
     mem_read buf (p + 8) (length m) = m"

fun frames :: "bytes \<Rightarrow> nat \<Rightarrow> bytes list \<Rightarrow> nat \<Rightarrow> bool" where
  "frames buf p [] q = (p = q)"
| "frames buf p (m # ms) q = (frame_at buf p m \<and> frames buf (p + frame_size (length m)) ms q)"

definition pad_at :: "bytes \<Rightarrow> nat \<Rightarrow> bool" where
  "pad_at buf p \<longleftrightarrow> p + 8 \<le> length buf \<and>
     fh_magic (FrameHeader_of_bytes (mem_read buf p 8)) = MAGIC_PADDING"

definition ring_ok :: "ring \<Rightarrow> bool" where
  "ring_ok rb \<longleftrightarrow> 8 dvd BUFFER_SIZE rb \<and> 8 dvd rb_head rb \<and> 8 dvd rb_tail rb \<and>
     rb_head rb \<le> BUFFER_SIZE rb \<and> rb_tail rb \<le> BUFFER_SIZE rb"

text \<open>
  The ring holds the messages \<open>q\<close>: in one run of frames when the positions have not wrapped,
  in two runs with a padding header after the first when they have.
\<close>

definition ring_rep :: "ring \<Rightarrow> bytes list \<Rightarrow> bool" where
  "ring_rep rb q \<longleftrightarrow> ring_ok rb \<and>
     (if rb_tail rb \<le> rb_head rb then frames (rb_buffer rb) (rb_tail rb) q (rb_head rb)
      else \<exists>q1 q2 e. q = q1 @ q2 \<and> frames (rb_buffer rb) (rb_tail rb) q1 e \<and> pad_at (rb_buffer rb) e \<and>
             frames (rb_buffer rb) 0 q2 (rb_head rb) \<and> 0 < rb_head rb)"

text \<open>
  The writes that keep the ring consistent: all but the one that wraps while the write
  position is exactly \<open>BUFFER_SIZE\<close>, where no padding header can be written.
\<close>

definition ring_safe :: "ring \<Rightarrow> bytes \<Rightarrow> bool" where
  "ring_safe rb m \<longleftrightarrow> \<not> (rb_head rb = BUFFER_SIZE rb \<and> frame_size (length m) < rb_tail rb)"

lemma frames_le: "frames buf p ms q \<Longrightarrow> p \<le> q"
  by (induction buf p ms q rule: frames.induct) auto

lemma frames_append: "frames buf p (ms @ ns) q \<longleftrightarrow> (\<exists>r. frames buf p ms r \<and> frames buf r ns q)"
  by (induction ms arbitrary: p) auto

lemma frame_at_write_disjoint:
  assumes "frame_at buf p m" "off + length bs \<le> length buf"
    "off + length bs \<le> p \<or> p + frame_size (length m) \<le> off"
  shows "frame_at (mem_write buf off bs) p m"
proof -
  have "8 + length m \<le> frame_size (length m)"
    using assms(1) by (simp add: frame_at_def frame_size_bounds)
  then show ?thesis
    using assms by (auto simp: frame_at_def mem_read_write_other)
qed

lemma frames_write_disjoint:
  "frames buf p ms q \<Longrightarrow> off + length bs \<le> length buf \<Longrightarrow> off + length bs \<le> p \<or> q \<le> off \<Longrightarrow>
   frames (mem_write buf off bs) p ms q"
proof (induction buf p ms q rule: frames.induct)
  case (2 buf p m ms q)
  have "p + frame_size (length m) \<le> q" using 2 by (auto dest: frames_le)
  then show ?case using 2 by (auto intro: frame_at_write_disjoint)
qed simp

lemma pad_at_write_disjoint:
  "pad_at buf p \<Longrightarrow> off + length bs \<le> length buf \<Longrightarrow> off + length bs \<le> p \<or> p + 8 \<le> off \<Longrightarrow>
   pad_at (mem_write buf off bs) p"
  by (auto simp: pad_at_def mem_read_write_other)

subsection \<open>Writing a frame\<close>

lemma writeFrame_simps [simp]:
  "rb_head (writeFrame rb off m t g) = rb_head rb"
  "rb_tail (writeFrame rb off m t g) = rb_tail rb"
  by (simp_all add: writeFrame_def Let_def)

lemma Ring_publish_simps [simp]:
  "rb_head (Ring_publish rb h) = h" "rb_tail (Ring_publish rb h) = rb_tail rb"
  "rb_buffer (Ring_publish rb h) = rb_buffer rb"
  by (simp_all add: Ring_publish_def)

text \<open>The whole effect of \<open>writeFrame\<close> on the buffer: one frame appears, the rest stays.\<close>

lemma writeFrame_effect:
  fixes t :: nat and rb :: ring
  assumes "0 < length m" "length m \<le> MAX_MSG_SIZE" "off + frame_size (length m) \<le> BUFFER_SIZE rb"
  defines "buf' \<equiv> rb_buffer (writeFrame rb off m t MAGIC_VALID)"
  shows "length buf' = BUFFER_SIZE rb" "frame_at buf' off m"
    "frames (rb_buffer rb) p ms q \<Longrightarrow> off + frame_size (length m) \<le> p \<or> q \<le> off \<Longrightarrow> frames buf' p ms q"
    "pad_at (rb_buffer rb) p \<Longrightarrow> off + frame_size (length m) \<le> p \<or> p + 8 \<le> off \<Longrightarrow> pad_at buf' p"
proof -
  let ?hdr = "FrameHeader_bytes \<lparr>fh_length = word_of_nat (length m), fh_magic = MAGIC_VALID\<rparr>"
  let ?buf1 = "mem_write (rb_buffer rb) off ?hdr"
  have buf': "buf' = mem_write ?buf1 (off + 8) m"
    by (simp add: buf'_def writeFrame_def)
  have room: "8 + length m \<le> frame_size (length m)"
    using assms(1-3) by (simp add: frame_size_bounds)
  then have len1: "length ?buf1 = BUFFER_SIZE rb" using assms(1-3) by simp
  then show len: "length buf' = BUFFER_SIZE rb" using room assms(1-3) by (simp add: buf')
  have "mem_read buf' off 8 = ?hdr"
    using room assms(3) len1 by (simp add: buf' mem_read_write_before mem_read_write_same_n)
  moreover have "mem_read buf' (off + 8) (length m) = m"
    using room assms(3) len1 by (simp add: buf')
  ultimately show "frame_at buf' off m" using assms(1-3) len by (simp add: frame_at_def)
  show "frames buf' p ms q" if "frames (rb_buffer rb) p ms q" "off + frame_size (length m) \<le> p \<or> q \<le> off"
    unfolding buf' using that room assms(3) len1 by (auto intro!: frames_write_disjoint)
  show "pad_at buf' p" if "pad_at (rb_buffer rb) p" "off + frame_size (length m) \<le> p \<or> p + 8 \<le> off"
    unfolding buf' using that room assms(3) len1 by (auto intro!: pad_at_write_disjoint)
qed

lemma ring_rep_init: "8 dvd N \<Longrightarrow> ring_rep (LockFreeRingBuffer N) []"
  by (simp add: ring_rep_def ring_ok_def LockFreeRingBuffer_def)

subsection \<open>The operations refine a FIFO list\<close>

lemma Ring_tryWrite_reject:
  assumes "Ring_tryWrite rb m = (False, rb')"
  shows "rb_head rb' = rb_head rb" "rb_tail rb' = rb_tail rb" "rb_buffer rb' = rb_buffer rb"
  using assms by (auto simp: Ring_tryWrite_def Let_def split: if_splits)

lemma ring_rep_same_positions:
  "rb_head rb' = rb_head rb \<Longrightarrow> rb_tail rb' = rb_tail rb \<Longrightarrow> rb_buffer rb' = rb_buffer rb \<Longrightarrow>
   ring_rep rb' q \<longleftrightarrow> ring_rep rb q"
  by (simp add: ring_rep_def ring_ok_def)

lemma ring_rep_wrappedI:
  "ring_ok rb \<Longrightarrow> rb_head rb < rb_tail rb \<Longrightarrow> 0 < rb_head rb \<Longrightarrow>
   frames (rb_buffer rb) (rb_tail rb) q1 e \<Longrightarrow> pad_at (rb_buffer rb) e \<Longrightarrow>
   frames (rb_buffer rb) 0 q2 (rb_head rb) \<Longrightarrow> ring_rep rb (q1 @ q2)"
  unfolding ring_rep_def by auto

text \<open>The three places where an accepted message can go.\<close>

lemma ring_rep_write_at_end:
  assumes rep: "ring_rep rb q" and m: "0 < length m" "length m \<le> MAX_MSG_SIZE"
    and lin: "rb_tail rb \<le> rb_head rb" and fits: "rb_head rb + frame_size (length m) \<le> BUFFER_SIZE rb"
  shows "ring_rep (Ring_publish (writeFrame rb (rb_head rb) m t MAGIC_VALID)
            (rb_head rb + frame_size (length m))) (q @ [m])"
  using rep m lin fits writeFrame_effect [OF m fits, where t = t] frame_size_bounds [OF m(2)]
  by (auto simp: ring_rep_def ring_ok_def frames_append intro!: exI [of _ "rb_head rb"])

lemma ring_rep_write_wrapped:
  assumes rep: "ring_rep rb q" and m: "0 < length m" "length m \<le> MAX_MSG_SIZE"
    and wrap: "\<not> rb_tail rb \<le> rb_head rb" and fits: "rb_head rb + frame_size (length m) < rb_tail rb"
  shows "ring_rep (Ring_publish (writeFrame rb (rb_head rb) m t MAGIC_VALID)
            (rb_head rb + frame_size (length m))) (q @ [m])"
proof -
  obtain q1 q2 e where q: "q = q1 @ q2" "frames (rb_buffer rb) (rb_tail rb) q1 e" "pad_at (rb_buffer rb) e"
    "frames (rb_buffer rb) 0 q2 (rb_head rb)" and ok: "ring_ok rb" "0 < rb_head rb"
    using rep wrap by (auto simp: ring_rep_def)
  have in_buf: "rb_head rb + frame_size (length m) \<le> BUFFER_SIZE rb"
    using fits ok by (simp add: ring_ok_def)
  note eff = writeFrame_effect [OF m in_buf, where t = t]
  let ?buf = "rb_buffer (writeFrame rb (rb_head rb) m t MAGIC_VALID)"
  have "rb_tail rb \<le> e" using q by (auto dest: frames_le)
  then have "frames ?buf (rb_tail rb) q1 e" "pad_at ?buf e" "frames ?buf 0 q2 (rb_head rb)"
    using eff(3) [OF q(2)] eff(4) [OF q(3)] eff(3) [OF q(4)] fits by auto
  moreover have "frames ?buf 0 (q2 @ [m]) (rb_head rb + frame_size (length m))"
    using calculation eff(2) by (auto simp: frames_append)
  ultimately show ?thesis
    using q(1) ok fits eff(1) frame_size_bounds [OF m(2)] ring_rep_wrappedI [of _ q1 e "q2 @ [m]"]
    by (auto simp: ring_ok_def)
qed

lemma ring_rep_write_wrap:
  assumes rep: "ring_rep rb q" and m: "0 < length m" "length m \<le> MAX_MSG_SIZE"
    and lin: "rb_tail rb \<le> rb_head rb" and fits: "frame_size (length m) < rb_tail rb"
    and room: "rb_head rb < BUFFER_SIZE rb" and pad: "pad = FrameHeader_bytes \<lparr>fh_length = l, fh_magic = MAGIC_PADDING\<rparr>"
  shows "ring_rep (Ring_publish (writeFrame (rb\<lparr>rb_buffer := mem_write (rb_buffer rb) (rb_head rb) pad\<rparr>)
            0 m t MAGIC_VALID) (frame_size (length m))) (q @ [m])"
proof -
  let ?rb1 = "rb\<lparr>rb_buffer := mem_write (rb_buffer rb) (rb_head rb) pad\<rparr>"
  let ?buf = "rb_buffer (writeFrame ?rb1 0 m t MAGIC_VALID)"
  have ok: "ring_ok rb" and q: "frames (rb_buffer rb) (rb_tail rb) q (rb_head rb)"
    using rep lin by (auto simp: ring_rep_def)
  obtain a b where "rb_head rb = 8 * a" "BUFFER_SIZE rb = 8 * b"
    using ok by (auto simp: ring_ok_def elim!: dvdE)
  with room have h8: "rb_head rb + 8 \<le> BUFFER_SIZE rb" by simp
  have len1: "BUFFER_SIZE ?rb1 = BUFFER_SIZE rb" using h8 pad by simp
  have in_buf: "0 + frame_size (length m) \<le> BUFFER_SIZE ?rb1"
    using fits ok len1 by (simp add: ring_ok_def)
  note eff = writeFrame_effect [OF m in_buf, where t = t]
  have "frames (rb_buffer ?rb1) (rb_tail rb) q (rb_head rb)"
    using q h8 pad by (auto intro: frames_write_disjoint)
  then have "frames ?buf (rb_tail rb) q (rb_head rb)" using eff(3) fits by auto
  moreover have "pad_at (rb_buffer ?rb1) (rb_head rb)"
    using h8 pad len1 by (simp add: pad_at_def mem_read_write_same_n)
  then have "pad_at ?buf (rb_head rb)" using eff(4) fits lin by auto
  moreover have "frames ?buf 0 [m] (frame_size (length m))" using eff(2) by simp
  ultimately show ?thesis
    using ok fits eff(1) len1 frame_size_bounds [OF m(2)]
    by (intro ring_rep_wrappedI [of _ q "rb_head rb" "[m]"]) (auto simp: ring_ok_def)
qed

lemma Ring_tryWrite_accept:
  assumes rep: "ring_rep rb q" and safe: "ring_safe rb m" and w: "Ring_tryWrite rb m = (True, rb')"
  shows "ring_rep rb' (q @ [m])"
proof -
  have m: "0 < length m" "length m \<le> MAX_MSG_SIZE"
    using w by (auto simp: Ring_tryWrite_def Let_def split: if_splits)
  have ok: "ring_ok rb" using rep by (simp add: ring_rep_def)
  consider (at_end) "rb_tail rb \<le> rb_head rb" "rb_head rb + frame_size (length m) \<le> BUFFER_SIZE rb"
    | (wrap) "rb_tail rb \<le> rb_head rb" "\<not> rb_head rb + frame_size (length m) \<le> BUFFER_SIZE rb"
        "frame_size (length m) < rb_tail rb"
    | (wrapped) "\<not> rb_tail rb \<le> rb_head rb" "rb_head rb + frame_size (length m) < rb_tail rb"
    using w m by (auto simp: Ring_tryWrite_def Let_def split: if_splits)
  then show ?thesis
  proof cases
    case at_end
    then show ?thesis
      using w m ring_rep_write_at_end [OF rep m at_end] by (auto simp: Ring_tryWrite_def Let_def)
  next
    case wrap
    obtain a b where ab: "rb_head rb = 8 * a" "BUFFER_SIZE rb = 8 * b"
      using ok by (auto simp: ring_ok_def elim!: dvdE)
    have room: "rb_head rb < BUFFER_SIZE rb"
      using safe wrap ok by (simp add: ring_safe_def ring_ok_def)
    then have "8 \<le> BUFFER_SIZE rb - rb_head rb" using ab by simp
    then show ?thesis
      using w m wrap ring_rep_write_wrap [OF rep m wrap(1,3) room refl]
      by (auto simp: Ring_tryWrite_def Let_def)
  next
    case wrapped
    then show ?thesis
      using w m ring_rep_write_wrapped [OF rep m wrapped] by (auto simp: Ring_tryWrite_def Let_def)
  qed
qed

lemma Ring_readFrame_frame_at:
  assumes "frame_at (rb_buffer rb) p m"
  shows "Ring_readFrame rb p (FrameHeader_of_bytes (mem_read (rb_buffer rb) p 8)) =
    (RD_MSG m, rb\<lparr>rb_tail := p + frame_size (length m),
                  stats_messages_read := stats_messages_read rb + 1\<rparr>)"
proof -
  have "unat (word_of_nat (length m) :: u32) = length m"
    using assms by (subst unat_of_nat) (simp add: frame_at_def MAX_MSG_SIZE_def)
  then show ?thesis
    using assms frame_size_bounds [of "length m"] by (simp add: Ring_readFrame_def frame_at_def)
qed

lemma frame_at_header:
  "frame_at buf p m \<Longrightarrow>
   fh_magic (FrameHeader_of_bytes (mem_read buf p 8)) = MAGIC_VALID \<and> p + 8 \<le> length buf"
  using frame_size_bounds [of "length m"] by (auto simp: frame_at_def)

lemma Ring_tryRead_nil:
  assumes "ring_rep rb []" shows "Ring_tryRead rb = (RD_EMPTY, rb)"
  using assms by (auto simp: ring_rep_def Ring_tryRead_def split: if_splits)

lemma Ring_tryRead_cons:
  assumes "ring_rep rb (m # q)"
  shows "\<exists>rb'. Ring_tryRead rb = (RD_MSG m, rb') \<and> ring_rep rb' q"
proof (cases "rb_tail rb \<le> rb_head rb")
  case True
  then have f: "frame_at (rb_buffer rb) (rb_tail rb) m"
    "frames (rb_buffer rb) (rb_tail rb + frame_size (length m)) q (rb_head rb)"
    and ok: "ring_ok rb"
    using assms by (auto simp: ring_rep_def)
  have m: "length m \<le> MAX_MSG_SIZE" using f(1) by (simp add: frame_at_def)
  have "rb_tail rb \<noteq> rb_head rb"
    using frames_le [OF f(2)] frame_size_bounds [OF m] by auto
  then have "Ring_tryRead rb = (RD_MSG m, rb\<lparr>rb_tail := rb_tail rb + frame_size (length m),
      stats_messages_read := stats_messages_read rb + 1\<rparr>)"
    using frame_at_header [OF f(1)] Ring_readFrame_frame_at [OF f(1)]
    by (simp add: Ring_tryRead_def Let_def)
  then show ?thesis
    using f ok frames_le [OF f(2)] frame_size_bounds [OF m] by (auto simp: ring_rep_def ring_ok_def)
next
  case False
  then obtain q1 q2 e where q: "m # q = q1 @ q2" "frames (rb_buffer rb) (rb_tail rb) q1 e"
    "pad_at (rb_buffer rb) e" "frames (rb_buffer rb) 0 q2 (rb_head rb)" and pos: "0 < rb_head rb"
    and ok: "ring_ok rb"
    using assms unfolding ring_rep_def by auto
  show ?thesis
  proof (cases q1)
    case Nil
    then have t: "rb_tail rb = e" and f: "frame_at (rb_buffer rb) 0 m"
      "frames (rb_buffer rb) (frame_size (length m)) q (rb_head rb)"
      using q by auto
    have m: "length m \<le> MAX_MSG_SIZE" using f(1) by (simp add: frame_at_def)
    have "Ring_tryRead rb = (RD_MSG m, rb\<lparr>rb_tail := frame_size (length m),
        stats_messages_read := stats_messages_read rb + 1\<rparr>)"
      using False t q(3) pos frame_at_header [OF f(1)] Ring_readFrame_frame_at [of "rb\<lparr>rb_tail := 0\<rparr>" 0 m] f(1)
      by (simp add: Ring_tryRead_def Let_def pad_at_def)
    then show ?thesis
      using f ok frames_le [OF f(2)] frame_size_bounds [OF m] by (auto simp: ring_rep_def ring_ok_def)
  next
    case (Cons m' r1)
    then have m': "m' = m" "q = r1 @ q2" and f: "frame_at (rb_buffer rb) (rb_tail rb) m"
      "frames (rb_buffer rb) (rb_tail rb + frame_size (length m)) r1 e"
      using q by auto
    have m: "length m \<le> MAX_MSG_SIZE" using f(1) by (simp add: frame_at_def)
    have "Ring_tryRead rb = (RD_MSG m, rb\<lparr>rb_tail := rb_tail rb + frame_size (length m),
        stats_messages_read := stats_messages_read rb + 1\<rparr>)"
      using False frame_at_header [OF f(1)] Ring_readFrame_frame_at [OF f(1)]
      by (simp add: Ring_tryRead_def Let_def)
    then show ?thesis
      using m'(2) f(2) q(3,4) pos ok False frames_le [OF f(2)] frame_size_bounds [OF m] f(1)
      by (auto simp: ring_ok_def frame_at_def intro!: ring_rep_wrappedI [where e = e])
  qed
qed

interpretation ring_fifo: fifo_queue Ring_tryWrite Ring_receive ring_rep ring_safe
proof unfold_locales
  show "ring_rep rb' (q @ [m])"
    if "ring_rep rb q" "ring_safe rb m" "Ring_tryWrite rb m = (True, rb')" for rb q m rb'
    using that by (rule Ring_tryWrite_accept)
  show "ring_rep rb' q" if "ring_rep rb q" "Ring_tryWrite rb m = (False, rb')" for rb q m rb'
    using that ring_rep_same_positions [OF Ring_tryWrite_reject [OF that(2)]] by simp
  show "\<exists>rb'. Ring_receive rb = (None, rb') \<and> ring_rep rb' []" if "ring_rep rb []" for rb
    using that Ring_tryRead_nil [OF that] by (simp add: Ring_receive_def)
  show "\<exists>rb'. Ring_receive rb = (Some m, rb') \<and> ring_rep rb' q" if "ring_rep rb (m # q)" for rb m q
    using Ring_tryRead_cons [OF that] by (auto simp: Ring_receive_def)
qed

lemma frames_total: "frames buf p ms q \<Longrightarrow> (\<Sum>m\<leftarrow>ms. frame_size (length m)) = q - p"
  by (induction buf p ms q rule: frames.induct) (auto dest: frames_le)

lemma pad_at_bound: "pad_at buf e \<Longrightarrow> e + 8 \<le> length buf"
  by (simp add: pad_at_def)

lemma frames_length: "frames buf p ms q \<Longrightarrow> length ms + p \<le> q"
proof (induction buf p ms q rule: frames.induct)
  case (2 buf p m ms q)
  then show ?case using frame_size_bounds [of "length m"] by (auto simp: frame_at_def)
qed simp

lemma ring_rep_length: assumes "ring_rep rb q" shows "length q \<le> BUFFER_SIZE rb"
proof (cases "rb_tail rb \<le> rb_head rb")
  case True
  then show ?thesis
    using assms frames_length [of "rb_buffer rb" "rb_tail rb" q "rb_head rb"] by (auto simp: ring_rep_def ring_ok_def)
next
  case False
  then obtain q1 q2 e where q: "q = q1 @ q2" "frames (rb_buffer rb) (rb_tail rb) q1 e"
    "pad_at (rb_buffer rb) e" "frames (rb_buffer rb) 0 q2 (rb_head rb)"
    using assms unfolding ring_rep_def by auto
  then show ?thesis
    using False frames_length [OF q(2)] frames_length [OF q(4)] pad_at_bound [OF q(3)] by simp
qed

lemma Ring_receive_buffer: "Ring_receive rb = (r, rb') \<Longrightarrow> rb_buffer rb' = rb_buffer rb"
  by (auto simp: Ring_receive_def Ring_tryRead_def Ring_readFrame_def Let_def split: prod.splits if_splits)

lemma Ring_tryWrite_buffer_size:
  assumes "ring_rep rb q" "Ring_tryWrite rb m = (ok, rb')" shows "BUFFER_SIZE rb' = BUFFER_SIZE rb"
proof (cases "0 < length m \<and> length m \<le> MAX_MSG_SIZE")
  case True
  then have m: "0 < length m" "length m \<le> MAX_MSG_SIZE" by auto
  have ok: "rb_tail rb \<le> BUFFER_SIZE rb" using assms(1) by (simp add: ring_rep_def ring_ok_def)
  have len: "BUFFER_SIZE (writeFrame r p m t MAGIC_VALID) = BUFFER_SIZE r"
    if "p + frame_size (length m) \<le> BUFFER_SIZE r" for r p t
    using writeFrame_effect(1) [OF m that] by simp
  show ?thesis
    using assms(2) m ok by (auto simp: Ring_tryWrite_def Let_def Ring_publish_def len split: if_splits)
next
  case False
  then show ?thesis using assms(2) by (auto simp: Ring_tryWrite_def Let_def split: if_splits)
qed

subsection \<open>Properties\<close>

text \<open>C7: Whatever sequence of writes and reads runs on a fresh ring, the consumer receives
  exactly the accepted messages, in order and byte for byte: what was received followed by what
  the ring still holds is the list of accepted messages.  The run must not contain a wrapping
  write that starts with the write position exactly at the end of the buffer.\<close>

theorem Ring_run_is_fifo:
  assumes "8 dvd N"
    and "run_safe ring_safe Ring_tryWrite Ring_receive ops (LockFreeRingBuffer N)"
    and "run_queue Ring_tryWrite Ring_receive ops (LockFreeRingBuffer N) = (accepted, received, rb)"
  shows "\<exists>pending. ring_rep rb pending \<and> accepted = received @ pending"
  using ring_fifo.run_fifo [OF ring_rep_init [OF assms(1)] assms(2,3)] by simp

theorem Ring_run_is_fifo_witness:
  "case run_queue Ring_tryWrite Ring_receive [Put [1, 2, 3], Get, Get] (LockFreeRingBuffer 64)
     of (accepted, received, rb) \<Rightarrow> \<exists>pending. ring_rep rb pending \<and> accepted = received @ pending"
proof -
  have "run_safe ring_safe Ring_tryWrite Ring_receive [Put [1, 2, 3], Get, Get] (LockFreeRingBuffer 64)"
    by (simp add: ring_safe_def LockFreeRingBuffer_def)
  then show ?thesis
    using Ring_run_is_fifo [of 64 "[Put [1, 2, 3], Get, Get]"] by (auto split: prod.splits)
qed

text \<open>On a ring that holds the messages \<open>q\<close>, a read returns the oldest message and removes it,
  or reports an empty ring when there is none.  It never takes the corrupt-header exits and
  never copies from behind the buffer.\<close>

theorem Ring_tryRead_spec:
  assumes "ring_rep rb q"
  shows "case q of
           [] \<Rightarrow> Ring_tryRead rb = (RD_EMPTY, rb)
         | m # q' \<Rightarrow> (\<exists>rb'. Ring_tryRead rb = (RD_MSG m, rb') \<and> ring_rep rb' q')"
  using assms Ring_tryRead_nil Ring_tryRead_cons by (cases q) auto

theorem Ring_tryRead_spec_witness: "Ring_tryRead (LockFreeRingBuffer 64) = (RD_EMPTY, LockFreeRingBuffer 64)"
  using Ring_tryRead_spec [OF ring_rep_init, of 64] by simp

text \<open>The byte accounting of the ring is sound: the frames of the messages it holds fit into
  what \<open>size()\<close> reports, \<open>size()\<close> never exceeds the buffer, and \<open>empty()\<close> is true exactly when
  no message is pending.\<close>

theorem Ring_size_accounts:
  assumes "ring_rep rb q"
  shows "(\<Sum>m\<leftarrow>q. frame_size (length m)) \<le> Ring_size rb \<and> Ring_size rb \<le> BUFFER_SIZE rb \<and>
         (Ring_empty rb \<longleftrightarrow> q = [])"
proof (cases "rb_tail rb \<le> rb_head rb")
  case True
  then have f: "frames (rb_buffer rb) (rb_tail rb) q (rb_head rb)" and "ring_ok rb"
    using assms by (auto simp: ring_rep_def)
  moreover have "q = [] \<longleftrightarrow> rb_tail rb = rb_head rb"
  proof (cases q)
    case (Cons m q')
    then have "0 < frame_size (length m)"
      using f by (auto simp: frame_at_def frame_size_bounds)
    then show ?thesis using f Cons by (auto dest: frames_le)
  qed (use f in auto)
  ultimately show ?thesis
    using True by (auto simp: Ring_size_def Ring_empty_def ring_ok_def frames_total)
next
  case False
  then obtain q1 q2 e where q: "q = q1 @ q2" "frames (rb_buffer rb) (rb_tail rb) q1 e"
    "pad_at (rb_buffer rb) e" "frames (rb_buffer rb) 0 q2 (rb_head rb)" "0 < rb_head rb" "ring_ok rb"
    using assms unfolding ring_rep_def by auto
  moreover have "q2 \<noteq> []" using q by auto
  ultimately show ?thesis
    using False frames_total [OF q(2)] frames_total [OF q(4)] frames_le [OF q(2)] pad_at_bound [OF q(3)]
    by (auto simp: Ring_size_def Ring_empty_def ring_ok_def)
qed

theorem Ring_size_accounts_witness:
  "Ring_size (LockFreeRingBuffer 64) \<le> BUFFER_SIZE (LockFreeRingBuffer 64) \<and> Ring_empty (LockFreeRingBuffer 64)"
  using Ring_size_accounts [OF ring_rep_init, of 64] by simp

text \<open>C35: The side condition is needed.  When the frames written so far end exactly at the end of
  the buffer and the consumer has drained them, the next message is accepted at offset 0 without
  a padding header (there is no room for one), and the consumer's next \<open>tryRead\<close> copies a frame
  header from behind the buffer.\<close>

theorem Ring_exact_fill_overread:
  assumes "rb_head rb = BUFFER_SIZE rb" and "rb_tail rb = BUFFER_SIZE rb"
    and "0 < length m" and "length m \<le> MAX_MSG_SIZE" and "frame_size (length m) < BUFFER_SIZE rb"
  shows "fst (Ring_tryWrite rb m) \<and> fst (Ring_tryRead (snd (Ring_tryWrite rb m))) = RD_OVERREAD"
proof -
  have len: "BUFFER_SIZE (writeFrame rb 0 m t MAGIC_VALID) = BUFFER_SIZE rb" for t
    using assms by (intro writeFrame_effect(1)) auto
  show ?thesis
    using assms frame_size_bounds(4) [OF assms(4)] len
    by (auto simp: Ring_tryWrite_def Ring_tryRead_def Let_def)
qed

definition exact_fill_run :: "bytes queue_op list" where
  "exact_fill_run = [Put (replicate 8 1), Put (replicate 8 2), Get, Get]"

theorem Ring_exact_fill_overread_witness:
  "let rb = snd (snd (run_queue Ring_tryWrite Ring_receive exact_fill_run (LockFreeRingBuffer 32)))
   in fst (Ring_tryWrite rb [7]) \<and> fst (Ring_tryRead (snd (Ring_tryWrite rb [7]))) = RD_OVERREAD"
proof -
  define rb where "rb = snd (snd (run_queue Ring_tryWrite Ring_receive exact_fill_run (LockFreeRingBuffer 32)))"
  have "rb_head rb = 32 \<and> rb_tail rb = 32 \<and> BUFFER_SIZE rb = 32"
    unfolding rb_def by code_simp
  moreover have "frame_size (length [7 :: u8]) < 32" by code_simp
  ultimately show ?thesis
    using Ring_exact_fill_overread [of rb "[7]"] by (simp add: rb_def MAX_MSG_SIZE_def)
qed

end
