(* ===== verification/Nexus_LargeData.thy ===== *)
theory Nexus_LargeData
  imports Nexus_Crc Nexus_RingBuffer
begin

section \<open>LargeDataChannel: single writer, many readers\<close>

text \<open>
  Model of \<open>include/nexus/transport/LargeDataChannel.h\<close> and
  \<open>src/transport/LargeDataChannel.cpp\<close>.  The shared segment is a control block and a byte buffer
  of its capacity; a channel object adds its configuration, its reader slot and its counters.  The
  positions are byte offsets that only grow; they are natural numbers here (a \<open>uint64_t\<close> would need
  \<open>2 ^ 64\<close> written bytes to wrap), while heartbeats, sequence numbers and counters are words.  A read
  of the header or the data behind the end of the buffer is the value \<open>None\<close>.  The clock, the process
  id and \<open>kill\<close> are in \<open>ld_env\<close>; the answers of \<open>shm_open\<close>, \<open>fstat\<close>, \<open>ftruncate\<close>, \<open>mmap\<close> and
  \<open>shm_unlink\<close> are arguments.

  Shown: what every active reader still has to read is a queue of blocks (\<open>reader_rep\<close>): a write
  appends its block, but empties the queue of every reader first when it wraps around; \<open>tryRead\<close>
  yields the head of the queue and \<open>releaseBlock\<close> drops it; writes stay inside the buffer; the
  number of readers is counted exactly.  Also shown are the states in which the channel misbehaves.
\<close>

subsection \<open>Data\<close>

definition LARGE_DATA_CLEANUP_INTERVAL_S :: u64 where "LARGE_DATA_CLEANUP_INTERVAL_S = 30"
definition LARGE_DATA_READER_TIMEOUT_S :: u64 where "LARGE_DATA_READER_TIMEOUT_S = 60"
definition LARGE_DATA_MIN_VALID_SIZE :: nat where "LARGE_DATA_MIN_VALID_SIZE = 4096"
definition LARGE_DATA_MAGIC :: u32 where "LARGE_DATA_MAGIC = 0x4C444154"
definition MAX_READERS :: nat where "MAX_READERS = 16"
definition sizeof_LargeDataHeader :: nat where "sizeof_LargeDataHeader = 128"
definition sizeof_RingBufferControl :: nat where "sizeof_RingBufferControl = 1152"

record LargeDataHeader =
  lh_magic :: u32
  lh_size :: u32
  lh_sequence :: u64
  lh_crc32 :: u32
  lh_topic :: bytes
  lh_reserved :: bytes

definition LargeDataHeader_at :: "bytes \<Rightarrow> nat \<Rightarrow> LargeDataHeader" where
  "LargeDataHeader_at buf off =
     \<lparr>lh_magic = le_to_word (mem_read buf off 4), lh_size = le_to_word (mem_read buf (off + 4) 4),
      lh_sequence = le_to_word (mem_read buf (off + 8) 8), lh_crc32 = le_to_word (mem_read buf (off + 16) 4),
      lh_topic = mem_read buf (off + 20) 64, lh_reserved = mem_read buf (off + 84) 44\<rparr>"

record ReaderSlot =
  rs_read_pos :: nat
  rs_heartbeat :: u64
  rs_pid :: int
  rs_active :: bool

definition ReaderSlot_init :: ReaderSlot where
  "ReaderSlot_init = \<lparr>rs_read_pos = 0, rs_heartbeat = 0, rs_pid = 0, rs_active = False\<rparr>"

record RingBufferControl =
  rc_write_pos :: nat
  rc_sequence :: u64
  rc_writer_heartbeat :: u64
  rc_writer_pid :: int
  rc_readers :: "ReaderSlot list"
  rc_num_readers :: u32
  rc_ref_count :: int
  rc_capacity :: nat
  rc_max_block_size :: u32
  rc_max_readers :: u32

datatype LargeDataOverflowPolicy = LD_DROP_OLDEST | LD_DROP_NEWEST | LD_BLOCK

record LargeDataChannelConfig =
  ldc_buffer_size :: nat
  ldc_max_block_size :: nat
  ldc_max_readers :: nat
  ldc_overflow_policy :: LargeDataOverflowPolicy

definition LargeDataChannelConfig_default :: LargeDataChannelConfig where
  "LargeDataChannelConfig_default =
     \<lparr>ldc_buffer_size = 64 * 1024 * 1024, ldc_max_block_size = 8 * 1024 * 1024, ldc_max_readers = 8,
      ldc_overflow_policy = LD_DROP_OLDEST\<rparr>"

datatype ReadResult = LD_SUCCESS | LD_NO_DATA | LD_CRC_ERROR | LD_INVALID_MAGIC | LD_SIZE_EXCEEDED | LD_INSUFFICIENT

text \<open>A handle without copy: the pointer is an offset into the shared buffer.\<close>

record DataBlock =
  db_header :: "nat option"
  db_size :: nat
  db_result :: ReadResult

definition DataBlock_init :: DataBlock where
  "DataBlock_init = \<lparr>db_header = None, db_size = 0, db_result = LD_NO_DATA\<rparr>"

record LargeShm =
  ls_control :: RingBufferControl
  ls_buffer :: bytes

record LargeDataChannel =
  ch_config :: LargeDataChannelConfig
  ch_reader_id :: int
  ch_total_writes :: u64
  ch_total_reads :: u64
  ch_total_bytes_written :: u64
  ch_total_bytes_read :: u64
  ch_total_dropped :: u64

record ld_env =
  ld_now :: u64
  ld_pid :: int
  ld_kill :: "int \<Rightarrow> kill_answer"

definition DataBlock_isValid :: "bytes \<Rightarrow> DataBlock \<Rightarrow> bool" where
  "DataBlock_isValid buf blk \<longleftrightarrow>
     db_result blk = LD_SUCCESS \<and>
     (case db_header blk of None \<Rightarrow> False | Some off \<Rightarrow> lh_magic (LargeDataHeader_at buf off) = LARGE_DATA_MAGIC)"

definition DataBlock_getTopic :: "bytes \<Rightarrow> DataBlock \<Rightarrow> string" where
  "DataBlock_getTopic buf blk =
     (case db_header blk of None \<Rightarrow> [] | Some off \<Rightarrow> cstr_read (lh_topic (LargeDataHeader_at buf off)))"

fun getResultString :: "ReadResult \<Rightarrow> string" where
  "getResultString LD_SUCCESS = ''SUCCESS''"
| "getResultString LD_NO_DATA = ''NO_DATA''"
| "getResultString LD_CRC_ERROR = ''CRC_ERROR''"
| "getResultString LD_INVALID_MAGIC = ''INVALID_MAGIC''"
| "getResultString LD_SIZE_EXCEEDED = ''SIZE_EXCEEDED''"
| "getResultString LD_INSUFFICIENT = ''INSUFFICIENT''"

subsection \<open>Readers\<close>

definition LargeData_isProcessAlive :: "(int \<Rightarrow> kill_answer) \<Rightarrow> int \<Rightarrow> bool" where
  "LargeData_isProcessAlive kill pid \<longleftrightarrow> 0 < pid \<and> kill pid \<noteq> KILL_ESRCH"

definition update_reader :: "nat \<Rightarrow> (ReaderSlot \<Rightarrow> ReaderSlot) \<Rightarrow> RingBufferControl \<Rightarrow> RingBufferControl" where
  "update_reader i f c = c\<lparr>rc_readers := (rc_readers c)[i := f (rc_readers c ! i)]\<rparr>"

definition registerReader :: "ld_env \<Rightarrow> RingBufferControl \<Rightarrow> int \<times> RingBufferControl" where
  "registerReader env c =
     (case find_index (\<lambda>r. \<not> rs_active r) (rc_readers c) of
        None \<Rightarrow> (-1, c)
      | Some i \<Rightarrow>
          let c1 = update_reader i (\<lambda>r. r\<lparr>rs_active := True, rs_read_pos := 0, rs_pid := ld_pid env,
                                        rs_heartbeat := ld_now env\<rparr>) c
          in (int i, c1\<lparr>rc_num_readers := rc_num_readers c1 + 1\<rparr>))"

definition unregisterReader :: "int \<Rightarrow> RingBufferControl \<Rightarrow> RingBufferControl" where
  "unregisterReader reader_id c =
     (if reader_id < 0 \<or> reader_id \<ge> int MAX_READERS then c
      else let c1 = update_reader (nat reader_id) (\<lambda>r. r\<lparr>rs_active := False, rs_pid := 0\<rparr>) c
           in c1\<lparr>rc_num_readers := rc_num_readers c1 - 1\<rparr>)"

definition getMinReadPos :: "RingBufferControl \<Rightarrow> nat" where
  "getMinReadPos c =
     foldl (\<lambda>min_pos r. if rs_active r \<and> rs_read_pos r < min_pos then rs_read_pos r else min_pos)
       (rc_write_pos c) (rc_readers c)"

definition updateReaderHeartbeat :: "ld_env \<Rightarrow> int \<Rightarrow> RingBufferControl \<Rightarrow> RingBufferControl" where
  "updateReaderHeartbeat env reader_id c =
     (if reader_id < 0 \<or> reader_id \<ge> int MAX_READERS then c
      else update_reader (nat reader_id) (\<lambda>r. r\<lparr>rs_heartbeat := ld_now env\<rparr>) c)"

definition reader_dead :: "ld_env \<Rightarrow> ReaderSlot \<Rightarrow> bool" where
  "reader_dead env r \<longleftrightarrow>
     rs_active r \<and>
     (\<not> LargeData_isProcessAlive (ld_kill env) (rs_pid r) \<or>
      ld_now env - rs_heartbeat r > LARGE_DATA_READER_TIMEOUT_S)"

fun cleanupDeadReaders_loop :: "ld_env \<Rightarrow> ReaderSlot list \<Rightarrow> u32 \<Rightarrow> ReaderSlot list \<times> u32" where
  "cleanupDeadReaders_loop env [] n = ([], n)"
| "cleanupDeadReaders_loop env (r # rs) n =
     (if reader_dead env r
      then (case cleanupDeadReaders_loop env rs (n - 1) of (rs', n') \<Rightarrow> (r\<lparr>rs_active := False\<rparr> # rs', n'))
      else (case cleanupDeadReaders_loop env rs n of (rs', n') \<Rightarrow> (r # rs', n')))"

text \<open>
  \<open>last_cleanup\<close> is a function-local static: one for all channels of the process.  It is passed in
  and out.
\<close>

definition cleanupDeadReaders :: "ld_env \<Rightarrow> u64 \<Rightarrow> RingBufferControl \<Rightarrow> u64 \<times> RingBufferControl" where
  "cleanupDeadReaders env last_cleanup c =
     (if ld_now env - last_cleanup < LARGE_DATA_CLEANUP_INTERVAL_S then (last_cleanup, c)
      else case cleanupDeadReaders_loop env (rc_readers c) (rc_num_readers c) of (rs, n) \<Rightarrow>
        (ld_now env, c\<lparr>rc_readers := rs, rc_num_readers := n\<rparr>))"

subsection \<open>Writing\<close>

text \<open>The stores of one block, in program order; the magic number comes last.\<close>

definition write_block :: "bytes \<Rightarrow> nat \<Rightarrow> u64 \<Rightarrow> string \<Rightarrow> bytes \<Rightarrow> bytes" where
  "write_block buf write_offset seq topic data =
     (let buf = mem_write buf write_offset (word_to_le 4 (0 :: u32));
          buf = mem_write buf (write_offset + 4) (word_to_le 4 (word_of_nat (length data) :: u32));
          buf = mem_write buf (write_offset + 8) (word_to_le 8 seq);
          buf = mem_write buf (write_offset + 20) (cstr_field 64 topic);
          buf = mem_write buf (write_offset + sizeof_LargeDataHeader) data;
          buf = mem_write buf (write_offset + 16) (word_to_le 4 (calculateCRC32 data))
      in mem_write buf write_offset (word_to_le 4 LARGE_DATA_MAGIC))"

text \<open>The loop over the readers after a wrap; \<open>write_offset\<close> has just been set to 0.\<close>

definition skip_reader :: "nat \<Rightarrow> nat \<Rightarrow> nat \<Rightarrow> ReaderSlot \<Rightarrow> ReaderSlot" where
  "skip_reader capacity write_pos write_offset r =
     (if rs_active r \<and> rs_read_pos r < write_pos \<and> rs_read_pos r mod capacity \<ge> write_offset
      then r\<lparr>rs_read_pos := write_pos\<rparr> else r)"

definition wraps :: "RingBufferControl \<Rightarrow> nat \<Rightarrow> bool" where
  "wraps c total_size \<longleftrightarrow> rc_write_pos c mod rc_capacity c + total_size > rc_capacity c"

definition wrap_around :: "nat \<Rightarrow> RingBufferControl \<Rightarrow> nat \<times> RingBufferControl" where
  "wrap_around total_size c =
     (let write_offset = rc_write_pos c mod rc_capacity c in
      if wraps c total_size then
        let skip_size = rc_capacity c - write_offset;
            write_pos = rc_write_pos c + skip_size;
            write_offset = 0
        in (write_offset, c\<lparr>rc_write_pos := write_pos,
                            rc_readers := map (skip_reader (rc_capacity c) write_pos write_offset) (rc_readers c)\<rparr>)
      else (write_offset, c))"

text \<open>
  \<open>write\<close> returns the sequence number as a signed 64-bit number, or -1; the state also holds
  \<open>last_cleanup\<close>.
\<close>

definition LargeData_write ::
    "ld_env \<Rightarrow> string \<Rightarrow> bytes \<Rightarrow> u64 \<times> LargeDataChannel \<times> LargeShm \<Rightarrow> int \<times> u64 \<times> LargeDataChannel \<times> LargeShm" where
  "LargeData_write env topic data = (\<lambda>(last_cleanup, ch, sh).
     if length data > ldc_max_block_size (ch_config ch) then (-1, last_cleanup, ch, sh)
     else
       let total_size = sizeof_LargeDataHeader + length data;
           (last_cleanup', c) = cleanupDeadReaders env last_cleanup (ls_control sh);
           used = rc_write_pos c - getMinReadPos c
       in if used + total_size > rc_capacity c then
            (case ldc_overflow_policy (ch_config ch) of
               LD_DROP_NEWEST \<Rightarrow>
                 (-1, last_cleanup', ch\<lparr>ch_total_dropped := ch_total_dropped ch + 1\<rparr>, sh\<lparr>ls_control := c\<rparr>)
             | _ \<Rightarrow> (-1, last_cleanup', ch, sh\<lparr>ls_control := c\<rparr>))
          else
            let seq = rc_sequence c;
                c = c\<lparr>rc_writer_heartbeat := ld_now env, rc_sequence := seq + 1\<rparr>;
                (write_offset, c) = wrap_around total_size c;
                buf = write_block (ls_buffer sh) write_offset seq topic data;
                c = c\<lparr>rc_write_pos := rc_write_pos c + total_size\<rparr>
            in (sint seq, last_cleanup',
                ch\<lparr>ch_total_writes := ch_total_writes ch + 1,
                   ch_total_bytes_written := ch_total_bytes_written ch + word_of_nat (length data)\<rparr>,
                sh\<lparr>ls_control := c, ls_buffer := buf\<rparr>))"

subsection \<open>Reading\<close>

definition validateBlock :: "LargeDataChannelConfig \<Rightarrow> bytes \<Rightarrow> nat \<Rightarrow> nat \<Rightarrow> ReadResult option" where
  "validateBlock cfg buf off available =
     (if off + sizeof_LargeDataHeader > length buf then None
      else let header = LargeDataHeader_at buf off in
        if lh_magic header \<noteq> LARGE_DATA_MAGIC then Some LD_INVALID_MAGIC
        else if unat (lh_size header) > ldc_max_block_size cfg then Some LD_SIZE_EXCEEDED
        else let total_size = sizeof_LargeDataHeader + unat (lh_size header) in
          if available < total_size then Some LD_INSUFFICIENT
          else if off + total_size > length buf then None
          else if calculateCRC32 (mem_read buf (off + sizeof_LargeDataHeader) (unat (lh_size header))) \<noteq> lh_crc32 header
          then Some LD_CRC_ERROR
          else Some LD_SUCCESS)"

definition tryRead_registered ::
    "ld_env \<Rightarrow> DataBlock \<Rightarrow> LargeDataChannel \<Rightarrow> LargeShm \<Rightarrow> (bool \<times> DataBlock \<times> LargeDataChannel \<times> LargeShm) option" where
  "tryRead_registered env block ch sh =
     (let rid = nat (ch_reader_id ch);
          c = updateReaderHeartbeat env (ch_reader_id ch) (ls_control sh);
          read_pos = rs_read_pos (rc_readers c ! rid);
          write_pos = rc_write_pos c;
          min_read_pos = getMinReadPos c;
          (read_pos, c) = (if read_pos < min_read_pos
                           then (min_read_pos, update_reader rid (\<lambda>r. r\<lparr>rs_read_pos := min_read_pos\<rparr>) c)
                           else (read_pos, c));
          sh = sh\<lparr>ls_control := c\<rparr>
      in if read_pos \<ge> write_pos then Some (False, block, ch, sh)
         else
           let read_offset = read_pos mod rc_capacity c;
               available = write_pos - read_pos
           in if available < sizeof_LargeDataHeader then Some (False, block, ch, sh)
              else case validateBlock (ch_config ch) (ls_buffer sh) read_offset available of
                None \<Rightarrow> None
              | Some LD_SUCCESS \<Rightarrow>
                  Some (True, \<lparr>db_header = Some read_offset,
                               db_size = unat (lh_size (LargeDataHeader_at (ls_buffer sh) read_offset)),
                               db_result = LD_SUCCESS\<rparr>, ch, sh)
              | Some res \<Rightarrow>
                  if res = LD_INVALID_MAGIC \<or> res = LD_INSUFFICIENT
                  then Some (False, block\<lparr>db_result := res\<rparr>, ch, sh)
                  else Some (False, block\<lparr>db_result := res\<rparr>, ch,
                         sh\<lparr>ls_control := update_reader rid
                              (\<lambda>r. r\<lparr>rs_read_pos := rs_read_pos r + sizeof_LargeDataHeader\<rparr>) c\<rparr>))"

definition LargeData_tryRead ::
    "ld_env \<Rightarrow> DataBlock \<Rightarrow> LargeDataChannel \<Rightarrow> LargeShm \<Rightarrow> (bool \<times> DataBlock \<times> LargeDataChannel \<times> LargeShm) option" where
  "LargeData_tryRead env block ch sh =
     (if ch_reader_id ch < 0 then
        case registerReader env (ls_control sh) of (rid, c) \<Rightarrow>
          let ch = ch\<lparr>ch_reader_id := rid\<rparr>; sh = sh\<lparr>ls_control := c\<rparr>
          in if rid < 0 then Some (False, block, ch, sh) else tryRead_registered env block ch sh
      else tryRead_registered env block ch sh)"

definition LargeData_releaseBlock :: "DataBlock \<Rightarrow> LargeDataChannel \<Rightarrow> LargeShm \<Rightarrow> LargeDataChannel \<times> LargeShm" where
  "LargeData_releaseBlock block ch sh =
     (if \<not> DataBlock_isValid (ls_buffer sh) block \<or> ch_reader_id ch < 0 then (ch, sh)
      else let total_size = sizeof_LargeDataHeader + db_size block in
        (ch\<lparr>ch_total_reads := ch_total_reads ch + 1,
            ch_total_bytes_read := ch_total_bytes_read ch + word_of_nat (db_size block)\<rparr>,
         sh\<lparr>ls_control := update_reader (nat (ch_reader_id ch))
              (\<lambda>r. r\<lparr>rs_read_pos := rs_read_pos r + total_size\<rparr>) (ls_control sh)\<rparr>))"

subsection \<open>Statistics and space\<close>

record LargeDataStats =
  lst_total_writes :: u64
  lst_total_reads :: u64
  lst_total_bytes_written :: u64
  lst_total_bytes_read :: u64
  lst_current_usage :: nat
  lst_capacity :: nat

definition LargeData_getStats :: "LargeDataChannel \<Rightarrow> LargeShm \<Rightarrow> LargeDataStats" where
  "LargeData_getStats ch sh =
     (let c = ls_control sh; write_pos = rc_write_pos c; min_read_pos = getMinReadPos c in
      \<lparr>lst_total_writes = ch_total_writes ch, lst_total_reads = ch_total_reads ch,
       lst_total_bytes_written = ch_total_bytes_written ch, lst_total_bytes_read = ch_total_bytes_read ch,
       lst_current_usage = (if write_pos > min_read_pos then write_pos - min_read_pos else 0),
       lst_capacity = rc_capacity c\<rparr>)"

definition getAvailableSpace :: "LargeShm \<Rightarrow> nat" where
  "getAvailableSpace sh =
     (let c = ls_control sh; used = rc_write_pos c - getMinReadPos c in
      if used \<ge> rc_capacity c then 0 else rc_capacity c - used)"

definition canWrite :: "nat \<Rightarrow> LargeShm \<Rightarrow> bool" where
  "canWrite n sh \<longleftrightarrow> getAvailableSpace sh \<ge> n"

definition setOverflowPolicy :: "LargeDataOverflowPolicy \<Rightarrow> LargeDataChannel \<Rightarrow> LargeDataChannel" where
  "setOverflowPolicy policy ch = ch\<lparr>ch_config := (ch_config ch)\<lparr>ldc_overflow_policy := policy\<rparr>\<rparr>"

subsection \<open>Life of a channel\<close>

text \<open>
  The object in \<open>/dev/shm\<close>: absent, or a size with what a mapping shows.  \<open>shm_open\<close> with \<open>O_CREAT\<close>
  leaves an object of size 0, which the caller then sizes and initialises.
\<close>

datatype channel_file = CF_ABSENT | CF_FILE nat LargeShm

record channel_os =
  co_open :: bool
  co_fstat :: bool
  co_ftruncate :: bool
  co_mmap :: bool
  co_page_size :: nat
  co_pid :: int

definition LargeDataChannel_init :: "LargeDataChannelConfig \<Rightarrow> LargeDataChannel" where
  "LargeDataChannel_init cfg =
     \<lparr>ch_config = cfg, ch_reader_id = -1, ch_total_writes = 0, ch_total_reads = 0,
      ch_total_bytes_written = 0, ch_total_bytes_read = 0, ch_total_dropped = 0\<rparr>"

definition shm_size_for :: "channel_os \<Rightarrow> LargeDataChannelConfig \<Rightarrow> nat" where
  "shm_size_for os cfg =
     (let n = sizeof_RingBufferControl + ldc_buffer_size cfg
      in ((n + co_page_size os - 1) div co_page_size os) * co_page_size os)"

definition created_shm :: "channel_os \<Rightarrow> LargeDataChannelConfig \<Rightarrow> LargeShm" where
  "created_shm os cfg =
     \<lparr>ls_control =
        \<lparr>rc_write_pos = 0, rc_sequence = 0, rc_writer_heartbeat = 0, rc_writer_pid = co_pid os,
         rc_readers = replicate MAX_READERS ReaderSlot_init, rc_num_readers = 0, rc_ref_count = 1,
         rc_capacity = ldc_buffer_size cfg, rc_max_block_size = word_of_nat (ldc_max_block_size cfg),
         rc_max_readers = word_of_nat (ldc_max_readers cfg)\<rparr>,
      ls_buffer = replicate (ldc_buffer_size cfg) 0\<rparr>"

definition LargeData_initialize ::
    "channel_os \<Rightarrow> LargeDataChannelConfig \<Rightarrow> channel_file \<Rightarrow> bool \<times> channel_file" where
  "LargeData_initialize os cfg file =
     (if \<not> co_open os then (False, file)
      else
        let (st_size, sh) = (case file of CF_ABSENT \<Rightarrow> (0, created_shm os cfg) | CF_FILE n sh \<Rightarrow> (n, sh));
            opened = CF_FILE st_size sh;
            is_creator = (st_size = 0)
        in if \<not> co_fstat os then (False, opened)
           else if is_creator \<and> \<not> co_ftruncate os then (False, opened)
           else if \<not> co_mmap os then
             (False, if is_creator then CF_FILE (shm_size_for os cfg) sh else opened)
           else if is_creator then (True, CF_FILE (shm_size_for os cfg) (created_shm os cfg))
           else (True, CF_FILE st_size
                   (sh\<lparr>ls_control := (ls_control sh)\<lparr>rc_ref_count := rc_ref_count (ls_control sh) + 1\<rparr>\<rparr>)))"

definition LargeDataChannel_destroy :: "bool \<Rightarrow> LargeDataChannel \<Rightarrow> nat \<Rightarrow> LargeShm \<Rightarrow> channel_file" where
  "LargeDataChannel_destroy unlink_ok ch st_size sh =
     (let c = (if ch_reader_id ch \<ge> 0 then unregisterReader (ch_reader_id ch) (ls_control sh) else ls_control sh)
      in if rc_ref_count c > 0 then
           let prev_count = rc_ref_count c;
               c = c\<lparr>rc_ref_count := prev_count - 1\<rparr>;
               sh = sh\<lparr>ls_control := c\<rparr>
           in if prev_count = 1 \<and> unlink_ok then CF_ABSENT else CF_FILE st_size sh
         else CF_FILE st_size (sh\<lparr>ls_control := c\<rparr>))"

text \<open>
  \<open>cleanupOrphanedChannels\<close>: the decision for one object and the scan of the directory.  The
  differences of times are computed in 64-bit unsigned numbers for the heartbeats, but in signed
  numbers for the modification time of an object that is too small.
\<close>

record shm_object =
  so_name :: string
  so_open :: bool
  so_fstat :: bool
  so_mmap :: bool
  so_size :: nat
  so_mtime :: int
  so_control :: RingBufferControl
  so_unlink :: bool

definition heartbeat_timeout :: "u64 \<Rightarrow> u32 \<Rightarrow> u64 \<Rightarrow> bool" where
  "heartbeat_timeout current_time timeout_seconds hb \<longleftrightarrow> current_time - hb > ucast timeout_seconds"

definition all_processes_dead :: "(int \<Rightarrow> kill_answer) \<Rightarrow> RingBufferControl \<Rightarrow> bool" where
  "all_processes_dead kill c \<longleftrightarrow>
     \<not> LargeData_isProcessAlive kill (rc_writer_pid c) \<and>
     \<not> (\<exists>r \<in> set (rc_readers c). rs_active r \<and> LargeData_isProcessAlive kill (rs_pid r)) \<and>
     (rc_writer_pid c > 0 \<or> rc_num_readers c > 0)"

definition all_heartbeats_timeout :: "u64 \<Rightarrow> u32 \<Rightarrow> RingBufferControl \<Rightarrow> bool" where
  "all_heartbeats_timeout current_time timeout_seconds c \<longleftrightarrow>
     rc_writer_heartbeat c > 0 \<and> heartbeat_timeout current_time timeout_seconds (rc_writer_heartbeat c) \<and>
     (rc_num_readers c = 0 \<or>
      \<not> (\<exists>r \<in> set (rc_readers c). rs_active r \<and>
           (rs_heartbeat r = 0 \<or> \<not> heartbeat_timeout current_time timeout_seconds (rs_heartbeat r))))"

definition channel_should_cleanup :: "ld_env \<Rightarrow> u32 \<Rightarrow> shm_object \<Rightarrow> bool" where
  "channel_should_cleanup env timeout_seconds obj =
     (if so_size obj \<ge> sizeof_RingBufferControl + LARGE_DATA_MIN_VALID_SIZE then
        let control = so_control obj in
        rc_ref_count control = 0 \<or> all_processes_dead (ld_kill env) control \<or>
        all_heartbeats_timeout (ld_now env) timeout_seconds control
      else uint (ld_now env) - so_mtime obj > uint timeout_seconds)"

fun contains_sub :: "string \<Rightarrow> string \<Rightarrow> bool" where
  "contains_sub pat [] = (pat = [])"
| "contains_sub pat (c # s) = (take (length pat) (c # s) = pat \<or> contains_sub pat s)"

fun cleanupOrphanedChannels :: "ld_env \<Rightarrow> u32 \<Rightarrow> shm_object list \<Rightarrow> nat \<times> shm_object list" where
  "cleanupOrphanedChannels env timeout_seconds [] = (0, [])"
| "cleanupOrphanedChannels env timeout_seconds (obj # dir) =
     (case cleanupOrphanedChannels env timeout_seconds dir of (cleaned_count, rest) \<Rightarrow>
        if \<not> contains_sub ''channel'' (so_name obj) then (cleaned_count, obj # rest)
        else if \<not> so_open obj \<or> \<not> so_fstat obj \<or> \<not> so_mmap obj then (cleaned_count, obj # rest)
        else if channel_should_cleanup env timeout_seconds obj \<and> so_unlink obj then (Suc cleaned_count, rest)
        else (cleaned_count, obj # rest))"

text \<open>
  \<open>create\<close>: the first creation in a process scans for orphans, then the channel is initialised.  \<open>find\<close>
  gives what the open finds when the scan left these objects.
\<close>

definition LargeDataChannel_create ::
    "ld_env \<Rightarrow> channel_os \<Rightarrow> LargeDataChannelConfig \<Rightarrow> bool \<times> shm_object list \<Rightarrow> (shm_object list \<Rightarrow> channel_file) \<Rightarrow>
     LargeDataChannel option \<times> (bool \<times> shm_object list) \<times> channel_file" where
  "LargeDataChannel_create env os cfg = (\<lambda>(cleanup_done, dir) find.
     let dir' = (if cleanup_done then dir else snd (cleanupOrphanedChannels env 60 dir));
         (ok, file') = LargeData_initialize os cfg (find dir')
     in (if ok then Some (LargeDataChannel_init cfg) else None, (True, dir'), file'))"

subsection \<open>Blocks in the buffer\<close>

record ld_block =
  bk_seq :: u64
  bk_topic :: string
  bk_data :: bytes

definition block_size :: "ld_block \<Rightarrow> nat" where
  "block_size b = 128 + length (bk_data b)"

definition slice_is :: "ld_block \<Rightarrow> bytes \<Rightarrow> bool" where
  "slice_is b sl \<longleftrightarrow>
     length sl = block_size b \<and> length (bk_data b) < 2 ^ 32 \<and>
     lh_magic (LargeDataHeader_at sl 0) = LARGE_DATA_MAGIC \<and>
     lh_size (LargeDataHeader_at sl 0) = word_of_nat (length (bk_data b)) \<and>
     lh_sequence (LargeDataHeader_at sl 0) = bk_seq b \<and>
     lh_crc32 (LargeDataHeader_at sl 0) = calculateCRC32 (bk_data b) \<and>
     lh_topic (LargeDataHeader_at sl 0) = cstr_field 64 (bk_topic b) \<and>
     mem_read sl 128 (length (bk_data b)) = bk_data b"

lemma mem_read_mem_read:
  "k + m \<le> n \<Longrightarrow> mem_read (mem_read buf off n) k m = mem_read buf (off + k) m"
  by (simp add: mem_read_def drop_take min_def add.commute)

lemma header_of_slice:
  "128 \<le> n \<Longrightarrow> LargeDataHeader_at (mem_read buf off n) 0 = LargeDataHeader_at buf off"
  by (simp add: LargeDataHeader_at_def mem_read_mem_read)

lemma slice_isD:
  assumes "slice_is b (mem_read buf off (block_size b))"
  shows "lh_magic (LargeDataHeader_at buf off) = LARGE_DATA_MAGIC"
    "unat (lh_size (LargeDataHeader_at buf off)) = length (bk_data b)"
    "lh_sequence (LargeDataHeader_at buf off) = bk_seq b"
    "lh_crc32 (LargeDataHeader_at buf off) = calculateCRC32 (bk_data b)"
    "lh_topic (LargeDataHeader_at buf off) = cstr_field 64 (bk_topic b)"
    "mem_read buf (off + 128) (length (bk_data b)) = bk_data b"
  using assms header_of_slice [of "block_size b" buf off] mem_read_mem_read [of 128 "length (bk_data b)" "block_size b" buf off]
  by (simp_all add: slice_is_def block_size_def unat_of_nat)

definition same_outside :: "bytes \<Rightarrow> bytes \<Rightarrow> nat \<Rightarrow> nat \<Rightarrow> bool" where
  "same_outside buf buf' off n \<longleftrightarrow>
     length buf' = length buf \<and>
     (\<forall>p k. p + k \<le> off \<or> off + n \<le> p \<longrightarrow> mem_read buf' p k = mem_read buf p k)"

lemma same_outside_write:
  assumes "same_outside buf buf' off n" "off \<le> p" "p + length bs \<le> off + n" "off + n \<le> length buf"
  shows "same_outside buf (mem_write buf' p bs) off n"
  unfolding same_outside_def
proof (intro conjI allI impI)
  have len: "length buf' = length buf" using assms(1) by (simp add: same_outside_def)
  then show "length (mem_write buf' p bs) = length buf" using assms(3,4) by simp
  fix q k assume "q + k \<le> off \<or> off + n \<le> q"
  then show "mem_read (mem_write buf' p bs) q k = mem_read buf q k"
    using assms len by (subst mem_read_write_other) (auto simp: same_outside_def)
qed

lemma same_outside_refl: "same_outside buf buf off n"
  by (simp add: same_outside_def)

lemma write_block_outside:
  "off + 128 + length data \<le> length buf \<Longrightarrow> same_outside buf (write_block buf off seq topic data) off (128 + length data)"
  unfolding write_block_def Let_def sizeof_LargeDataHeader_def
  by (intro same_outside_write same_outside_refl) simp_all

lemma write_block_slice:
  assumes fit: "off + 128 + length data \<le> length buf" and len: "length data < 2 ^ 32"
  shows "slice_is \<lparr>bk_seq = seq, bk_topic = topic, bk_data = data\<rparr>
    (mem_read (write_block buf off seq topic data) off (128 + length data))"
proof -
  define b1 where "b1 = mem_write buf off (word_to_le 4 (0 :: u32))"
  define b2 where "b2 = mem_write b1 (off + 4) (word_to_le 4 (word_of_nat (length data) :: u32))"
  define b3 where "b3 = mem_write b2 (off + 8) (word_to_le 8 seq)"
  define b4 where "b4 = mem_write b3 (off + 20) (cstr_field 64 topic)"
  define b5 where "b5 = mem_write b4 (off + 128) data"
  define b6 where "b6 = mem_write b5 (off + 16) (word_to_le 4 (calculateCRC32 data))"
  define b7 where "b7 = mem_write b6 off (word_to_le 4 LARGE_DATA_MAGIC)"
  have L: "length b1 = length buf" "length b2 = length buf" "length b3 = length buf" "length b4 = length buf"
    "length b5 = length buf" "length b6 = length buf" "length b7 = length buf"
    unfolding b1_def b2_def b3_def b4_def b5_def b6_def b7_def using fit by (simp_all del: word_to_le.simps)
  note other = mem_read_write_other
  have "mem_read b7 off 4 = word_to_le 4 LARGE_DATA_MAGIC"
    unfolding b7_def using fit L by (subst mem_read_write_same_n) (simp_all del: word_to_le.simps)
  moreover have "mem_read b7 (off + 4) 4 = word_to_le 4 (word_of_nat (length data) :: u32)"
    unfolding b7_def b6_def b5_def b4_def b3_def b2_def using fit L
    by (simp add: other mem_read_write_same_n b7_def b6_def b5_def b4_def b3_def b2_def del: word_to_le.simps)
  moreover have "mem_read b7 (off + 8) 8 = word_to_le 8 seq"
    unfolding b7_def b6_def b5_def b4_def b3_def using fit L
    by (simp add: other mem_read_write_same_n b7_def b6_def b5_def b4_def b3_def del: word_to_le.simps)
  moreover have "mem_read b7 (off + 16) 4 = word_to_le 4 (calculateCRC32 data)"
    unfolding b7_def b6_def using fit L
    by (simp add: other mem_read_write_same_n b7_def b6_def del: word_to_le.simps)
  moreover have "mem_read b7 (off + 20) 64 = cstr_field 64 topic"
    unfolding b7_def b6_def b5_def b4_def using fit L
    by (simp add: other mem_read_write_same_n b7_def b6_def b5_def b4_def del: word_to_le.simps)
  moreover have "mem_read b7 (off + 128) (length data) = data"
    unfolding b7_def b6_def b5_def using fit L
    by (simp add: other mem_read_write_same_n b7_def b6_def b5_def del: word_to_le.simps)
  moreover have "write_block buf off seq topic data = b7"
    by (simp add: write_block_def Let_def sizeof_LargeDataHeader_def b7_def b6_def b5_def b4_def b3_def b2_def b1_def
        del: word_to_le.simps)
  ultimately show ?thesis
    using fit len L by (simp add: slice_is_def block_size_def header_of_slice LargeDataHeader_at_def mem_read_mem_read
        del: word_to_le.simps)
qed

subsection \<open>The queue of a reader\<close>

text \<open>
  The blocks between two positions of the unbounded byte stream; a block never crosses the end of
  the ring.
\<close>

fun vframes :: "nat \<Rightarrow> bytes \<Rightarrow> nat \<Rightarrow> ld_block list \<Rightarrow> nat \<Rightarrow> bool" where
  "vframes cap buf r [] w = (r = w)"
| "vframes cap buf r (b # bs) w =
     (r mod cap + block_size b \<le> cap \<and> slice_is b (mem_read buf (r mod cap) (block_size b)) \<and>
      vframes cap buf (r + block_size b) bs w)"

definition channel_ok :: "LargeShm \<Rightarrow> bool" where
  "channel_ok sh \<longleftrightarrow>
     length (rc_readers (ls_control sh)) = MAX_READERS \<and> length (ls_buffer sh) = rc_capacity (ls_control sh) \<and>
     0 < rc_capacity (ls_control sh) \<and>
     rc_num_readers (ls_control sh) = word_of_nat (count_if rs_active (rc_readers (ls_control sh)))"

definition reader_rep :: "LargeShm \<Rightarrow> nat \<Rightarrow> ld_block list \<Rightarrow> bool" where
  "reader_rep sh i bs \<longleftrightarrow>
     i < MAX_READERS \<and> rs_active (rc_readers (ls_control sh) ! i) \<and>
     vframes (rc_capacity (ls_control sh)) (ls_buffer sh) (rs_read_pos (rc_readers (ls_control sh) ! i)) bs
       (rc_write_pos (ls_control sh)) \<and>
     rc_write_pos (ls_control sh) \<le> rs_read_pos (rc_readers (ls_control sh) ! i) + rc_capacity (ls_control sh)"

lemma vframes_length: "vframes cap buf r bs w \<Longrightarrow> w = r + (\<Sum>b\<leftarrow>bs. block_size b)"
  by (induction bs arbitrary: r) fastforce+

lemma vframes_le: "vframes cap buf r bs w \<Longrightarrow> r \<le> w"
  by (drule vframes_length) simp

lemma vframes_snoc:
  "vframes cap buf r bs w \<Longrightarrow> w mod cap + block_size b \<le> cap \<Longrightarrow>
   slice_is b (mem_read buf (w mod cap) (block_size b)) \<Longrightarrow> vframes cap buf r (bs @ [b]) (w + block_size b)"
  by (induction bs arbitrary: r) auto

lemma mod_step:
  fixes a d cap :: nat
  assumes "d < cap"
  shows "(p + d) mod cap = (if p mod cap + d < cap then p mod cap + d else p mod cap + d - cap)"
proof -
  have "(p + d) mod cap = (p mod cap + d) mod cap" by (simp add: mod_simps)
  moreover have "p mod cap < cap" using assms by simp
  then have "p mod cap + d - cap < cap" using assms by linarith
  ultimately show ?thesis by (simp add: le_mod_geq)
qed

text \<open>The ring geometry: a write of \<open>n\<close> bytes at \<open>w\<close> is clear of every block that is still unread.\<close>

lemma ring_disjoint:
  fixes p w m n cap :: nat
  assumes "p + m \<le> w" "w + n \<le> p + cap" "0 < n" "p mod cap + m \<le> cap" "w mod cap + n \<le> cap"
  shows "p mod cap + m \<le> w mod cap \<or> w mod cap + n \<le> p mod cap"
proof -
  have d: "w = p + (w - p)" "w - p < cap" using assms(1,2,3) by auto
  then have "w mod cap = (if p mod cap + (w - p) < cap then p mod cap + (w - p) else p mod cap + (w - p) - cap)"
    using mod_step [of "w - p" cap p] by simp
  then show ?thesis using assms d by (auto split: if_splits)
qed

lemma vframes_same_outside:
  assumes "vframes cap buf r bs w" "same_outside buf buf' (w0 mod cap) n" "w \<le> w0" "w0 + n \<le> r + cap" "0 < n"
    "w0 mod cap + n \<le> cap"
  shows "vframes cap buf' r bs w"
  using assms(1,4)
proof (induction bs arbitrary: r)
  case (Cons b bs)
  have le: "r + block_size b \<le> w" using Cons.prems(1) vframes_le by auto
  have "r mod cap + block_size b \<le> w0 mod cap \<or> w0 mod cap + n \<le> r mod cap"
    using ring_disjoint [of r "block_size b" w0 n cap] le Cons.prems assms(3,5,6) by auto
  then have "mem_read buf' (r mod cap) (block_size b) = mem_read buf (r mod cap) (block_size b)"
    using assms(2) by (auto simp: same_outside_def)
  moreover have "w0 + n \<le> r + block_size b + cap" using Cons.prems(2) by simp
  ultimately show ?case using Cons by simp
qed simp

lemma getMinReadPos_le:
  "getMinReadPos c \<le> rc_write_pos c"
  "r \<in> set (rc_readers c) \<Longrightarrow> rs_active r \<Longrightarrow> getMinReadPos c \<le> rs_read_pos r"
proof -
  let ?f = "\<lambda>min_pos r. if rs_active r \<and> rs_read_pos r < min_pos then rs_read_pos r else min_pos"
  have *: "foldl ?f m rs \<le> m \<and> (\<forall>r \<in> set rs. rs_active r \<longrightarrow> foldl ?f m rs \<le> rs_read_pos r)" for m rs
  proof (induction rs arbitrary: m)
    case (Cons r rs)
    have "foldl ?f (?f m r) rs \<le> ?f m r" using Cons by blast
    then show ?case using Cons [of "?f m r"] by (auto split: if_splits)
  qed simp
  show "getMinReadPos c \<le> rc_write_pos c"
    using * unfolding getMinReadPos_def by blast
  show "r \<in> set (rc_readers c) \<Longrightarrow> rs_active r \<Longrightarrow> getMinReadPos c \<le> rs_read_pos r"
    using * unfolding getMinReadPos_def by blast
qed

text \<open>Dead readers are marked inactive; nothing else changes.\<close>

lemma cleanupDeadReaders_loop_eq:
  "cleanupDeadReaders_loop env rs n =
     (map (\<lambda>r. if reader_dead env r then r\<lparr>rs_active := False\<rparr> else r) rs, n - word_of_nat (count_if (reader_dead env) rs))"
  by (induction rs arbitrary: n) (auto simp: algebra_simps)

lemma cleanup_count:
  "count_if rs_active (map (\<lambda>r. if reader_dead env r then r\<lparr>rs_active := False\<rparr> else r) rs)
     + count_if (reader_dead env) rs = count_if rs_active rs"
  by (induction rs) (auto simp: reader_dead_def)

lemma cleanupDeadReaders_keeps:
  assumes "cleanupDeadReaders env lc c = (lc', c')"
  shows "rc_write_pos c' = rc_write_pos c" "rc_capacity c' = rc_capacity c" "rc_sequence c' = rc_sequence c"
    "length (rc_readers c') = length (rc_readers c)"
    "i < length (rc_readers c) \<Longrightarrow> rs_active (rc_readers c' ! i) \<Longrightarrow> rc_readers c' ! i = rc_readers c ! i"
    "i < length (rc_readers c) \<Longrightarrow> \<not> reader_dead env (rc_readers c ! i) \<Longrightarrow> rc_readers c' ! i = rc_readers c ! i"
    "rc_num_readers c = word_of_nat (count_if rs_active (rc_readers c)) \<Longrightarrow>
      rc_num_readers c' = word_of_nat (count_if rs_active (rc_readers c'))"
proof -
  let ?rs = "map (\<lambda>r. if reader_dead env r then r\<lparr>rs_active := False\<rparr> else r) (rc_readers c)"
  have cases: "c' = c \<or> c' = c\<lparr>rc_readers := ?rs,
      rc_num_readers := rc_num_readers c - word_of_nat (count_if (reader_dead env) (rc_readers c))\<rparr>"
    using assms by (auto simp: cleanupDeadReaders_def cleanupDeadReaders_loop_eq split: if_splits)
  then show "rc_write_pos c' = rc_write_pos c" "rc_capacity c' = rc_capacity c" "rc_sequence c' = rc_sequence c"
    "length (rc_readers c') = length (rc_readers c)" by auto
  show "i < length (rc_readers c) \<Longrightarrow> rs_active (rc_readers c' ! i) \<Longrightarrow> rc_readers c' ! i = rc_readers c ! i"
    using cases by (auto split: if_splits)
  show "i < length (rc_readers c) \<Longrightarrow> \<not> reader_dead env (rc_readers c ! i) \<Longrightarrow> rc_readers c' ! i = rc_readers c ! i"
    using cases by auto
  assume "rc_num_readers c = word_of_nat (count_if rs_active (rc_readers c))"
  moreover have "(word_of_nat (count_if rs_active (rc_readers c)) :: u32) =
      word_of_nat (count_if rs_active ?rs) + word_of_nat (count_if (reader_dead env) (rc_readers c))"
    by (simp only: flip: of_nat_add cleanup_count [of env "rc_readers c"])
  ultimately show "rc_num_readers c' = word_of_nat (count_if rs_active (rc_readers c'))"
    using cases by (auto simp del: map_map)
qed

subsection \<open>Effect of a write\<close>

definition written_block :: "int \<Rightarrow> string \<Rightarrow> bytes \<Rightarrow> ld_block" where
  "written_block res topic data = \<lparr>bk_seq = word_of_int res, bk_topic = topic, bk_data = data\<rparr>"

lemma block_size_written [simp]: "block_size (written_block res topic data) = 128 + length data"
  by (simp add: block_size_def written_block_def)

text \<open>Both outcomes of \<open>write\<close>, with the control block after the removal of dead readers.\<close>

lemma large_write_cases:
  assumes "LargeData_write env topic data (lc, ch, sh) = (res, lc', ch', sh')"
  obtains (rejected) "res = -1" "length data > ldc_max_block_size (ch_config ch)" "sh' = sh" "lc' = lc"
  | (full) c where "res = -1" "cleanupDeadReaders env lc (ls_control sh) = (lc', c)"
      "rc_write_pos c - getMinReadPos c + (128 + length data) > rc_capacity c" "sh' = sh\<lparr>ls_control := c\<rparr>"
  | (written) c off c1 where "cleanupDeadReaders env lc (ls_control sh) = (lc', c)" "res = sint (rc_sequence c)"
      "rc_write_pos c - getMinReadPos c + (128 + length data) \<le> rc_capacity c"
      "wrap_around (128 + length data) (c\<lparr>rc_writer_heartbeat := ld_now env, rc_sequence := rc_sequence c + 1\<rparr>) = (off, c1)"
      "sh' = sh\<lparr>ls_control := c1\<lparr>rc_write_pos := rc_write_pos c1 + (128 + length data)\<rparr>,
                ls_buffer := write_block (ls_buffer sh) off (rc_sequence c) topic data\<rparr>"
proof -
  obtain lc1 c where cl: "cleanupDeadReaders env lc (ls_control sh) = (lc1, c)" by fastforce
  obtain off c1 where wr: "wrap_around (128 + length data)
      (c\<lparr>rc_writer_heartbeat := ld_now env, rc_sequence := rc_sequence c + 1\<rparr>) = (off, c1)" by fastforce
  consider "length data > ldc_max_block_size (ch_config ch)"
    | "length data \<le> ldc_max_block_size (ch_config ch)" "rc_write_pos c - getMinReadPos c + (128 + length data) > rc_capacity c"
    | "length data \<le> ldc_max_block_size (ch_config ch)" "rc_write_pos c - getMinReadPos c + (128 + length data) \<le> rc_capacity c"
    by linarith
  then show ?thesis
  proof cases
    case 1
    then show ?thesis using assms rejected by (simp add: LargeData_write_def)
  next
    case 2
    then show ?thesis
      using assms full [of c] cl
      by (auto simp: LargeData_write_def sizeof_LargeDataHeader_def Let_def split: LargeDataOverflowPolicy.splits)
  next
    case 3
    then show ?thesis
      using assms written [of c off c1] cl wr
      by (auto simp: LargeData_write_def sizeof_LargeDataHeader_def Let_def)
  qed
qed

lemma wrap_around_cases:
  assumes "wrap_around n c = (off, c1)" "0 < rc_capacity c" "n \<le> rc_capacity c"
  shows "off = rc_write_pos c1 mod rc_capacity c" "off + n \<le> rc_capacity c" "rc_capacity c1 = rc_capacity c"
    "length (rc_readers c1) = length (rc_readers c)" "rc_num_readers c1 = rc_num_readers c"
    "\<And>i. i < length (rc_readers c) \<Longrightarrow> rs_active (rc_readers c1 ! i) = rs_active (rc_readers c ! i)"
    "\<And>i. wraps c n \<Longrightarrow> i < length (rc_readers c) \<Longrightarrow> rs_active (rc_readers c ! i) \<Longrightarrow>
      rs_read_pos (rc_readers c ! i) \<le> rc_write_pos c \<Longrightarrow> rs_read_pos (rc_readers c1 ! i) = rc_write_pos c1"
    "\<not> wraps c n \<Longrightarrow> c1 = c"
proof -
  let ?w = "rc_write_pos c" and ?cap = "rc_capacity c"
  have lt: "?w mod ?cap < ?cap" using assms(2) by simp
  have "(?w + (?cap - ?w mod ?cap)) mod ?cap = 0"
  proof -
    have "?w + (?cap - ?w mod ?cap) = ?cap * (?w div ?cap) + ?cap"
      using lt mult_div_mod_eq [of ?cap ?w] by linarith
    then show ?thesis by simp
  qed
  then show "off = rc_write_pos c1 mod rc_capacity c"
    using assms(1) by (auto simp: wrap_around_def Let_def split: if_splits)
  show "off + n \<le> rc_capacity c"
    using assms(1,3) by (auto simp: wrap_around_def wraps_def Let_def not_less split: if_splits)
  show "rc_capacity c1 = rc_capacity c" "length (rc_readers c1) = length (rc_readers c)"
    "rc_num_readers c1 = rc_num_readers c"
    using assms(1) by (auto simp: wrap_around_def Let_def split: if_splits)
  show "\<And>i. i < length (rc_readers c) \<Longrightarrow> rs_active (rc_readers c1 ! i) = rs_active (rc_readers c ! i)"
    using assms(1) by (auto simp: wrap_around_def Let_def skip_reader_def split: if_splits)
  show "\<And>i. wraps c n \<Longrightarrow> i < length (rc_readers c) \<Longrightarrow> rs_active (rc_readers c ! i) \<Longrightarrow>
      rs_read_pos (rc_readers c ! i) \<le> rc_write_pos c \<Longrightarrow> rs_read_pos (rc_readers c1 ! i) = rc_write_pos c1"
    using assms(1) lt by (auto simp: wrap_around_def Let_def skip_reader_def)
  show "\<not> wraps c n \<Longrightarrow> c1 = c"
    using assms(1) by (simp add: wrap_around_def Let_def)
qed

lemma count_active_cong:
  "length xs = length ys \<Longrightarrow> (\<And>i. i < length ys \<Longrightarrow> rs_active (xs ! i) = rs_active (ys ! i)) \<Longrightarrow>
   count_if rs_active xs = count_if rs_active ys"
  by (simp add: count_if_def length_filter_conv_card) (metis (no_types, lifting))

lemma count_active_update:
  "i < length rs \<Longrightarrow> rs_active r = rs_active (rs ! i) \<Longrightarrow> count_if rs_active (rs[i := r]) = count_if rs_active rs"
  using count_if_update [of i rs rs_active r] by (auto split: if_splits)

lemma large_write_ok:
  assumes ok: "channel_ok sh" and step: "LargeData_write env topic data (lc, ch, sh) = (res, lc', ch', sh')"
  shows "channel_ok sh'"
  using step
proof (cases rule: large_write_cases)
  case rejected
  then show ?thesis using ok by simp
next
  case (full c)
  then show ?thesis using ok cleanupDeadReaders_keeps [OF full(2)] by (auto simp: channel_ok_def)
next
  case (written c off c1)
  note keep = cleanupDeadReaders_keeps [OF written(1)]
  have cap: "0 < rc_capacity c" "128 + length data \<le> rc_capacity c"
    using ok keep written(3) by (auto simp: channel_ok_def)
  let ?c0 = "c\<lparr>rc_writer_heartbeat := ld_now env, rc_sequence := rc_sequence c + 1\<rparr>"
  have "0 < rc_capacity ?c0" "128 + length data \<le> rc_capacity ?c0" using cap by simp_all
  note wrap = wrap_around_cases [OF written(4) this, simplified]
  have "count_if rs_active (rc_readers c1) = count_if rs_active (rc_readers c)"
    by (rule count_active_cong) (simp_all add: wrap(4,6))
  moreover have "off + 128 + length data \<le> length (ls_buffer sh)"
    using wrap(2) ok keep(2) by (simp add: channel_ok_def)
  then have "length (write_block (ls_buffer sh) off (rc_sequence c) topic data) = length (ls_buffer sh)"
    using write_block_outside by (simp add: same_outside_def)
  moreover have "rc_num_readers c = word_of_nat (count_if rs_active (rc_readers c))"
    using ok keep(7) by (simp add: channel_ok_def)
  ultimately show ?thesis using ok keep(2,4) wrap(3,4,5) written(5) by (simp add: channel_ok_def)
qed

text \<open>What a write does to the queue of a reader that stays active.\<close>

lemma reader_rep_control:
  assumes "reader_rep sh i bs" "rc_readers c ! i = rc_readers (ls_control sh) ! i"
    "rc_write_pos c = rc_write_pos (ls_control sh)" "rc_capacity c = rc_capacity (ls_control sh)"
  shows "reader_rep (sh\<lparr>ls_control := c\<rparr>) i bs"
  using assms by (simp add: reader_rep_def)

lemma sint_nonneg_64: "(w :: u64) < 2 ^ 63 \<Longrightarrow> 0 \<le> sint w"
proof -
  assume "w < 2 ^ 63"
  then have "uint w < 2 ^ 63" by (simp add: word_less_def)
  moreover have "- (2 ^ 63) \<le> uint w" by (rule order_trans [OF _ uint_ge_0]) simp
  ultimately have "signed_take_bit 63 (uint w) = uint w" by (intro signed_take_bit_int_eq_self)
  then have "sint w = uint w" by (simp add: sint_uint)
  then show ?thesis by simp
qed

lemma reader_rep_full:
  assumes "channel_ok sh" "reader_rep sh i bs" "LargeData_write env topic data (lc, ch, sh) = (res, lc', ch', sh')"
    "res < 0" "rs_active (rc_readers (ls_control sh') ! i)" "rc_sequence (ls_control sh) < 2 ^ 63"
  shows "reader_rep sh' i bs"
  using assms(3)
proof (cases rule: large_write_cases)
  case (full c)
  note keep = cleanupDeadReaders_keeps [OF full(2)]
  have "rc_readers c ! i = rc_readers (ls_control sh) ! i"
    by (rule keep(5)) (use assms full in \<open>auto simp: reader_rep_def channel_ok_def\<close>)
  then show ?thesis using assms(2) keep full(4) by (auto intro: reader_rep_control)
next
  case (written c off c1)
  have "0 \<le> sint (rc_sequence c)"
    using cleanupDeadReaders_keeps(3) [OF written(1)] assms(6) by (simp add: sint_nonneg_64)
  then show ?thesis using assms(4) written(2) by simp
qed (use assms in simp)

lemma reader_rep_written:
  assumes ok: "channel_ok sh" and rep: "reader_rep sh i bs"
    and step: "LargeData_write env topic data (lc, ch, sh) = (res, lc', ch', sh')"
    and acc: "0 \<le> res" and act: "rs_active (rc_readers (ls_control sh') ! i)" and len: "length data < 2 ^ 32"
  shows "reader_rep sh' i ((if wraps (ls_control sh) (128 + length data) then [] else bs) @ [written_block res topic data])"
  using step
proof (cases rule: large_write_cases)
  case (written c off c1)
  note keep = cleanupDeadReaders_keeps [OF written(1)]
  let ?cap = "rc_capacity (ls_control sh)" and ?n = "128 + length data"
  let ?c0 = "c\<lparr>rc_writer_heartbeat := ld_now env, rc_sequence := rc_sequence c + 1\<rparr>"
  have cap: "0 < rc_capacity ?c0" "?n \<le> rc_capacity ?c0"
    using ok keep written(3) by (auto simp: channel_ok_def)
  note wrap = wrap_around_cases [OF written(4) cap, simplified]
  have i: "i < length (rc_readers c)" using ok rep keep by (simp add: reader_rep_def channel_ok_def)
  have acti: "rs_active (rc_readers c ! i)" using act written(5) wrap(6) [OF i] by simp
  have slot: "rc_readers c ! i = rc_readers (ls_control sh) ! i" using keep(5) i acti keep(4) by simp
  let ?r = "rs_read_pos (rc_readers c ! i)" and ?w = "rc_write_pos c"
  have frames: "vframes ?cap (ls_buffer sh) ?r bs ?w" using rep slot keep by (simp add: reader_rep_def)
  then have le: "?r \<le> ?w" by (rule vframes_le)
  have min: "getMinReadPos c \<le> ?r" using getMinReadPos_le(2) [of _ c] i acti by simp
  have room: "?w + ?n \<le> ?r + ?cap" using min le getMinReadPos_le(1) [of c] written(3) keep by simp
  let ?buf = "write_block (ls_buffer sh) off (rc_sequence c) topic data"
  have fit: "off + 128 + length data \<le> length (ls_buffer sh)"
    using wrap(2) ok keep by (simp add: channel_ok_def)
  have "word_of_int res = rc_sequence c" using written(2) by simp
  then have slice: "slice_is (written_block res topic data) (mem_read ?buf off ?n)"
    using write_block_slice [OF fit len, of "rc_sequence c" topic] by (simp add: written_block_def)
  have wr_iff: "wraps ?c0 ?n = wraps (ls_control sh) ?n" using keep by (simp add: wraps_def)
  show ?thesis
  proof (cases "wraps (ls_control sh) ?n")
    case True
    then have "rs_read_pos (rc_readers c1 ! i) = rc_write_pos c1"
      using wrap(7) wr_iff i acti le by simp
    moreover have "rc_write_pos c1 mod ?cap = off" "rc_capacity c1 = ?cap" using wrap(1,3) keep(2) by simp_all
    moreover have "off + ?n \<le> ?cap" using wrap(2) keep(2) by simp
    ultimately show ?thesis
      using True rep act slice cap(2) keep(2) by (simp add: reader_rep_def written(5))
  next
    case False
    then have c1: "c1 = ?c0" using wrap(8) wr_iff by simp
    have off: "off = ?w mod ?cap" using wrap(1) c1 keep by simp
    have "vframes ?cap ?buf ?r bs ?w"
      by (rule vframes_same_outside [OF frames _ _ room])
        (use write_block_outside [OF fit, of "rc_sequence c" topic] off wrap(2) keep in auto)
    then have "vframes ?cap ?buf ?r (bs @ [written_block res topic data]) (?w + ?n)"
      using vframes_snoc [of ?cap ?buf ?r bs ?w "written_block res topic data"] slice off wrap(2) keep by simp
    then show ?thesis
      using False rep act written(5) c1 keep room by (simp add: reader_rep_def)
  qed
qed (use acc in simp_all)

subsection \<open>Effect of a read\<close>

lemma heartbeat_slot:
  assumes "i < MAX_READERS" "length (rc_readers c) = MAX_READERS"
  shows "updateReaderHeartbeat env (int i) c = c\<lparr>rc_readers := (rc_readers c)[i := (rc_readers c ! i)\<lparr>rs_heartbeat := ld_now env\<rparr>]\<rparr>"
  using assms by (simp add: updateReaderHeartbeat_def update_reader_def)

text \<open>The state after the heartbeat of reader \<open>i\<close>; its position is never behind the minimum.\<close>

definition beaten :: "ld_env \<Rightarrow> nat \<Rightarrow> LargeShm \<Rightarrow> LargeShm" where
  "beaten env i sh = sh\<lparr>ls_control := updateReaderHeartbeat env (int i) (ls_control sh)\<rparr>"

lemma beaten_rep:
  assumes "channel_ok sh" "reader_rep sh i bs"
  shows "channel_ok (beaten env i sh)" "reader_rep (beaten env i sh) i bs"
    "rs_read_pos (rc_readers (ls_control (beaten env i sh)) ! i) = rs_read_pos (rc_readers (ls_control sh) ! i)"
    "rc_write_pos (ls_control (beaten env i sh)) = rc_write_pos (ls_control sh)"
    "rc_capacity (ls_control (beaten env i sh)) = rc_capacity (ls_control sh)"
    "ls_buffer (beaten env i sh) = ls_buffer sh"
    "rc_readers (ls_control (beaten env i sh)) ! i = (rc_readers (ls_control sh) ! i)\<lparr>rs_heartbeat := ld_now env\<rparr>"
    "rc_sequence (ls_control (beaten env i sh)) = rc_sequence (ls_control sh)"
proof -
  have i: "i < MAX_READERS" "length (rc_readers (ls_control sh)) = MAX_READERS"
    using assms by (auto simp: channel_ok_def reader_rep_def)
  have "count_if rs_active ((rc_readers (ls_control sh))[i := (rc_readers (ls_control sh) ! i)\<lparr>rs_heartbeat := ld_now env\<rparr>])
      = count_if rs_active (rc_readers (ls_control sh))"
    by (rule count_active_update) (use i in auto)
  then show "channel_ok (beaten env i sh)" "reader_rep (beaten env i sh) i bs"
    "rs_read_pos (rc_readers (ls_control (beaten env i sh)) ! i) = rs_read_pos (rc_readers (ls_control sh) ! i)"
    "rc_write_pos (ls_control (beaten env i sh)) = rc_write_pos (ls_control sh)"
    "rc_capacity (ls_control (beaten env i sh)) = rc_capacity (ls_control sh)"
    "ls_buffer (beaten env i sh) = ls_buffer sh"
    "rc_readers (ls_control (beaten env i sh)) ! i = (rc_readers (ls_control sh) ! i)\<lparr>rs_heartbeat := ld_now env\<rparr>"
    "rc_sequence (ls_control (beaten env i sh)) = rc_sequence (ls_control sh)"
    using assms i by (simp_all add: beaten_def heartbeat_slot channel_ok_def reader_rep_def)
qed

lemma tryRead_at_reader:
  assumes ok: "channel_ok sh" and rep: "reader_rep sh i bs" and rid: "ch_reader_id ch = int i"
  shows "LargeData_tryRead env block ch sh =
    (let sh1 = beaten env i sh; c = ls_control sh1; read_pos = rs_read_pos (rc_readers c ! i);
         read_offset = read_pos mod rc_capacity c; available = rc_write_pos c - read_pos
     in if bs = [] then Some (False, block, ch, sh1)
        else case validateBlock (ch_config ch) (ls_buffer sh1) read_offset available of
          None \<Rightarrow> None
        | Some LD_SUCCESS \<Rightarrow>
            Some (True, \<lparr>db_header = Some read_offset,
                         db_size = unat (lh_size (LargeDataHeader_at (ls_buffer sh1) read_offset)),
                         db_result = LD_SUCCESS\<rparr>, ch, sh1)
        | Some res \<Rightarrow>
            if res = LD_INVALID_MAGIC \<or> res = LD_INSUFFICIENT
            then Some (False, block\<lparr>db_result := res\<rparr>, ch, sh1)
            else Some (False, block\<lparr>db_result := res\<rparr>, ch,
                   sh1\<lparr>ls_control := update_reader i (\<lambda>r. r\<lparr>rs_read_pos := rs_read_pos r + sizeof_LargeDataHeader\<rparr>) c\<rparr>))"
proof -
  define sh1 where "sh1 = beaten env i sh"
  let ?c = "ls_control sh1" let ?r = "rs_read_pos (rc_readers ?c ! i)"
  have b: "channel_ok sh1" "reader_rep sh1 i bs" using beaten_rep(1,2) [OF ok rep] by (auto simp: sh1_def)
  have min: "\<not> ?r < getMinReadPos ?c"
    using getMinReadPos_le(2) [of "rc_readers ?c ! i" ?c] b by (simp add: reader_rep_def channel_ok_def)
  have frames: "vframes (rc_capacity ?c) (ls_buffer sh1) ?r bs (rc_write_pos ?c)" using b by (simp add: reader_rep_def)
  have sh1: "sh\<lparr>ls_control := updateReaderHeartbeat env (int i) (ls_control sh)\<rparr> = sh1"
    and c: "updateReaderHeartbeat env (int i) (ls_control sh) = ?c" by (simp_all add: sh1_def beaten_def)
  have buf: "ls_buffer (sh\<lparr>ls_control := x\<rparr>) = ls_buffer sh1" for x by (simp add: sh1_def beaten_def)
  have upd: "sh\<lparr>ls_control := x\<rparr> = sh1\<lparr>ls_control := x\<rparr>" for x by (simp add: sh1_def beaten_def)
  show ?thesis
  proof (cases bs)
    case Nil
    then show ?thesis
      using frames min
      by (simp add: LargeData_tryRead_def tryRead_registered_def rid c Let_def upd flip: sh1_def)
  next
    case (Cons b bs')
    then have "?r + block_size b \<le> rc_write_pos ?c" using frames vframes_le by auto
    then have "\<not> rc_write_pos ?c \<le> ?r" "\<not> rc_write_pos ?c - ?r < sizeof_LargeDataHeader"
      by (auto simp: block_size_def sizeof_LargeDataHeader_def)
    then show ?thesis
      using Cons min
      by (simp add: LargeData_tryRead_def tryRead_registered_def rid c Let_def upd flip: sh1_def
          split: option.split ReadResult.split)
  qed
qed

lemma tryRead_nil:
  assumes "channel_ok sh" "reader_rep sh i []" "ch_reader_id ch = int i"
  shows "LargeData_tryRead env block ch sh = Some (False, block, ch, beaten env i sh)"
  using tryRead_at_reader [OF assms] by simp

lemma tryRead_cons:
  assumes ok: "channel_ok sh" and rep: "reader_rep sh i (b # bs)" and rid: "ch_reader_id ch = int i"
    and small: "length (bk_data b) \<le> ldc_max_block_size (ch_config ch)"
  defines "off \<equiv> rs_read_pos (rc_readers (ls_control sh) ! i) mod rc_capacity (ls_control sh)"
  shows "LargeData_tryRead env block ch sh =
    Some (True, \<lparr>db_header = Some off, db_size = length (bk_data b), db_result = LD_SUCCESS\<rparr>, ch, beaten env i sh)"
    "slice_is b (mem_read (ls_buffer sh) off (block_size b))"
proof -
  have frame: "off + block_size b \<le> rc_capacity (ls_control sh)"
    and rest: "vframes (rc_capacity (ls_control sh)) (ls_buffer sh)
      (rs_read_pos (rc_readers (ls_control sh) ! i) + block_size b) bs (rc_write_pos (ls_control sh))"
    and slice: "slice_is b (mem_read (ls_buffer sh) off (block_size b))"
    using rep by (auto simp: reader_rep_def off_def)
  note h = slice_isD [OF slice]
  have avail: "block_size b \<le> rc_write_pos (ls_control sh) - rs_read_pos (rc_readers (ls_control sh) ! i)"
    using vframes_le [OF rest] by simp
  have "validateBlock (ch_config ch) (ls_buffer sh) off
      (rc_write_pos (ls_control sh) - rs_read_pos (rc_readers (ls_control sh) ! i)) = Some LD_SUCCESS"
    using frame avail h small ok
    by (simp add: validateBlock_def Let_def sizeof_LargeDataHeader_def block_size_def channel_ok_def)
  then show "LargeData_tryRead env block ch sh =
    Some (True, \<lparr>db_header = Some off, db_size = length (bk_data b), db_result = LD_SUCCESS\<rparr>, ch, beaten env i sh)"
    using tryRead_at_reader [OF ok rep rid, of env block] h(2) beaten_rep [OF ok rep]
    by (simp add: Let_def off_def)
  show "slice_is b (mem_read (ls_buffer sh) off (block_size b))" by (rule slice)
qed

lemma release_cons:
  assumes ok: "channel_ok sh" and rep: "reader_rep sh i (b # bs)" and rid: "ch_reader_id ch = int i"
  defines "off \<equiv> rs_read_pos (rc_readers (ls_control sh) ! i) mod rc_capacity (ls_control sh)"
  assumes rel: "LargeData_releaseBlock \<lparr>db_header = Some off, db_size = length (bk_data b), db_result = LD_SUCCESS\<rparr> ch sh = (ch', sh')"
  shows "reader_rep sh' i bs" "channel_ok sh'" "ch_reader_id ch' = int i" "ch_config ch' = ch_config ch"
    "rs_heartbeat (rc_readers (ls_control sh') ! i) = rs_heartbeat (rc_readers (ls_control sh) ! i)"
    "rs_pid (rc_readers (ls_control sh') ! i) = rs_pid (rc_readers (ls_control sh) ! i)"
    "rc_sequence (ls_control sh') = rc_sequence (ls_control sh)"
proof -
  have slice: "slice_is b (mem_read (ls_buffer sh) off (block_size b))"
    and rest: "vframes (rc_capacity (ls_control sh)) (ls_buffer sh)
      (rs_read_pos (rc_readers (ls_control sh) ! i) + block_size b) bs (rc_write_pos (ls_control sh))"
    using rep by (auto simp: reader_rep_def off_def)
  have i: "i < length (rc_readers (ls_control sh))" using ok rep by (simp add: channel_ok_def reader_rep_def)
  let ?rs = "(rc_readers (ls_control sh))[i := (rc_readers (ls_control sh) ! i)
      \<lparr>rs_read_pos := rs_read_pos (rc_readers (ls_control sh) ! i) + block_size b\<rparr>]"
  have sh': "sh' = sh\<lparr>ls_control := (ls_control sh)\<lparr>rc_readers := ?rs\<rparr>\<rparr>"
    and ch': "ch_reader_id ch' = ch_reader_id ch" "ch_config ch' = ch_config ch"
    using rel slice_isD(1) [OF slice] rid
    by (auto simp: LargeData_releaseBlock_def DataBlock_isValid_def sizeof_LargeDataHeader_def block_size_def update_reader_def Let_def)
  have "count_if rs_active ?rs = count_if rs_active (rc_readers (ls_control sh))"
    by (rule count_active_update) (use i in auto)
  then show "channel_ok sh'" using ok by (simp add: sh' channel_ok_def)
  show "reader_rep sh' i bs" using rep rest i by (simp add: sh' reader_rep_def)
  show "ch_reader_id ch' = int i" "ch_config ch' = ch_config ch" using ch' rid by simp_all
  show "rs_heartbeat (rc_readers (ls_control sh') ! i) = rs_heartbeat (rc_readers (ls_control sh) ! i)"
    "rs_pid (rc_readers (ls_control sh') ! i) = rs_pid (rc_readers (ls_control sh) ! i)"
    "rc_sequence (ls_control sh') = rc_sequence (ls_control sh)"
    using i by (simp_all add: sh')
qed

subsection \<open>The channel as a FIFO queue\<close>

text \<open>
  A writer and one reader of a channel, seen through the contract \<open>fifo_queue\<close>: putting is \<open>write\<close>,
  getting is \<open>tryRead\<close>, a look at topic and data through the handle, and \<open>releaseBlock\<close>.  The
  other readers are in the shared control block.  The state is \<open>last_cleanup\<close>, the writer's and
  the reader's channel object, and the segment.
\<close>

type_synonym ld_state = "u64 \<times> LargeDataChannel \<times> LargeDataChannel \<times> LargeShm"

definition ld_put :: "ld_env \<Rightarrow> ld_state \<Rightarrow> string \<times> bytes \<Rightarrow> bool \<times> ld_state" where
  "ld_put env q m =
     (case q of (lc, wch, rch, sh) \<Rightarrow>
        case LargeData_write env (fst m) (snd m) (lc, wch, sh) of (res, lc', wch', sh') \<Rightarrow>
          (0 \<le> res, lc', wch', rch, sh'))"

definition ld_get :: "ld_env \<Rightarrow> ld_state \<Rightarrow> (string \<times> bytes) option \<times> ld_state" where
  "ld_get env q =
     (case q of (lc, wch, rch, sh) \<Rightarrow>
        case LargeData_tryRead env DataBlock_init rch sh of
          None \<Rightarrow> (None, q)
        | Some (ok, blk, rch1, sh1) \<Rightarrow>
            if \<not> ok then (None, lc, wch, rch1, sh1)
            else let topic = DataBlock_getTopic (ls_buffer sh1) blk;
                     data = mem_read (ls_buffer sh1) (the (db_header blk) + sizeof_LargeDataHeader) (db_size blk);
                     (rch2, sh2) = LargeData_releaseBlock blk rch1 sh1
                 in (Some (topic, data), lc, wch, rch2, sh2))"

definition block_fits :: "LargeDataChannel \<Rightarrow> ld_block \<Rightarrow> bool" where
  "block_fits rch b \<longleftrightarrow> no_nul (bk_topic b) \<and> length (bk_topic b) < 64 \<and>
     length (bk_data b) \<le> ldc_max_block_size (ch_config rch)"

definition ld_rep_at :: "ld_env \<Rightarrow> ld_state \<Rightarrow> nat \<Rightarrow> ld_block list \<Rightarrow> bool" where
  "ld_rep_at env q i bs \<longleftrightarrow>
     (case q of (lc, wch, rch, sh) \<Rightarrow>
        channel_ok sh \<and> rc_sequence (ls_control sh) < 2 ^ 63 \<and> ch_reader_id rch = int i \<and>
        reader_rep sh i bs \<and> \<not> reader_dead env (rc_readers (ls_control sh) ! i) \<and> list_all (block_fits rch) bs)"

definition ld_rep :: "ld_env \<Rightarrow> ld_state \<Rightarrow> (string \<times> bytes) list \<Rightarrow> bool" where
  "ld_rep env q xs \<longleftrightarrow> (\<exists>i bs. ld_rep_at env q i bs \<and> xs = map (\<lambda>b. (bk_topic b, bk_data b)) bs)"

definition ld_safe :: "ld_state \<Rightarrow> string \<times> bytes \<Rightarrow> bool" where
  "ld_safe q m \<longleftrightarrow>
     (case q of (lc, wch, rch, sh) \<Rightarrow>
        \<not> wraps (ls_control sh) (128 + length (snd m)) \<and> no_nul (fst m) \<and> length (fst m) < 64 \<and>
        length (snd m) < 2 ^ 32 \<and> length (snd m) \<le> ldc_max_block_size (ch_config rch) \<and>
        rc_sequence (ls_control sh) < 2 ^ 63 - 1)"

lemma write_keeps_slot:
  assumes "channel_ok sh" "i < MAX_READERS" "\<not> reader_dead env (rc_readers (ls_control sh) ! i)"
    "LargeData_write env topic data (lc, ch, sh) = (res, lc', ch', sh')"
    "res < 0 \<or> \<not> wraps (ls_control sh) (128 + length data)"
    "rc_sequence (ls_control sh) < 2 ^ 63"
  shows "rc_readers (ls_control sh') ! i = rc_readers (ls_control sh) ! i"
    "rc_sequence (ls_control sh') = (if 0 \<le> res then rc_sequence (ls_control sh) + 1 else rc_sequence (ls_control sh))"
  using assms(4)
proof (atomize (full), cases rule: large_write_cases)
  case (full c)
  then show "rc_readers (ls_control sh') ! i = rc_readers (ls_control sh) ! i \<and>
    rc_sequence (ls_control sh') = (if 0 \<le> res then rc_sequence (ls_control sh) + 1 else rc_sequence (ls_control sh))"
    using cleanupDeadReaders_keeps(3,6) [OF full(2)] assms(1,2,3) by (simp add: channel_ok_def)
next
  case (written c off c1)
  note keep = cleanupDeadReaders_keeps [OF written(1)]
  let ?c0 = "c\<lparr>rc_writer_heartbeat := ld_now env, rc_sequence := rc_sequence c + 1\<rparr>"
  have res: "0 \<le> res" using written(2) keep(3) assms(6) by (simp add: sint_nonneg_64)
  then have "c1 = ?c0"
    using assms(5) written(4) keep by (auto simp: wrap_around_def wraps_def Let_def)
  then show "rc_readers (ls_control sh') ! i = rc_readers (ls_control sh) ! i \<and>
    rc_sequence (ls_control sh') = (if 0 \<le> res then rc_sequence (ls_control sh) + 1 else rc_sequence (ls_control sh))"
    using res written(5) keep(3,6) assms(1,2,3) by (simp add: channel_ok_def)
qed simp

lemma ld_put_rep:
  assumes rep: "ld_rep_at env q i bs" and put: "ld_put env q m = (ok, q')" and safe: "ok \<Longrightarrow> ld_safe q m"
  shows "\<exists>b. ld_rep_at env q' i (if ok then bs @ [b] else bs) \<and> (bk_topic b, bk_data b) = m"
proof -
  obtain lc wch rch sh where q: "q = (lc, wch, rch, sh)" by (cases q) auto
  obtain res lc' wch' sh' where w: "LargeData_write env (fst m) (snd m) (lc, wch, sh) = (res, lc', wch', sh')"
    by (cases "LargeData_write env (fst m) (snd m) (lc, wch, sh)") auto
  have q': "ok = (0 \<le> res)" "q' = (lc', wch', rch, sh')" using put w by (auto simp: ld_put_def q)
  have r: "channel_ok sh" "rc_sequence (ls_control sh) < 2 ^ 63" "ch_reader_id rch = int i" "reader_rep sh i bs"
    "\<not> reader_dead env (rc_readers (ls_control sh) ! i)" "list_all (block_fits rch) bs"
    using rep by (auto simp: ld_rep_at_def q)
  have i: "i < MAX_READERS" using r(4) by (simp add: reader_rep_def)
  have cond: "res < 0 \<or> \<not> wraps (ls_control sh) (128 + length (snd m))"
    using safe q' by (auto simp: ld_safe_def q)
  note slot = write_keeps_slot [OF r(1) i r(5) w cond r(2)]
  have act: "rs_active (rc_readers (ls_control sh') ! i)" using slot r(4) by (simp add: reader_rep_def)
  have dead: "\<not> reader_dead env (rc_readers (ls_control sh') ! i)" using slot r(5) by simp
  let ?b = "written_block res (fst m) (snd m)"
  show ?thesis
  proof (cases ok)
    case False
    then have "reader_rep sh' i bs" using reader_rep_full [OF r(1,4) w _ act r(2)] q' by simp
    then have "ld_rep_at env q' i bs"
      using False large_write_ok [OF r(1) w] slot(2) r dead q' by (simp add: ld_rep_at_def)
    then show ?thesis using False by (intro exI [of _ ?b]) (simp add: written_block_def)
  next
    case True
    then have s: "ld_safe q m" by (rule safe)
    then have "reader_rep sh' i (bs @ [?b])"
      using reader_rep_written [OF r(1,4) w _ act] True q' by (simp add: ld_safe_def q)
    moreover have "rc_sequence (ls_control sh') < 2 ^ 63"
    proof -
      have "unat (rc_sequence (ls_control sh)) < 2 ^ 63 - 1"
        using s by (simp add: ld_safe_def q word_less_nat_alt)
      moreover from this have "unat (rc_sequence (ls_control sh) + 1) = unat (rc_sequence (ls_control sh)) + 1"
        by (simp add: unat_word_ariths(1))
      ultimately show ?thesis using slot(2) True q' by (simp add: word_less_nat_alt)
    qed
    moreover have "block_fits rch ?b" using s by (simp add: ld_safe_def q block_fits_def written_block_def)
    ultimately have "ld_rep_at env q' i (bs @ [?b])"
      using large_write_ok [OF r(1) w] r dead q' by (simp add: ld_rep_at_def)
    then show ?thesis using True by (intro exI [of _ ?b]) (simp add: written_block_def)
  qed
qed

lemma not_dead_beaten:
  "\<not> reader_dead env r \<Longrightarrow> \<not> reader_dead env (r\<lparr>rs_heartbeat := ld_now env\<rparr>)"
  by (auto simp: reader_dead_def LARGE_DATA_READER_TIMEOUT_S_def)

lemma reader_dead_cong:
  "rs_active r' = rs_active r \<Longrightarrow> rs_pid r' = rs_pid r \<Longrightarrow> rs_heartbeat r' = rs_heartbeat r \<Longrightarrow>
   reader_dead env r' = reader_dead env r"
  by (simp add: reader_dead_def)

lemma ld_get_nil:
  assumes "ld_rep_at env q i []"
  shows "\<exists>q'. ld_get env q = (None, q') \<and> ld_rep_at env q' i []"
proof -
  obtain lc wch rch sh where q: "q = (lc, wch, rch, sh)" by (cases q) auto
  have r: "channel_ok sh" "reader_rep sh i []" "ch_reader_id rch = int i" "rc_sequence (ls_control sh) < 2 ^ 63"
    "\<not> reader_dead env (rc_readers (ls_control sh) ! i)"
    using assms by (auto simp: ld_rep_at_def q)
  have "ld_get env q = (None, lc, wch, rch, beaten env i sh)"
    using tryRead_nil [OF r(1,2,3)] by (simp add: ld_get_def q)
  moreover have "ld_rep_at env (lc, wch, rch, beaten env i sh) i []"
    using r beaten_rep [OF r(1,2)] not_dead_beaten [OF r(5)] by (simp add: ld_rep_at_def)
  ultimately show ?thesis by blast
qed

lemma ld_get_cons:
  assumes "ld_rep_at env q i (b # bs)"
  shows "\<exists>q'. ld_get env q = (Some (bk_topic b, bk_data b), q') \<and> ld_rep_at env q' i bs"
proof -
  obtain lc wch rch sh where q: "q = (lc, wch, rch, sh)" by (cases q) auto
  have r: "channel_ok sh" "reader_rep sh i (b # bs)" "ch_reader_id rch = int i" "rc_sequence (ls_control sh) < 2 ^ 63"
    "\<not> reader_dead env (rc_readers (ls_control sh) ! i)" "block_fits rch b" "list_all (block_fits rch) bs"
    using assms by (auto simp: ld_rep_at_def q)
  define off where "off = rs_read_pos (rc_readers (ls_control sh) ! i) mod rc_capacity (ls_control sh)"
  let ?blk = "\<lparr>db_header = Some off, db_size = length (bk_data b), db_result = LD_SUCCESS\<rparr>"
  let ?sh1 = "beaten env i sh"
  note b = beaten_rep [OF r(1,2), of env]
  have read: "LargeData_tryRead env DataBlock_init rch sh = Some (True, ?blk, rch, ?sh1)"
    and slice: "slice_is b (mem_read (ls_buffer sh) off (block_size b))"
    using tryRead_cons [OF r(1,2,3)] r(6) by (auto simp: off_def block_fits_def)
  note h = slice_isD [OF slice]
  obtain rch2 sh2 where rel: "LargeData_releaseBlock ?blk rch ?sh1 = (rch2, sh2)" by fastforce
  note a = release_cons [OF b(1,2) r(3), unfolded b(3,5), folded off_def, OF rel]
  have "DataBlock_getTopic (ls_buffer ?sh1) ?blk = bk_topic b"
    using h(5) b(6) r(6) by (simp add: DataBlock_getTopic_def block_fits_def cstr_roundtrip)
  then have "ld_get env q = (Some (bk_topic b, bk_data b), lc, wch, rch2, sh2)"
    using read rel h(6) b(6) by (simp add: ld_get_def q sizeof_LargeDataHeader_def)
  moreover have "\<not> reader_dead env (rc_readers (ls_control sh2) ! i)"
  proof -
    have "rs_active (rc_readers (ls_control sh2) ! i)" using a(1) by (simp add: reader_rep_def)
    moreover have "rs_active (rc_readers (ls_control ?sh1) ! i)" using b(2) by (simp add: reader_rep_def)
    ultimately have "reader_dead env (rc_readers (ls_control sh2) ! i) = reader_dead env (rc_readers (ls_control ?sh1) ! i)"
      using a(5,6) by (intro reader_dead_cong) auto
    then show ?thesis using not_dead_beaten [OF r(5)] b(7) by simp
  qed
  then have "ld_rep_at env (lc, wch, rch2, sh2) i bs"
    using a r(4,7) b(8) by (simp add: ld_rep_at_def block_fits_def [abs_def])
  ultimately show ?thesis by blast
qed

interpretation ld_fifo: fifo_queue "ld_put env" "ld_get env" "ld_rep env" ld_safe for env
proof
  fix q xs m q'
  assume "ld_rep env q xs" "ld_safe q m" "ld_put env q m = (True, q')"
  then show "ld_rep env q' (xs @ [m])"
    unfolding ld_rep_def using ld_put_rep [of env q _ _ m True q'] by fastforce
next
  fix q xs m q'
  assume "ld_rep env q xs" "ld_put env q m = (False, q')"
  then show "ld_rep env q' xs"
    unfolding ld_rep_def using ld_put_rep [of env q _ _ m False q'] by fastforce
next
  fix q
  assume "ld_rep env q []"
  then show "\<exists>q'. ld_get env q = (None, q') \<and> ld_rep env q' []"
    unfolding ld_rep_def using ld_get_nil by fastforce
next
  fix q x xs
  assume "ld_rep env q (x # xs)"
  then obtain i b bs where r: "ld_rep_at env q i (b # bs)" "x = (bk_topic b, bk_data b)"
    "xs = map (\<lambda>b. (bk_topic b, bk_data b)) bs"
    unfolding ld_rep_def by (auto simp: Cons_eq_map_conv)
  from ld_get_cons [OF r(1)] show "\<exists>q'. ld_get env q = (Some x, q') \<and> ld_rep env q' xs"
    unfolding ld_rep_def using r(2,3) by blast
qed

subsection \<open>Registration of readers\<close>

lemma registerReader_cases:
  assumes "registerReader env c = (rid, c')"
  obtains "rid = -1" "c' = c" "\<forall>r \<in> set (rc_readers c). rs_active r"
  | i where "rid = int i" "i < length (rc_readers c)" "\<not> rs_active (rc_readers c ! i)"
      "c' = c\<lparr>rc_readers := (rc_readers c)[i := (rc_readers c ! i)\<lparr>rs_active := True, rs_read_pos := 0,
                rs_pid := ld_pid env, rs_heartbeat := ld_now env\<rparr>], rc_num_readers := rc_num_readers c + 1\<rparr>"
proof (cases "find_index (\<lambda>r. \<not> rs_active r) (rc_readers c)")
  case None
  then have "\<forall>r \<in> set (rc_readers c). rs_active r" by (simp add: find_index_None_iff)
  then show ?thesis using assms None that(1) by (simp add: registerReader_def)
next
  case (Some i)
  then have "i < length (rc_readers c)" "\<not> rs_active (rc_readers c ! i)" by (auto dest: find_index_SomeD)
  then show ?thesis using assms that(2) [of i] Some by (simp add: registerReader_def update_reader_def Let_def)
qed

lemma word_of_nat_count_update:
  assumes "i < length xs" "(n :: u32) = word_of_nat (count_if P xs)"
  shows "P y \<Longrightarrow> \<not> P (xs ! i) \<Longrightarrow> n + 1 = word_of_nat (count_if P (xs[i := y]))"
    "\<not> P y \<Longrightarrow> P (xs ! i) \<Longrightarrow> n - 1 = word_of_nat (count_if P (xs[i := y]))"
proof -
  note u = count_if_update [OF assms(1), of P y]
  show "P y \<Longrightarrow> \<not> P (xs ! i) \<Longrightarrow> n + 1 = word_of_nat (count_if P (xs[i := y]))"
    using u assms(2) by (simp add: add.commute)
  assume "\<not> P y" "P (xs ! i)"
  then have "count_if P xs = Suc (count_if P (xs[i := y]))" using u by simp
  then show "n - 1 = word_of_nat (count_if P (xs[i := y]))" using assms(2) by simp
qed

lemma registerReader_ok:
  assumes "channel_ok sh" "registerReader env (ls_control sh) = (rid, c')"
  shows "channel_ok (sh\<lparr>ls_control := c'\<rparr>)"
  using assms(2)
proof (cases rule: registerReader_cases)
  case (2 i)
  then show ?thesis
    using assms(1) word_of_nat_count_update(1) [of i "rc_readers (ls_control sh)" _ rs_active]
    by (simp add: channel_ok_def)
qed (use assms in simp)

lemma unregisterReader_ok:
  assumes "channel_ok sh" "0 \<le> rid" "nat rid < MAX_READERS" "rs_active (rc_readers (ls_control sh) ! nat rid)"
  shows "channel_ok (sh\<lparr>ls_control := unregisterReader rid (ls_control sh)\<rparr>)"
proof -
  have "\<not> int MAX_READERS \<le> rid" using assms(2,3) by linarith
  then show ?thesis
    using assms word_of_nat_count_update(2) [of "nat rid" "rc_readers (ls_control sh)" _ rs_active]
    by (simp add: unregisterReader_def channel_ok_def update_reader_def Let_def)
qed

lemma cleanupDeadReaders_ok:
  "channel_ok sh \<Longrightarrow> cleanupDeadReaders env lc (ls_control sh) = (lc', c') \<Longrightarrow> channel_ok (sh\<lparr>ls_control := c'\<rparr>)"
  using cleanupDeadReaders_keeps [of env lc "ls_control sh" lc' c'] by (auto simp: channel_ok_def)

subsection \<open>Properties of the large data channel\<close>

definition example_ld_env :: ld_env where
  "example_ld_env = \<lparr>ld_now = 1000, ld_pid = 7, ld_kill = (\<lambda>_. KILL_OK)\<rparr>"

definition example_ld_config :: LargeDataChannelConfig where
  "example_ld_config = \<lparr>ldc_buffer_size = 512, ldc_max_block_size = 256, ldc_max_readers = 8, ldc_overflow_policy = LD_DROP_NEWEST\<rparr>"

definition example_ld_os :: channel_os where
  "example_ld_os = \<lparr>co_open = True, co_fstat = True, co_ftruncate = True, co_mmap = True, co_page_size = 4096, co_pid = 7\<rparr>"

definition example_ld_shm :: LargeShm where
  "example_ld_shm = (created_shm example_ld_os example_ld_config)
     \<lparr>ls_control := snd (registerReader example_ld_env (ls_control (created_shm example_ld_os example_ld_config)))\<rparr>"

definition example_ld_reader :: LargeDataChannel where
  "example_ld_reader = (LargeDataChannel_init example_ld_config)\<lparr>ch_reader_id := 0\<rparr>"

lemma channel_ok_created: "0 < ldc_buffer_size cfg \<Longrightarrow> channel_ok (created_shm os cfg)"
  by (simp add: channel_ok_def created_shm_def ReaderSlot_init_def count_if_def)

lemma example_ld_control:
  "ls_control example_ld_shm = (ls_control (created_shm example_ld_os example_ld_config))
     \<lparr>rc_readers := (replicate 16 ReaderSlot_init)[0 := \<lparr>rs_read_pos = 0, rs_heartbeat = 1000, rs_pid = 7, rs_active = True\<rparr>],
      rc_num_readers := 1\<rparr>"
proof -
  have "replicate MAX_READERS ReaderSlot_init = ReaderSlot_init # replicate 15 ReaderSlot_init"
    by (simp add: MAX_READERS_def numeral_eq_Suc)
  moreover have "replicate 16 ReaderSlot_init = ReaderSlot_init # replicate 15 ReaderSlot_init"
    by (simp add: numeral_eq_Suc)
  ultimately show ?thesis
    by (simp add: example_ld_shm_def created_shm_def registerReader_def update_reader_def ReaderSlot_init_def
        example_ld_env_def)
qed

lemma example_ld_rep: "ld_rep_at example_ld_env (0, LargeDataChannel_init example_ld_config, example_ld_reader, example_ld_shm) 0 []"
proof -
  have "channel_ok (created_shm example_ld_os example_ld_config)"
    by (rule channel_ok_created) (simp add: example_ld_config_def)
  then have "channel_ok example_ld_shm"
    unfolding example_ld_shm_def by (rule registerReader_ok [of _ example_ld_env]) (rule prod.collapse [symmetric])
  then show ?thesis
    by (simp add: ld_rep_at_def reader_rep_def example_ld_control example_ld_reader_def MAX_READERS_def)
      (simp add: created_shm_def reader_dead_def LargeData_isProcessAlive_def example_ld_env_def
        LARGE_DATA_READER_TIMEOUT_S_def)
qed

text \<open>C9: For every sequence of writes and reads in which no write wraps around the end of the
  buffer, a registered live reader receives exactly the accepted blocks, in order, with their
  topics and bytes: what it had pending plus what was accepted is what it received plus what is
  still pending.\<close>

theorem large_channel_fifo:
  assumes "ld_rep env q pending" "run_safe ld_safe (ld_put env) (ld_get env) ops q"
    "run_queue (ld_put env) (ld_get env) ops q = (accepted, received, q')"
  shows "\<exists>pending'. ld_rep env q' pending' \<and> pending @ accepted = received @ pending'"
  using ld_fifo.run_fifo [OF assms] .

theorem large_channel_fifo_witness:
  "let q = (0, LargeDataChannel_init example_ld_config, example_ld_reader, example_ld_shm);
       (accepted, received, q') = run_queue (ld_put example_ld_env) (ld_get example_ld_env) [Put (''t'', [1, 2]), Get] q
   in \<exists>pending'. ld_rep example_ld_env q' pending' \<and> accepted = received @ pending'"
proof -
  let ?q = "(0, LargeDataChannel_init example_ld_config, example_ld_reader, example_ld_shm)"
  obtain a r q' where run: "run_queue (ld_put example_ld_env) (ld_get example_ld_env) [Put (''t'', [1, 2]), Get] ?q = (a, r, q')"
    using prod_cases3 by blast
  have "ld_rep example_ld_env ?q []" using example_ld_rep by (auto simp: ld_rep_def)
  moreover have "run_safe ld_safe (ld_put example_ld_env) (ld_get example_ld_env) [Put (''t'', [1, 2]), Get] ?q"
    by (simp add: ld_safe_def example_ld_control created_shm_def wraps_def example_ld_config_def no_nul_def
        example_ld_reader_def LargeDataChannel_init_def)
  ultimately have "\<exists>pending'. ld_rep example_ld_env q' pending' \<and> [] @ a = r @ pending'"
    using run by (rule large_channel_fifo)
  then show ?thesis unfolding Let_def run by simp
qed

text \<open>C25: The effect of an accepted write on a reader that stays active: its block is appended to what
  the reader still has to read, but when the write wraps around the end of the buffer all blocks
  that were unread are lost first.  A refused write changes no queue.\<close>

theorem large_write_effect:
  assumes "channel_ok sh" "reader_rep sh i bs" "LargeData_write env topic data (lc, ch, sh) = (res, lc', ch', sh')"
    "rs_active (rc_readers (ls_control sh') ! i)" "length data < 2 ^ 32" "rc_sequence (ls_control sh) < 2 ^ 63"
  shows "channel_ok sh' \<and>
    reader_rep sh' i (if res < 0 then bs
      else (if wraps (ls_control sh) (128 + length data) then [] else bs) @ [written_block res topic data])"
  using assms large_write_ok [OF assms(1,3)] reader_rep_full [OF assms(1,2,3) _ assms(4,6)]
    reader_rep_written [OF assms(1,2,3) _ assms(4,5)] by (simp add: not_less)

theorem large_write_effect_witness:
  "case LargeData_write example_ld_env ''t'' [1] (0, LargeDataChannel_init example_ld_config, example_ld_shm) of
     (res, lc', ch', sh') \<Rightarrow> res = 0 \<and> reader_rep sh' 0 [written_block 0 ''t'' [1]]"
proof -
  obtain res lc' ch' sh' where w:
    "LargeData_write example_ld_env ''t'' [1] (0, LargeDataChannel_init example_ld_config, example_ld_shm) = (res, lc', ch', sh')"
    using prod_cases4 by blast
  have ok: "channel_ok example_ld_shm" and rep: "reader_rep example_ld_shm 0 []"
    and dead: "\<not> reader_dead example_ld_env (rc_readers (ls_control example_ld_shm) ! 0)"
    using example_ld_rep by (simp_all add: ld_rep_at_def)
  have nowrap: "\<not> wraps (ls_control example_ld_shm) (128 + length [1 :: u8])"
    by (simp add: wraps_def example_ld_control created_shm_def example_ld_config_def)
  have seq: "rc_sequence (ls_control example_ld_shm) = 0" by (simp add: example_ld_control created_shm_def)
  have act: "rs_active (rc_readers (ls_control sh') ! 0)"
    using write_keeps_slot(1) [OF ok _ dead w] rep nowrap seq by (simp add: reader_rep_def)
  have "res = 0"
    using w
  proof (cases rule: large_write_cases)
    case (full c)
    then show ?thesis
      using cleanupDeadReaders_keeps(1,2) [OF full(2)]
      by (simp add: example_ld_control created_shm_def example_ld_config_def)
  next
    case (written c off c1)
    then show ?thesis using cleanupDeadReaders_keeps(3) [OF written(1)] seq by simp
  qed (simp add: LargeDataChannel_init_def example_ld_config_def)
  then show ?thesis
    using large_write_effect [OF ok rep w act] nowrap w seq by simp
qed

lemma getMinReadPos_attained:
  assumes "length (rc_readers c) = MAX_READERS" "i < MAX_READERS" "rs_active (rc_readers c ! i)"
  shows "getMinReadPos c \<le> rs_read_pos (rc_readers c ! i)"
  by (rule getMinReadPos_le(2)) (use assms in auto)

text \<open>C26: Writes stay inside the buffer: an accepted write of a block changes bytes only inside
  \<open>[off, off + size)\<close> with \<open>off + size\<close> at most the capacity, and advances the write position by the
  size of the block, plus the unused rest of the ring when it wraps.\<close>

theorem large_write_bounds:
  assumes "channel_ok sh" "LargeData_write env topic data (lc, ch, sh) = (res, lc', ch', sh')" "0 \<le> res"
  shows "\<exists>off. off + (128 + length data) \<le> rc_capacity (ls_control sh) \<and>
    same_outside (ls_buffer sh) (ls_buffer sh') off (128 + length data) \<and>
    rc_write_pos (ls_control sh') = rc_write_pos (ls_control sh) + (128 + length data) +
      (if wraps (ls_control sh) (128 + length data)
       then rc_capacity (ls_control sh) - rc_write_pos (ls_control sh) mod rc_capacity (ls_control sh) else 0)"
  using assms(2)
proof (cases rule: large_write_cases)
  case (written c off c1)
  note keep = cleanupDeadReaders_keeps [OF written(1)]
  let ?c0 = "c\<lparr>rc_writer_heartbeat := ld_now env, rc_sequence := rc_sequence c + 1\<rparr>"
  have cap: "0 < rc_capacity ?c0" "128 + length data \<le> rc_capacity ?c0"
    using assms(1) keep written(3) by (auto simp: channel_ok_def)
  have fit: "off + (128 + length data) \<le> rc_capacity (ls_control sh)"
    using wrap_around_cases(2) [OF written(4) cap] keep(2) by simp
  moreover have "same_outside (ls_buffer sh) (ls_buffer sh') off (128 + length data)"
    using write_block_outside [of off data "ls_buffer sh"] fit assms(1) written(5) by (simp add: channel_ok_def)
  moreover have "rc_write_pos c1 = rc_write_pos (ls_control sh) + (if wraps (ls_control sh) (128 + length data)
      then rc_capacity (ls_control sh) - rc_write_pos (ls_control sh) mod rc_capacity (ls_control sh) else 0)"
    using written(4) keep(1,2) by (auto simp: wrap_around_def wraps_def Let_def split: if_splits)
  ultimately show ?thesis using written(5) by (intro exI [of _ off]) simp
qed (use assms(3) in simp_all)

theorem large_write_bounds_witness:
  "case LargeData_write example_ld_env ''t'' [1] (0, LargeDataChannel_init example_ld_config, example_ld_shm) of
     (res, lc', ch', sh') \<Rightarrow> 0 \<le> res \<longrightarrow> rc_write_pos (ls_control sh') = 129"
proof (clarsimp split: prod.split, goal_cases)
  case (1 res lc' ch' sh')
  have "channel_ok example_ld_shm" using example_ld_rep by (simp add: ld_rep_at_def)
  from large_write_bounds [OF this 1(1,2)] show ?case
    by (auto simp: wraps_def example_ld_control created_shm_def example_ld_config_def)
qed

text \<open>A sequence of writes, each in its own environment, with their results.\<close>

fun write_run ::
    "(ld_env \<times> string \<times> bytes) list \<Rightarrow> u64 \<times> LargeDataChannel \<times> LargeShm \<Rightarrow> int list \<times> u64 \<times> LargeDataChannel \<times> LargeShm" where
  "write_run [] st = ([], st)"
| "write_run ((env, topic, data) # ws) st =
     (case LargeData_write env topic data st of (res, st1) \<Rightarrow>
        case write_run ws st1 of (ress, st2) \<Rightarrow> (res # ress, st2))"

definition stuck_reader :: "LargeShm \<Rightarrow> nat \<Rightarrow> ReaderSlot \<Rightarrow> bool" where
  "stuck_reader sh i r \<longleftrightarrow>
     i < length (rc_readers (ls_control sh)) \<and> rc_readers (ls_control sh) ! i = r \<and> rs_active r \<and> rs_read_pos r = 0 \<and>
     rc_capacity (ls_control sh) \<le> rc_write_pos (ls_control sh)"

lemma stuck_reader_min: "stuck_reader sh i r \<Longrightarrow> getMinReadPos (ls_control sh) = 0"
  using getMinReadPos_le(2) [of r "ls_control sh"] by (auto simp: stuck_reader_def)

lemma stuck_reader_write:
  assumes "stuck_reader sh i r" "\<not> reader_dead env r" "LargeData_write env topic data (lc, ch, sh) = (res, lc', ch', sh')"
  shows "res = -1" "stuck_reader sh' i r" "rc_write_pos (ls_control sh') = rc_write_pos (ls_control sh)" "ls_buffer sh' = ls_buffer sh"
proof -
  have keep: "stuck_reader (sh\<lparr>ls_control := c\<rparr>) i r" "rc_write_pos c = rc_write_pos (ls_control sh)"
    if "cleanupDeadReaders env lc (ls_control sh) = (lc', c)" for c
    using assms(1,2) cleanupDeadReaders_keeps [OF that] by (auto simp: stuck_reader_def)
  have "res = -1 \<and> stuck_reader sh' i r \<and> rc_write_pos (ls_control sh') = rc_write_pos (ls_control sh) \<and> ls_buffer sh' = ls_buffer sh"
    using assms(3)
  proof (cases rule: large_write_cases)
    case (written c off c1)
    then show ?thesis
      using keep(1) [OF written(1)] stuck_reader_min [OF keep(1) [OF written(1)]] by (simp add: stuck_reader_def)
  next
    case (full c)
    then show ?thesis using keep [OF full(2)] by simp
  qed (use assms(1) in simp)
  then show "res = -1" "stuck_reader sh' i r" "rc_write_pos (ls_control sh') = rc_write_pos (ls_control sh)" "ls_buffer sh' = ls_buffer sh"
    by auto
qed

lemma stuck_reader_run:
  assumes "stuck_reader sh i r" "\<forall>w \<in> set ws. \<not> reader_dead (fst w) r" "write_run ws (lc, ch, sh) = (ress, lc', ch', sh')"
  shows "ress = replicate (length ws) (-1) \<and> stuck_reader sh' i r \<and>
    rc_write_pos (ls_control sh') = rc_write_pos (ls_control sh) \<and> ls_buffer sh' = ls_buffer sh"
  using assms
proof (induction ws arbitrary: lc ch sh ress)
  case (Cons w ws)
  obtain env topic data where w: "w = (env, topic, data)" by (metis prod_cases3)
  obtain res lc1 ch1 sh1 where s: "LargeData_write env topic data (lc, ch, sh) = (res, lc1, ch1, sh1)" using prod_cases4 by blast
  obtain ress1 where r: "write_run ws (lc1, ch1, sh1) = (ress1, lc', ch', sh')" "ress = res # ress1"
    using Cons.prems(3) s w by (auto split: prod.splits)
  note st = stuck_reader_write [OF Cons.prems(1) _ s]
  show ?case using Cons.IH [OF st(2) _ r(1)] st Cons.prems(2) r(2) w by simp
qed simp

text \<open>The first \<open>tryRead\<close> of a reader on a channel whose writer is past the first lap.\<close>

lemma late_tryRead:
  assumes "channel_ok sh" "rc_capacity (ls_control sh) \<le> rc_write_pos (ls_control sh)" "ch_reader_id rch < 0"
    "LargeData_tryRead env blk rch sh = Some (True, blk', rch', sh1)"
  shows "\<exists>i r. ch_reader_id rch' = int i \<and> stuck_reader sh1 i r" "db_header blk' = Some 0" "DataBlock_isValid (ls_buffer sh1) blk'"
    "rc_write_pos (ls_control sh1) = rc_write_pos (ls_control sh)"
proof -
  obtain rid c where reg: "registerReader env (ls_control sh) = (rid, c)" by fastforce
  have rid: "0 \<le> rid" and read: "tryRead_registered env blk (rch\<lparr>ch_reader_id := rid\<rparr>) (sh\<lparr>ls_control := c\<rparr>) = Some (True, blk', rch', sh1)"
    using assms(3,4) reg by (auto simp: LargeData_tryRead_def Let_def split: if_splits)
  from reg rid obtain i where i: "rid = int i" "i < length (rc_readers (ls_control sh))"
    "c = (ls_control sh)\<lparr>rc_readers := (rc_readers (ls_control sh))[i := (rc_readers (ls_control sh) ! i)\<lparr>rs_active := True, rs_read_pos := 0,
                rs_pid := ld_pid env, rs_heartbeat := ld_now env\<rparr>], rc_num_readers := rc_num_readers (ls_control sh) + 1\<rparr>"
    by (cases rule: registerReader_cases) auto
  let ?r = "(rc_readers (ls_control sh) ! i)\<lparr>rs_active := True, rs_read_pos := 0, rs_pid := ld_pid env, rs_heartbeat := ld_now env\<rparr>"
  have same: "updateReaderHeartbeat env rid c = c"
    using i by (simp add: updateReaderHeartbeat_def update_reader_def)
  have stuck: "stuck_reader (sh\<lparr>ls_control := c\<rparr>) i ?r"
    using i assms(2) by (simp add: stuck_reader_def)
  then have min: "getMinReadPos c = 0" using stuck_reader_min by fastforce
  have pos: "rs_read_pos (rc_readers c ! i) = 0" using i by simp
  have fin: "sh1 = sh\<lparr>ls_control := c\<rparr> \<and> rch' = rch\<lparr>ch_reader_id := rid\<rparr> \<and> db_header blk' = Some 0 \<and> db_result blk' = LD_SUCCESS \<and>
      lh_magic (LargeDataHeader_at (ls_buffer sh) 0) = LARGE_DATA_MAGIC"
    using read i(1) same min pos
    by (auto simp: tryRead_registered_def Let_def validateBlock_def split: if_splits option.splits ReadResult.splits)
  show "\<exists>i r. ch_reader_id rch' = int i \<and> stuck_reader sh1 i r" using fin stuck i(1) by auto
  show "db_header blk' = Some 0" "DataBlock_isValid (ls_buffer sh1) blk'" "rc_write_pos (ls_control sh1) = rc_write_pos (ls_control sh)"
    using fin i(3) by (auto simp: DataBlock_isValid_def)
qed

text \<open>C36: A reader that starts on a channel whose writer is past the first lap stops the writer.  Its
  first \<open>tryRead\<close> registers it at position 0; as this is the minimum over all readers, it is not moved
  forward to the current lap, and the block it gets is the one at the start of the buffer.  From then
  on every write is refused, whatever its size, as long as the reader is not counted as dead and has
  not released the block; the release moves the reader on by that one block only.\<close>

theorem late_reader_blocks_writer:
  assumes "channel_ok sh" "rc_capacity (ls_control sh) \<le> rc_write_pos (ls_control sh)" "ch_reader_id rch < 0"
    "LargeData_tryRead env blk rch sh = Some (True, blk', rch', sh1)"
    "\<forall>w \<in> set ws. \<not> reader_dead (fst w) (rc_readers (ls_control sh1) ! nat (ch_reader_id rch'))"
    "write_run ws (lc, ch, sh1) = (results, lc', ch', sh2)"
  shows "db_header blk' = Some 0 \<and> results = replicate (length ws) (-1) \<and>
    rc_write_pos (ls_control sh2) = rc_write_pos (ls_control sh) \<and> ls_buffer sh2 = ls_buffer sh1 \<and>
    rs_read_pos (rc_readers (ls_control sh2) ! nat (ch_reader_id rch')) = 0 \<and>
    rs_read_pos (rc_readers (ls_control (snd (LargeData_releaseBlock blk' rch' sh2))) ! nat (ch_reader_id rch')) = 128 + db_size blk'"
proof -
  note tr = late_tryRead [OF assms(1-4)]
  obtain i r where i: "ch_reader_id rch' = int i" "stuck_reader sh1 i r" using tr(1) by blast
  have "\<forall>w \<in> set ws. \<not> reader_dead (fst w) r" using assms(5) i by (simp add: stuck_reader_def)
  note run = stuck_reader_run [OF i(2) this assms(6)]
  have "DataBlock_isValid (ls_buffer sh2) blk'" using tr(3) run by simp
  then have "rs_read_pos (rc_readers (ls_control (snd (LargeData_releaseBlock blk' rch' sh2))) ! i) = 128 + db_size blk'"
    using i(1) run by (auto simp: LargeData_releaseBlock_def update_reader_def Let_def sizeof_LargeDataHeader_def stuck_reader_def)
  then show ?thesis using tr(2,4) run i(1) by (auto simp: stuck_reader_def)
qed


definition example_lapped :: LargeShm where
  "example_lapped = (created_shm example_ld_os example_ld_config)
     \<lparr>ls_control := (ls_control (created_shm example_ld_os example_ld_config))\<lparr>rc_write_pos := 512\<rparr>,
      ls_buffer := write_block (replicate 512 0) 0 0 ''t'' [1]\<rparr>"

lemma example_lapped_facts:
  "channel_ok example_lapped" "rc_write_pos (ls_control example_lapped) = 512" "rc_capacity (ls_control example_lapped) = 512"
  "rc_readers (ls_control example_lapped) = ReaderSlot_init # replicate 15 ReaderSlot_init"
  "validateBlock example_ld_config (ls_buffer example_lapped) 0 512 = Some LD_SUCCESS"
proof -
  have buf: "length (ls_buffer example_lapped) = 512"
    using write_block_outside [of 0 "[1]" "replicate 512 0" 0 "''t''"] by (simp add: example_lapped_def same_outside_def)
  have "slice_is \<lparr>bk_seq = 0, bk_topic = ''t'', bk_data = [1]\<rparr> (mem_read (ls_buffer example_lapped) 0 129)"
    using write_block_slice [of 0 "[1]" "replicate 512 0" 0 "''t''"] by (simp add: example_lapped_def)
  then show "validateBlock example_ld_config (ls_buffer example_lapped) 0 512 = Some LD_SUCCESS"
    using slice_isD [of "\<lparr>bk_seq = 0, bk_topic = ''t'', bk_data = [1]\<rparr>" "ls_buffer example_lapped" 0] buf
    by (simp add: validateBlock_def block_size_def sizeof_LargeDataHeader_def example_ld_config_def Let_def)
  show "channel_ok example_lapped"
    using channel_ok_created [of example_ld_config example_ld_os] buf
    by (simp add: channel_ok_def example_ld_config_def)
      (simp add: example_lapped_def created_shm_def example_ld_config_def)
  show "rc_write_pos (ls_control example_lapped) = 512" "rc_capacity (ls_control example_lapped) = 512"
    "rc_readers (ls_control example_lapped) = ReaderSlot_init # replicate 15 ReaderSlot_init"
    by (simp_all add: example_lapped_def created_shm_def example_ld_config_def MAX_READERS_def numeral_eq_Suc)
qed

theorem late_reader_blocks_writer_witness:
  "case LargeData_tryRead example_ld_env \<lparr>db_header = None, db_size = 0, db_result = LD_INSUFFICIENT\<rparr>
       (LargeDataChannel_init example_ld_config) example_lapped of
     None \<Rightarrow> False
   | Some (got, blk', rch', sh1) \<Rightarrow>
       (case write_run [(example_ld_env, ''t'', [1]), (example_ld_env, ''u'', [])] (0, LargeDataChannel_init example_ld_config, sh1) of
          (results, lc', ch', sh2) \<Rightarrow> got \<and> results = [-1, -1] \<and> rc_write_pos (ls_control sh2) = 512)"
proof -
  let ?blk = "\<lparr>db_header = None, db_size = 0, db_result = LD_INSUFFICIENT\<rparr>" and ?ch = "LargeDataChannel_init example_ld_config"
  let ?ws = "[(example_ld_env, ''t'', [1]), (example_ld_env, ''u'', [])]"
  let ?slot = "\<lparr>rs_read_pos = 0, rs_heartbeat = 1000, rs_pid = 7, rs_active = True\<rparr>"
  let ?c = "(ls_control example_lapped)\<lparr>rc_readers := ?slot # replicate 15 ReaderSlot_init, rc_num_readers := 1\<rparr>"
  have num: "rc_num_readers (ls_control example_lapped) = 0" by (simp add: example_lapped_def created_shm_def)
  have reg: "registerReader example_ld_env (ls_control example_lapped) = (0, ?c)"
    by (simp add: registerReader_def update_reader_def Let_def example_lapped_facts(4) num ReaderSlot_init_def example_ld_env_def)
  have min: "getMinReadPos ?c = 0"
    using getMinReadPos_le(2) [of ?slot ?c] by simp
  have beat: "updateReaderHeartbeat example_ld_env 0 ?c = ?c"
    by (simp add: updateReaderHeartbeat_def update_reader_def MAX_READERS_def example_ld_env_def)
  obtain blk' where t: "LargeData_tryRead example_ld_env ?blk ?ch example_lapped =
      Some (True, blk', ?ch\<lparr>ch_reader_id := 0\<rparr>, example_lapped\<lparr>ls_control := ?c\<rparr>)"
    using reg min beat example_lapped_facts
    by (simp add: LargeData_tryRead_def tryRead_registered_def Let_def LargeDataChannel_init_def sizeof_LargeDataHeader_def)
  obtain results lc' ch' sh2 where w: "write_run ?ws (0, ?ch, example_lapped\<lparr>ls_control := ?c\<rparr>) = (results, lc', ch', sh2)"
    by (metis prod_cases4)
  have alive: "\<forall>w \<in> set ?ws. \<not> reader_dead (fst w) (rc_readers (ls_control (example_lapped\<lparr>ls_control := ?c\<rparr>)) ! nat (ch_reader_id (?ch\<lparr>ch_reader_id := 0\<rparr>)))"
    by (simp add: reader_dead_def example_ld_env_def LargeData_isProcessAlive_def LARGE_DATA_READER_TIMEOUT_S_def)
  have "ch_reader_id ?ch < 0" by (simp add: LargeDataChannel_init_def)
  from late_reader_blocks_writer [OF example_lapped_facts(1) _ this t alive w] example_lapped_facts(2,3)
  have "results = [-1, -1] \<and> rc_write_pos (ls_control sh2) = 512" by (simp add: numeral_eq_Suc)
  then show ?thesis by (simp only: t w option.case prod.case simp_thms)
qed
text \<open>C37: A reader that holds a block while the writer wraps is thrown off the block boundaries: the
  writer moves its position to the new lap, and the later release adds the size of the old block
  on top, so that the position differs from the end of the new block by the difference of the two
  sizes.  Blocks of equal size are skipped unread; otherwise the position is inside or behind the
  new block.\<close>

theorem release_after_wrap_misplaces:
  assumes "channel_ok sh" "reader_rep sh i (b # bs)" "ch_reader_id rch = int i"
    "LargeData_write env topic data (lc, ch, sh) = (res, lc', ch', sh')" "0 \<le> res"
    "wraps (ls_control sh) (128 + length data)" "rs_active (rc_readers (ls_control sh') ! i)" "length data < 2 ^ 32"
    "db_size blk = length (bk_data b)" "DataBlock_isValid (ls_buffer sh') blk"
    "LargeData_releaseBlock blk rch sh' = (rch', sh'')"
  shows "rs_read_pos (rc_readers (ls_control sh'') ! i) + (128 + length data) = rc_write_pos (ls_control sh'') + block_size b"
proof -
  have rep: "reader_rep sh' i [written_block res topic data]"
    using reader_rep_written [OF assms(1,2,4,5,7,8)] assms(6) by simp
  then have pos: "rc_write_pos (ls_control sh') = rs_read_pos (rc_readers (ls_control sh') ! i) + (128 + length data)"
    by (auto simp: reader_rep_def)
  have "i < length (rc_readers (ls_control sh'))"
    using large_write_ok [OF assms(1,4)] rep by (simp add: channel_ok_def reader_rep_def)
  then show ?thesis
    using assms(3,9,10,11) pos
    by (auto simp: LargeData_releaseBlock_def update_reader_def block_size_def sizeof_LargeDataHeader_def Let_def)
qed

text \<open>A segment of 512 bytes whose reader 0 holds a block of 22 bytes at offset 256; the next 72 bytes wrap.\<close>

definition example_held :: LargeShm where
  "example_held = example_ld_shm\<lparr>ls_control := (ls_control example_ld_shm)
       \<lparr>rc_write_pos := 406, rc_readers := (rc_readers (ls_control example_ld_shm))
          [0 := \<lparr>rs_read_pos = 256, rs_heartbeat = 1000, rs_pid = 7, rs_active = True\<rparr>]\<rparr>,
     ls_buffer := write_block (replicate 512 0) 256 0 ''t'' (replicate 22 1)\<rparr>"

definition example_held_block :: ld_block where
  "example_held_block = \<lparr>bk_seq = 0, bk_topic = ''t'', bk_data = replicate 22 1\<rparr>"

lemma example_held_control:
  "rc_readers (ls_control example_held) = (replicate 16 ReaderSlot_init)[0 := \<lparr>rs_read_pos = 256, rs_heartbeat = 1000, rs_pid = 7, rs_active = True\<rparr>]"
  "rc_write_pos (ls_control example_held) = 406" "rc_capacity (ls_control example_held) = 512"
  "rc_sequence (ls_control example_held) = 0" "rc_num_readers (ls_control example_held) = 1"
  by (simp_all add: example_held_def example_ld_control created_shm_def example_ld_config_def)

lemma example_held_buffer:
  "length (ls_buffer example_held) = 512" "slice_is example_held_block (mem_read (ls_buffer example_held) 256 150)"
  using write_block_outside [of 256 "replicate 22 1" "replicate 512 0" 0 "''t''"]
    write_block_slice [of 256 "replicate 22 1" "replicate 512 0" 0 "''t''"]
  by (simp_all add: example_held_def example_held_block_def same_outside_def)

lemma example_held_ok: "channel_ok example_held" "reader_rep example_held 0 [example_held_block]"
proof -
  have "count_if rs_active (rc_readers (ls_control example_held)) = 1"
    unfolding example_held_control
    using count_if_update [of 0 "replicate 16 ReaderSlot_init" rs_active
        "\<lparr>rs_read_pos = 256, rs_heartbeat = 1000, rs_pid = 7, rs_active = True\<rparr>"]
    by (simp add: ReaderSlot_init_def count_if_def)
  then show "channel_ok example_held"
    using example_held_buffer by (simp add: channel_ok_def example_held_control MAX_READERS_def)
  show "reader_rep example_held 0 [example_held_block]"
    using example_held_buffer(2)
    by (simp add: reader_rep_def example_held_control MAX_READERS_def) (simp add: example_held_block_def block_size_def)
qed

lemma getMinReadPos_ge:
  assumes "m \<le> rc_write_pos c" "\<And>r. r \<in> set (rc_readers c) \<Longrightarrow> rs_active r \<Longrightarrow> m \<le> rs_read_pos r"
  shows "m \<le> getMinReadPos c"
proof -
  have "m \<le> w \<Longrightarrow> (\<And>r. r \<in> set rs \<Longrightarrow> rs_active r \<Longrightarrow> m \<le> rs_read_pos r) \<Longrightarrow>
    m \<le> foldl (\<lambda>min_pos r. if rs_active r \<and> rs_read_pos r < min_pos then rs_read_pos r else min_pos) w rs" for w rs
    by (induction rs arbitrary: w) auto
  note fold = this
  show ?thesis unfolding getMinReadPos_def by (rule fold) (use assms in auto)
qed

lemma example_held_write:
  assumes "LargeData_write example_ld_env ''u'' (replicate 72 2) (1000, LargeDataChannel_init example_ld_config, example_held) = (res, lc', ch', sh')"
  shows "0 \<le> res" "rs_active (rc_readers (ls_control sh') ! 0)" "mem_read (ls_buffer sh') 256 150 = mem_read (ls_buffer example_held) 256 150"
proof -
  have nocl: "cleanupDeadReaders example_ld_env 1000 (ls_control example_held) = (1000, ls_control example_held)"
    by (simp add: cleanupDeadReaders_def example_ld_env_def LARGE_DATA_CLEANUP_INTERVAL_S_def)
  have "256 \<le> getMinReadPos (ls_control example_held)"
    by (rule getMinReadPos_ge) (auto simp: example_held_control ReaderSlot_init_def dest!: set_update_subset_insert [THEN subsetD])
  note min = this
  obtain c off c1 where w: "cleanupDeadReaders example_ld_env 1000 (ls_control example_held) = (lc', c)"
      "res = sint (rc_sequence c)"
      "wrap_around 200 (c\<lparr>rc_writer_heartbeat := 1000, rc_sequence := rc_sequence c + 1\<rparr>) = (off, c1)"
      "sh' = example_held\<lparr>ls_control := c1\<lparr>rc_write_pos := rc_write_pos c1 + 200\<rparr>,
                ls_buffer := write_block (ls_buffer example_held) off (rc_sequence c) ''u'' (replicate 72 2)\<rparr>"
    using assms
  proof (cases rule: large_write_cases)
    case rejected
    then show ?thesis by (simp add: LargeDataChannel_init_def example_ld_config_def)
  next
    case (full c)
    then have "c = ls_control example_held" using nocl by simp
    then show ?thesis using full(3) min by (simp add: example_held_control)
  next
    case (written c off c1)
    then show ?thesis using that [of c off c1] by (simp add: example_ld_env_def)
  qed
  then have c: "c = ls_control example_held" using nocl by simp
  have off: "off = 0" "rs_active (rc_readers c1 ! 0)"
    using w(3) by (auto simp: c wrap_around_def wraps_def example_held_control Let_def skip_reader_def)
  show "0 \<le> res" using w(2) by (simp add: c example_held_control)
  show "rs_active (rc_readers (ls_control sh') ! 0)" using off w(4) by simp
  show "mem_read (ls_buffer sh') 256 150 = mem_read (ls_buffer example_held) 256 150"
    using write_block_outside [of 0 "replicate 72 2" "ls_buffer example_held" "rc_sequence c" "''u''"] off w(4) example_held_buffer(1)
    by (simp add: same_outside_def)
qed

theorem release_after_wrap_misplaces_witness:
  "case LargeData_write example_ld_env ''u'' (replicate 72 2) (1000, LargeDataChannel_init example_ld_config, example_held) of
     (res, lc', ch', sh') \<Rightarrow>
       (case LargeData_releaseBlock \<lparr>db_header = Some 256, db_size = 22, db_result = LD_SUCCESS\<rparr> example_ld_reader sh' of
          (rch', sh'') \<Rightarrow> rs_read_pos (rc_readers (ls_control sh'') ! 0) + 200 = rc_write_pos (ls_control sh'') + 150)"
proof (clarsimp split: prod.split, goal_cases)
  case (1 res lc' ch' sh' rch' sh'')
  note w = example_held_write [OF 1(2)]
  have slice: "slice_is example_held_block (mem_read (ls_buffer sh') 256 (block_size example_held_block))"
    using w(3) example_held_buffer(2) by (simp add: example_held_block_def block_size_def)
  have "DataBlock_isValid (ls_buffer sh') \<lparr>db_header = Some 256, db_size = 22, db_result = LD_SUCCESS\<rparr>"
    using slice_isD(1) [OF slice] by (simp add: DataBlock_isValid_def)
  moreover have "wraps (ls_control example_held) (128 + length (replicate 72 (2 :: u8)))"
    by (simp add: wraps_def example_held_control)
  ultimately have "rs_read_pos (rc_readers (ls_control sh'') ! 0) + (128 + length (replicate 72 (2 :: u8))) =
      rc_write_pos (ls_control sh'') + block_size example_held_block"
    by (intro release_after_wrap_misplaces [OF example_held_ok, where rch = example_ld_reader and
          blk = "\<lparr>db_header = Some 256, db_size = 22, db_result = LD_SUCCESS\<rparr>", OF _ 1(2) w(1) _ w(2) _ _ _ 1(1)])
      (simp_all add: example_ld_reader_def example_held_block_def)
  then show ?case by (simp add: example_held_block_def block_size_def)
qed

text \<open>C31: The count of readers is exact: registration, removal of an active reader and the removal of
  dead readers keep \<open>num_readers\<close> equal to the number of active slots (and the rest of the segment
  invariant).\<close>

theorem reader_count_exact:
  assumes "channel_ok sh"
  shows "channel_ok (sh\<lparr>ls_control := snd (registerReader env (ls_control sh))\<rparr>) \<and>
    channel_ok (sh\<lparr>ls_control := snd (cleanupDeadReaders env lc (ls_control sh))\<rparr>) \<and>
    (0 \<le> rid \<and> nat rid < MAX_READERS \<and> rs_active (rc_readers (ls_control sh) ! nat rid) \<longrightarrow>
      channel_ok (sh\<lparr>ls_control := unregisterReader rid (ls_control sh)\<rparr>))"
  using assms registerReader_ok [OF assms, of env] cleanupDeadReaders_ok [OF assms, of env lc] unregisterReader_ok [OF assms, of rid]
  by (metis prod.collapse)

theorem reader_count_exact_witness:
  "channel_ok (example_ld_shm\<lparr>ls_control := unregisterReader 0 (ls_control example_ld_shm)\<rparr>)"
proof -
  have ok: "channel_ok example_ld_shm" and rep: "reader_rep example_ld_shm 0 []"
    using example_ld_rep by (simp_all add: ld_rep_at_def)
  show ?thesis using reader_count_exact [OF ok, of example_ld_env 0 0] rep by (simp add: reader_rep_def)
qed

text \<open>A reader that was removed as dead (its heartbeat is old, although its process lives) is
  counted off a second time by its own destructor: the only reader leaves \<open>num_readers\<close> at
  \<open>2 ^ 32 - 1\<close>.\<close>

theorem reader_count_underflow:
  assumes "channel_ok sh" "\<forall>r \<in> set (rc_readers (ls_control sh)). rs_active r \<longrightarrow> reader_dead env r"
    "ld_now env - lc \<ge> LARGE_DATA_CLEANUP_INTERVAL_S" "0 \<le> rid" "rid < int MAX_READERS"
  shows "rc_num_readers (unregisterReader rid (snd (cleanupDeadReaders env lc (ls_control sh)))) = 2 ^ 32 - 1"
proof -
  let ?c = "snd (cleanupDeadReaders env lc (ls_control sh))"
  have "count_if rs_active (rc_readers ?c) = 0"
    using assms(2,3) by (auto simp: cleanupDeadReaders_def cleanupDeadReaders_loop_eq count_if_0)
  moreover have "rc_num_readers ?c = word_of_nat (count_if rs_active (rc_readers ?c))"
    using cleanupDeadReaders_ok [OF assms(1), of env lc] by (auto simp: channel_ok_def prod_eq_iff)
  ultimately show ?thesis
    using assms(4,5) by (simp add: unregisterReader_def Let_def update_reader_def)
qed

theorem reader_count_underflow_witness:
  "rc_num_readers (unregisterReader 0 (snd (cleanupDeadReaders (example_ld_env\<lparr>ld_now := 2000\<rparr>) 0 (ls_control example_ld_shm)))) = 2 ^ 32 - 1"
proof -
  have ok: "channel_ok example_ld_shm" using example_ld_rep by (simp add: ld_rep_at_def)
  have dead: "\<forall>r \<in> set (rc_readers (ls_control example_ld_shm)). rs_active r \<longrightarrow> reader_dead (example_ld_env\<lparr>ld_now := 2000\<rparr>) r"
    by (auto simp: example_ld_control reader_dead_def LARGE_DATA_READER_TIMEOUT_S_def example_ld_env_def ReaderSlot_init_def
        dest!: set_update_subset_insert [THEN subsetD])
  show ?thesis
    by (rule reader_count_underflow [OF ok dead])
      (simp_all add: LARGE_DATA_CLEANUP_INTERVAL_S_def MAX_READERS_def example_ld_env_def)
qed

text \<open>The scan for orphaned channels keeps every channel that is referenced, whose writer process
  is alive and has written within the timeout; but it removes a channel in use, with a live
  writer and references, when nothing was written for longer than the timeout and no reader is
  registered, because only \<open>write\<close> renews the writer's heartbeat.\<close>

theorem orphan_scan_decision:
  assumes "so_size obj \<ge> sizeof_RingBufferControl + LARGE_DATA_MIN_VALID_SIZE" "rc_ref_count (so_control obj) \<noteq> 0"
    "LargeData_isProcessAlive (ld_kill env) (rc_writer_pid (so_control obj))"
    "rc_num_readers (so_control obj) = 0" "0 < rc_writer_heartbeat (so_control obj)"
  shows "channel_should_cleanup env timeout_seconds obj =
    (ld_now env - rc_writer_heartbeat (so_control obj) > ucast timeout_seconds)"
  using assms by (simp add: channel_should_cleanup_def Let_def all_processes_dead_def all_heartbeats_timeout_def heartbeat_timeout_def)

theorem orphan_scan_decision_witness:
  "channel_should_cleanup (example_ld_env\<lparr>ld_now := 2000\<rparr>) 60
     \<lparr>so_name = ''channel'', so_open = True, so_fstat = True, so_mmap = True, so_size = 8192, so_mtime = 0,
      so_control = (ls_control (created_shm example_ld_os example_ld_config))\<lparr>rc_writer_heartbeat := 1000\<rparr>, so_unlink = True\<rparr>"
  by (subst orphan_scan_decision)
    (simp_all add: sizeof_RingBufferControl_def LARGE_DATA_MIN_VALID_SIZE_def created_shm_def example_ld_os_def
      LargeData_isProcessAlive_def example_ld_env_def)

end
