(* ===== verification/Nexus_ShmRegistry.thy ===== *)
theory Nexus_ShmRegistry
  imports Nexus_Prelude
begin

unbundle bit_operations_syntax

section \<open>SharedMemoryRegistry: the table of nodes shared by all processes\<close>

text \<open>
  Model of \<open>include/nexus/registry/SharedMemoryRegistry.h\<close> and
  \<open>src/registry/SharedMemoryRegistry.cpp\<close>.  The region is a record with the header fields and
  the array of entries; node identifiers and segment names are arrays of eight 64-bit words, as
  the code stores them.  Each public operation runs under the robust process-shared mutex, so it
  is one step; what the operating system answers (the mutex, \<open>getpid\<close>, the clock,
  \<open>kill(pid, 0)\<close>, \<open>shm_open\<close>, \<open>mmap\<close>) is an argument.  The waiting loop of
  \<open>initialize\<close> sees the region change between its 100 attempts; the successive contents are
  the argument \<open>observe\<close>.

  Shown: atomic strings round-trip; the region invariant \<open>region_ok\<close> is kept by every operation;
  registration, removal and clean-up behave like a map from node identifiers (locale
  \<open>node_directory\<close>); at most one process considers itself clean-up master; the reference count
  agrees with the table of process ids.
\<close>

subsection \<open>Strings in arrays of atomic words\<close>

definition writeAtomicString :: "string \<Rightarrow> nat \<Rightarrow> u64 list" where
  "writeAtomicString str max_bytes =
     (let buffer = cstr_field max_bytes str
      in map (\<lambda>i. le_to_word (mem_read buffer (8 * i) 8)) [0..<max_bytes div 8])"

definition readAtomicString :: "u64 list \<Rightarrow> nat \<Rightarrow> string" where
  "readAtomicString atomic_array max_bytes =
     (let buffer = concat (map (word_to_le 8) (take (max_bytes div 8) atomic_array))
      in cstr_read (take (max_bytes - 1) buffer))"

subsection \<open>The region\<close>

definition MAX_REGISTRY_ENTRIES :: nat where "MAX_REGISTRY_ENTRIES = 256"
definition NODE_ID_SIZE :: nat where "NODE_ID_SIZE = 64"
definition SHM_NAME_SIZE :: nat where "SHM_NAME_SIZE = 64"
definition REGISTRY_MAGIC :: u32 where "REGISTRY_MAGIC = 0x4C525247"

record RegistryEntry =
  re_flags :: u32
  re_version :: u32
  re_pid :: u32
  re_last_heartbeat :: u64
  re_node_id :: "u64 list"
  re_shm_name :: "u64 list"

record RegistryRegion =
  rr_magic :: u32
  rr_version :: u32
  rr_num_entries :: u32
  rr_capacity :: u32
  rr_ref_count :: u32
  rr_ref_pids :: "u32 list"
  rr_entries :: "RegistryEntry list"

record NodeInfo =
  ni_node_id :: string
  ni_shm_name :: string
  ni_pid :: int
  ni_last_heartbeat :: u64
  ni_active :: bool

text \<open>What one call sees of its process and of the operating system.\<close>

record sys_env =
  env_lock :: lock_answer
  env_pid :: u32
  env_now :: u64
  env_kill :: "int \<Rightarrow> kill_answer"

text \<open>\<open>RegistryLock\<close>: the deadline it computes and whether it holds the mutex afterwards.\<close>

definition RegistryLock_deadline :: "int \<Rightarrow> int \<Rightarrow> int \<Rightarrow> int \<times> int" where
  "RegistryLock_deadline tv_sec tv_nsec timeout_ms =
     (let sec = tv_sec + timeout_ms div 1000;
          nsec = tv_nsec + (timeout_ms mod 1000) * 1000000
      in if nsec \<ge> 1000000000 then (sec + nsec div 1000000000, nsec mod 1000000000) else (sec, nsec))"

definition RegistryLock_isLocked :: "lock_answer \<Rightarrow> bool" where
  "RegistryLock_isLocked a \<longleftrightarrow> a = LOCK_EOWNERDEAD \<or> a = LOCK_OK"

definition entry_valid :: "RegistryEntry \<Rightarrow> bool" where
  "entry_valid e \<longleftrightarrow> re_flags e AND 1 \<noteq> 0"

definition entry_node_id :: "RegistryEntry \<Rightarrow> string" where
  "entry_node_id e = readAtomicString (re_node_id e) NODE_ID_SIZE"

definition entry_info :: "RegistryEntry \<Rightarrow> NodeInfo" where
  "entry_info e =
     \<lparr>ni_node_id = entry_node_id e, ni_shm_name = readAtomicString (re_shm_name e) SHM_NAME_SIZE,
      ni_pid = sint (re_pid e), ni_last_heartbeat = re_last_heartbeat e,
      ni_active = (re_flags e AND 2 \<noteq> 0)\<rparr>"

definition findEntryIndex :: "RegistryRegion \<Rightarrow> string \<Rightarrow> nat option" where
  "findEntryIndex rr nid = find_index (\<lambda>e. entry_valid e \<and> entry_node_id e = nid) (rr_entries rr)"

definition set_entry :: "RegistryRegion \<Rightarrow> nat \<Rightarrow> RegistryEntry \<Rightarrow> RegistryRegion" where
  "set_entry rr i e = rr\<lparr>rr_entries := (rr_entries rr)[i := e]\<rparr>"

definition ShmRegistry_isProcessAlive :: "(int \<Rightarrow> kill_answer) \<Rightarrow> int \<Rightarrow> bool" where
  "ShmRegistry_isProcessAlive kill pid \<longleftrightarrow> 0 < pid \<and> kill pid = KILL_OK"

subsection \<open>Operations on entries\<close>

definition ShmRegistry_registerNode ::
    "bool \<Rightarrow> sys_env \<Rightarrow> string \<Rightarrow> string \<Rightarrow> RegistryRegion \<Rightarrow> bool \<times> RegistryRegion" where
  "ShmRegistry_registerNode initialized env nid shm_name rr =
     (if \<not> initialized then (False, rr)
      else if nid = [] \<or> shm_name = [] then (False, rr)
      else if length nid \<ge> NODE_ID_SIZE \<or> length shm_name \<ge> SHM_NAME_SIZE then (False, rr)
      else if \<not> RegistryLock_isLocked (env_lock env) then (False, rr)
      else case findEntryIndex rr nid of
        Some idx \<Rightarrow>
          let e = rr_entries rr ! idx in
          (True, set_entry rr idx
             (e\<lparr>re_shm_name := writeAtomicString shm_name SHM_NAME_SIZE, re_pid := env_pid env,
                re_last_heartbeat := env_now env, re_version := re_version e + 1, re_flags := 3\<rparr>))
      | None \<Rightarrow>
          (case find_index (\<lambda>e. re_flags e = 0) (rr_entries rr) of
             None \<Rightarrow> (False, rr)
           | Some idx \<Rightarrow>
               let e = (rr_entries rr ! idx)\<lparr>re_flags := 1\<rparr>;
                   rr1 = set_entry rr idx
                     (e\<lparr>re_node_id := writeAtomicString nid NODE_ID_SIZE,
                        re_shm_name := writeAtomicString shm_name SHM_NAME_SIZE,
                        re_pid := env_pid env, re_last_heartbeat := env_now env,
                        re_version := re_version e + 1, re_flags := 3\<rparr>)
               in (True, rr1\<lparr>rr_num_entries := rr_num_entries rr1 + 1\<rparr>)))"

definition ShmRegistry_unregisterNode ::
    "bool \<Rightarrow> sys_env \<Rightarrow> string \<Rightarrow> RegistryRegion \<Rightarrow> bool \<times> RegistryRegion" where
  "ShmRegistry_unregisterNode initialized env nid rr =
     (if \<not> initialized then (False, rr)
      else if \<not> RegistryLock_isLocked (env_lock env) then (False, rr)
      else case findEntryIndex rr nid of
        None \<Rightarrow> (False, rr)
      | Some idx \<Rightarrow>
          let e = rr_entries rr ! idx;
              rr1 = rr\<lparr>rr_num_entries := rr_num_entries rr - 1\<rparr>
          in (True, set_entry rr1 idx
                (e\<lparr>re_flags := 0, re_version := re_version e + 1, re_node_id := replicate 8 0,
                   re_shm_name := replicate 8 0, re_pid := 0, re_last_heartbeat := 0\<rparr>)))"

definition ShmRegistry_updateHeartbeat ::
    "bool \<Rightarrow> sys_env \<Rightarrow> string \<Rightarrow> RegistryRegion \<Rightarrow> bool \<times> RegistryRegion" where
  "ShmRegistry_updateHeartbeat initialized env nid rr =
     (if \<not> initialized then (False, rr)
      else if \<not> RegistryLock_isLocked (env_lock env) then (False, rr)
      else case findEntryIndex rr nid of
        None \<Rightarrow> (False, rr)
      | Some idx \<Rightarrow>
          let e = rr_entries rr ! idx; version_before = re_version e;
              rr1 = set_entry rr idx (e\<lparr>re_last_heartbeat := env_now env\<rparr>);
              version_after = re_version (rr_entries rr1 ! idx)
          in (version_before = version_after, rr1))"

definition ShmRegistry_getAllNodes :: "bool \<Rightarrow> sys_env \<Rightarrow> RegistryRegion \<Rightarrow> NodeInfo list" where
  "ShmRegistry_getAllNodes initialized env rr =
     (if \<not> initialized then []
      else if \<not> RegistryLock_isLocked (env_lock env) then []
      else map entry_info (filter entry_valid (rr_entries rr)))"

definition ShmRegistry_findNode :: "bool \<Rightarrow> sys_env \<Rightarrow> string \<Rightarrow> RegistryRegion \<Rightarrow> NodeInfo option" where
  "ShmRegistry_findNode initialized env nid rr =
     (if \<not> initialized then None
      else if \<not> RegistryLock_isLocked (env_lock env) then None
      else map_option (\<lambda>idx. entry_info (rr_entries rr ! idx)) (findEntryIndex rr nid))"

definition ShmRegistry_nodeExists :: "bool \<Rightarrow> sys_env \<Rightarrow> string \<Rightarrow> RegistryRegion \<Rightarrow> bool" where
  "ShmRegistry_nodeExists initialized env nid rr =
     (if \<not> initialized then False
      else if \<not> RegistryLock_isLocked (env_lock env) then False
      else case findEntryIndex rr nid of
        None \<Rightarrow> False
      | Some idx \<Rightarrow> re_flags (rr_entries rr ! idx) AND 3 = 3)"

text \<open>
  The loop of \<open>cleanupStaleNodes\<close>.  A heartbeat of the future (the steady clocks of two processes
  need not agree) counts as fresh; \<open>last_heartbeat = 0\<close> marks an entry that is being written.
\<close>

definition entry_stale :: "sys_env \<Rightarrow> u64 \<Rightarrow> RegistryEntry \<Rightarrow> bool" where
  "entry_stale env timeout_ms e =
     (let last_hb = re_last_heartbeat e;
          time_since_hb = (if env_now env \<ge> last_hb then env_now env - last_hb else 0)
      in entry_valid e \<and> last_hb \<noteq> 0 \<and>
         (time_since_hb > timeout_ms \<or> \<not> ShmRegistry_isProcessAlive (env_kill env) (sint (re_pid e))))"

definition clear_entry :: "RegistryEntry \<Rightarrow> RegistryEntry" where
  "clear_entry e =
     (let version_before = re_version e; e1 = e\<lparr>re_version := version_before + 1\<rparr>
      in e1\<lparr>re_flags := 0, re_version := re_version e1 + 1, re_pid := 0, re_last_heartbeat := 0,
            re_node_id := replicate 8 0, re_shm_name := replicate 8 0\<rparr>)"

fun cleanupStaleNodes_loop ::
    "sys_env \<Rightarrow> u64 \<Rightarrow> RegistryEntry list \<Rightarrow> nat \<times> RegistryEntry list" where
  "cleanupStaleNodes_loop env timeout_ms [] = (0, [])"
| "cleanupStaleNodes_loop env timeout_ms (e # es) =
     (case cleanupStaleNodes_loop env timeout_ms es of (cleaned, es') \<Rightarrow>
        if entry_stale env timeout_ms e then (Suc cleaned, clear_entry e # es') else (cleaned, e # es'))"

definition ShmRegistry_cleanupStaleNodes ::
    "bool \<Rightarrow> sys_env \<Rightarrow> u64 \<Rightarrow> RegistryRegion \<Rightarrow> nat \<times> RegistryRegion" where
  "ShmRegistry_cleanupStaleNodes initialized env timeout_ms rr =
     (if \<not> initialized then (0, rr)
      else if \<not> RegistryLock_isLocked (env_lock env) then (0, rr)
      else case cleanupStaleNodes_loop env timeout_ms (rr_entries rr) of (cleaned, es) \<Rightarrow>
        (cleaned, rr\<lparr>rr_entries := es, rr_num_entries := rr_num_entries rr - word_of_nat cleaned\<rparr>))"

definition ShmRegistry_getActiveNodeCount :: "bool \<Rightarrow> RegistryRegion \<Rightarrow> u32" where
  "ShmRegistry_getActiveNodeCount initialized rr = (if initialized then rr_num_entries rr else 0)"

text \<open>\<open>amICleanupMaster\<close>: the smallest live process id in the reference table, \<open>INT32_MAX\<close> if none.\<close>

definition smallest_active_pid :: "(int \<Rightarrow> kill_answer) \<Rightarrow> u32 list \<Rightarrow> int" where
  "smallest_active_pid kill ref_pids =
     foldl (\<lambda>smallest p. let pid = sint p in
              if 0 < pid \<and> (kill pid = KILL_OK \<or> kill pid = KILL_EPERM) \<and> pid < smallest
              then pid else smallest)
       (2 ^ 31 - 1) ref_pids"

definition ShmRegistry_amICleanupMaster :: "bool \<Rightarrow> sys_env \<Rightarrow> RegistryRegion \<Rightarrow> bool" where
  "ShmRegistry_amICleanupMaster initialized env rr =
     (if \<not> initialized then False
      else if \<not> RegistryLock_isLocked (env_lock env) then False
      else sint (env_pid env) = smallest_active_pid (env_kill env) (rr_ref_pids rr))"

subsection \<open>Life of the region\<close>

text \<open>
  The object \<open>/librpc_registry\<close> in the file system: its size and what a mapping of it shows.  A
  mapping shorter than the region faults (\<open>SIGBUS\<close>) on pages behind the end of the file;
  \<open>REGION_BYTES\<close> is \<open>sizeof(RegistryRegion)\<close> on x86-64 Linux, of which the header takes
  \<open>HEADER_BYTES\<close>.
\<close>

datatype shm_file = SHM_ABSENT | SHM_FILE nat RegistryRegion

definition HEADER_BYTES :: nat where "HEADER_BYTES = 1088"
definition REGION_BYTES :: nat where "REGION_BYTES = 52288"

definition mapping_covers :: "nat \<Rightarrow> nat \<Rightarrow> bool" where
  "mapping_covers st_size n \<longleftrightarrow> n \<le> 4096 * ((st_size + 4095) div 4096)"

definition empty_entry :: RegistryEntry where
  "empty_entry = \<lparr>re_flags = 0, re_version = 0, re_pid = 0, re_last_heartbeat = 0,
     re_node_id = replicate 8 0, re_shm_name = replicate 8 0\<rparr>"

text \<open>The stores of the creator; the version of an entry keeps the zero of the fresh pages.\<close>

definition created_region :: "u32 \<Rightarrow> RegistryRegion" where
  "created_region pid =
     \<lparr>rr_magic = REGISTRY_MAGIC, rr_version = 1, rr_num_entries = 0,
      rr_capacity = word_of_nat MAX_REGISTRY_ENTRIES, rr_ref_count = 1,
      rr_ref_pids = (replicate MAX_REGISTRY_ENTRIES 0)[0 := pid],
      rr_entries = replicate MAX_REGISTRY_ENTRIES empty_entry\<rparr>"

text \<open>A process that finds an initialised region records its id and then counts itself.\<close>

definition join_region :: "u32 \<Rightarrow> RegistryRegion \<Rightarrow> RegistryRegion option" where
  "join_region pid rr =
     (case find_index (\<lambda>p. p = 0) (rr_ref_pids rr) of
        None \<Rightarrow> None
      | Some i \<Rightarrow> Some (rr\<lparr>rr_ref_pids := (rr_ref_pids rr)[i := pid], rr_ref_count := rr_ref_count rr + 1\<rparr>))"

text \<open>
  One attempt of the waiting loop sees the region at the first test of the magic, the answer of
  the mutex, and the region under the mutex.
\<close>

record attempt =
  at_seen :: RegistryRegion
  at_lock :: lock_answer
  at_locked :: RegistryRegion

definition wait_attempt :: "u32 \<Rightarrow> attempt \<Rightarrow> RegistryRegion option" where
  "wait_attempt pid a =
     (if rr_magic (at_seen a) \<noteq> REGISTRY_MAGIC then None
      else if \<not> RegistryLock_isLocked (at_lock a) then None
      else if rr_magic (at_locked a) \<noteq> REGISTRY_MAGIC then None
      else join_region pid (at_locked a))"

fun wait_loop :: "nat \<Rightarrow> u32 \<Rightarrow> (nat \<Rightarrow> attempt) \<Rightarrow> nat \<Rightarrow> RegistryRegion option" where
  "wait_loop 0 pid observe retry = None"
| "wait_loop (Suc n) pid observe retry =
     (case wait_attempt pid (observe retry) of
        Some rr \<Rightarrow> Some rr
      | None \<Rightarrow> wait_loop n pid observe (Suc retry))"

record open_env =
  os_open :: bool
  os_fstat :: bool
  os_ftruncate :: bool
  os_mmap :: bool
  os_pid :: u32

text \<open>
  \<open>initialize\<close>: the new value of \<open>initialized_\<close> with the result, and the object after the writes
  of this call.
\<close>

definition map_and_create :: "open_env \<Rightarrow> bool \<times> shm_file" where
  "map_and_create os =
     (if \<not> os_mmap os then (False, SHM_ABSENT)
      else (True, SHM_FILE REGION_BYTES (created_region (os_pid os))))"

definition ShmRegistry_initialize ::
    "bool \<Rightarrow> open_env \<Rightarrow> (nat \<Rightarrow> attempt) \<Rightarrow> shm_file \<Rightarrow> bool \<times> shm_file" where
  "ShmRegistry_initialize initialized os observe file =
     (if initialized then (True, file)
      else if \<not> os_open os then (False, file)
      else case file of
        SHM_ABSENT \<Rightarrow>
          if \<not> os_ftruncate os then (False, SHM_ABSENT) else map_and_create os
      | SHM_FILE st_size rr \<Rightarrow>
          if os_fstat os \<and> st_size = 0 then
            if \<not> os_ftruncate os then (False, file) else map_and_create os
          else if os_fstat os \<and> st_size \<noteq> REGION_BYTES then (False, file)
          else if \<not> os_mmap os then (False, file)
          else case wait_loop 100 (os_pid os) observe 0 of
            None \<Rightarrow> (False, file)
          | Some rr' \<Rightarrow> (True, SHM_FILE st_size rr'))"

text \<open>\<open>alive_pids\<close> of \<open>cleanupOrphanedRegistry\<close>, without duplicates as in the \<open>std::set\<close>.\<close>

definition alive_pids :: "(int \<Rightarrow> kill_answer) \<Rightarrow> RegistryRegion \<Rightarrow> int list" where
  "alive_pids kill rr =
     (let alive = (\<lambda>p. 0 < p \<and> kill p = KILL_OK)
      in remdups (filter alive (map sint (rr_ref_pids rr)) @
           filter alive (map (\<lambda>e. sint (re_pid e)) (filter entry_valid (rr_entries rr)))))"

record cleanup_env =
  cl_open :: bool
  cl_enoent :: bool
  cl_mmap :: bool
  cl_lock :: lock_answer
  cl_kill :: "int \<Rightarrow> kill_answer"
  cl_unlink :: bool

text \<open>The result is \<open>None\<close> when the process dies of \<open>SIGBUS\<close>.\<close>

definition ShmRegistry_cleanupOrphanedRegistry ::
    "cleanup_env \<Rightarrow> shm_file \<Rightarrow> (bool \<times> shm_file) option" where
  "ShmRegistry_cleanupOrphanedRegistry c file =
     (case file of
        SHM_ABSENT \<Rightarrow> Some (True, file)
      | SHM_FILE st_size rr \<Rightarrow>
          if \<not> cl_open c then Some (True, file)
          else if \<not> cl_mmap c then Some (False, file)
          else if \<not> mapping_covers st_size HEADER_BYTES then None
          else if cl_lock c = LOCK_ETIMEDOUT then Some (True, file)
          else if \<not> RegistryLock_isLocked (cl_lock c) then Some (True, file)
          else if rr_magic rr = REGISTRY_MAGIC then
            if \<not> mapping_covers st_size REGION_BYTES then None
            else if length (alive_pids (cl_kill c) rr) = 0
            then Some (True, if cl_unlink c then SHM_ABSENT else file)
            else Some (True, file)
          else if rr_magic rr = 0 then Some (True, if cl_unlink c then SHM_ABSENT else file)
          else Some (True, file))"

definition ShmRegistry_forceRemoveRegistry ::
    "cleanup_env \<Rightarrow> shm_file \<Rightarrow> (bool \<times> shm_file) option" where
  "ShmRegistry_forceRemoveRegistry c file =
     (let unlinked = (cl_unlink c \<and> file \<noteq> SHM_ABSENT, if cl_unlink c then SHM_ABSENT else file) in
      case file of
        SHM_ABSENT \<Rightarrow> if cl_enoent c then Some (True, file) else Some unlinked
      | SHM_FILE st_size rr \<Rightarrow>
          if \<not> cl_open c then Some unlinked
          else if \<not> cl_mmap c then Some unlinked
          else if \<not> mapping_covers st_size HEADER_BYTES then None
          else if RegistryLock_isLocked (cl_lock c) then Some unlinked
          else Some (False, file))"

text \<open>The destructor: leave the region, and clean it up when nobody is counted any more.\<close>

definition leave_region :: "u32 \<Rightarrow> RegistryRegion \<Rightarrow> RegistryRegion" where
  "leave_region pid rr =
     (let rr1 = (case find_index (\<lambda>p. p = pid) (rr_ref_pids rr) of
                   None \<Rightarrow> rr
                 | Some i \<Rightarrow> rr\<lparr>rr_ref_pids := (rr_ref_pids rr)[i := 0]\<rparr>)
      in rr1\<lparr>rr_ref_count := rr_ref_count rr1 - 1\<rparr>)"

definition ShmRegistry_destroy ::
    "bool \<Rightarrow> u32 \<Rightarrow> lock_answer \<Rightarrow> cleanup_env \<Rightarrow> nat \<Rightarrow> RegistryRegion \<Rightarrow> (bool \<times> shm_file) option" where
  "ShmRegistry_destroy initialized pid lock c st_size rr =
     (if \<not> initialized then Some (True, SHM_FILE st_size rr)
      else if \<not> RegistryLock_isLocked lock then Some (True, SHM_FILE st_size rr)
      else let rr1 = leave_region pid rr in
           if rr_ref_count rr1 = 0 then ShmRegistry_cleanupOrphanedRegistry c (SHM_FILE st_size rr1)
           else Some (True, SHM_FILE st_size rr1))"

subsection \<open>Atomic strings round-trip\<close>

lemma concat_mem_read: "concat (map (\<lambda>i. mem_read buf (8 * i) 8) [0..<k]) = take (8 * k) buf"
proof (induction k)
  case (Suc k)
  have "take (8 * Suc k) buf = take (8 * k) buf @ take 8 (drop (8 * k) buf)"
    using take_add [of "8 * k" 8 buf] by (simp add: algebra_simps)
  then show ?case using Suc by (simp add: mem_read_def)
qed simp

lemma atomic_words_bytes:
  assumes "length buf = 8 * k"
  shows "concat (map (word_to_le 8) (map (\<lambda>i. le_to_word (mem_read buf (8 * i) 8) :: u64) [0..<k])) = buf"
proof -
  have "word_to_le 8 (le_to_word (mem_read buf (8 * i) 8) :: u64) = mem_read buf (8 * i) 8"
    if "i < k" for i
    by (rule word_to_le_le_to_word) (use that assms in \<open>auto simp: mem_read_def\<close>)
  then have "map (word_to_le 8) (map (\<lambda>i. le_to_word (mem_read buf (8 * i) 8) :: u64) [0..<k])
      = map (\<lambda>i. mem_read buf (8 * i) 8) [0..<k]"
    by simp
  then show ?thesis using assms by (simp only: concat_mem_read) simp
qed

lemma takeWhile_pad: "no_nul t \<Longrightarrow> takeWhile (\<lambda>b. b \<noteq> 0) (str_bytes t @ replicate k 0) = str_bytes t"
  using takeWhile_append2 [of "str_bytes t" "\<lambda>b. b \<noteq> 0" "replicate k 0"] str_bytes_nonzero [of t]
  by (cases k) auto

lemma cstr_read_strncpy_pad: "cstr_read (strncpy_pad n s) = take n (c_str s)"
  using takeWhile_pad [of "take n (c_str s)"] by (simp add: cstr_read_def strncpy_pad_def Let_def)

lemma readAtomicString_write:
  assumes "0 < k"
  shows "readAtomicString (writeAtomicString s (8 * k)) (8 * k) = take (8 * k - 1) (c_str s)"
proof -
  have "length (cstr_field (8 * k) s) = 8 * k" using assms by simp
  note bytes = atomic_words_bytes [OF this]
  have "take (8 * k - 1) (cstr_field (8 * k) s) = strncpy_pad (8 * k - 1) s"
    by (simp add: cstr_field_def)
  then show ?thesis
    using bytes by (simp add: readAtomicString_def writeAtomicString_def Let_def cstr_read_strncpy_pad)
qed

lemma readAtomicString_write_64 [simp]:
  "readAtomicString (writeAtomicString s 64) 64 = take 63 (c_str s)"
  using readAtomicString_write [of 8 s] by simp

subsection \<open>The invariant of the region and its abstraction\<close>

definition entry_key :: "RegistryEntry \<Rightarrow> string option" where
  "entry_key e = (if entry_valid e then Some (entry_node_id e) else None)"

definition region_ok :: "RegistryRegion \<Rightarrow> bool" where
  "region_ok rr \<longleftrightarrow>
     length (rr_entries rr) = MAX_REGISTRY_ENTRIES \<and> length (rr_ref_pids rr) = MAX_REGISTRY_ENTRIES \<and>
     (\<forall>e \<in> set (rr_entries rr). re_flags e = 0 \<or> re_flags e = 3) \<and>
     unique_keys entry_key (rr_entries rr) \<and>
     rr_num_entries rr = word_of_nat (count_if entry_valid (rr_entries rr))"

definition region_map :: "RegistryRegion \<Rightarrow> string \<Rightarrow> NodeInfo option" where
  "region_map rr nid = map_option entry_info (slot_lookup entry_key (rr_entries rr) nid)"

lemma findEntryIndex_key: "findEntryIndex rr nid = find_index (\<lambda>e. entry_key e = Some nid) (rr_entries rr)"
  unfolding findEntryIndex_def by (rule find_index_cong) (auto simp: entry_key_def)

lemma findNode_region_map:
  "RegistryLock_isLocked (env_lock env) \<Longrightarrow> ShmRegistry_findNode True env nid rr = region_map rr nid"
  by (simp add: ShmRegistry_findNode_def region_map_def slot_lookup_def findEntryIndex_key option.map_comp comp_def)

lemma findEntryIndex_SomeD:
  assumes "findEntryIndex rr nid = Some i"
  shows "i < length (rr_entries rr)" "entry_key (rr_entries rr ! i) = Some nid"
    "slot_lookup entry_key (rr_entries rr) nid = Some (rr_entries rr ! i)"
  using assms by (auto simp: findEntryIndex_key slot_lookup_def dest: find_index_SomeD)

lemma findEntryIndex_NoneD:
  "findEntryIndex rr nid = None \<Longrightarrow> slot_lookup entry_key (rr_entries rr) nid = None"
  by (simp add: findEntryIndex_key slot_lookup_def)

lemma flags_3_valid: "re_flags e = 3 \<Longrightarrow> entry_valid e"
  by (simp add: entry_valid_def)

lemma flags_0_invalid: "re_flags e = 0 \<Longrightarrow> \<not> entry_valid e"
  by (simp add: entry_valid_def)

lemmas entry_flag_simps = flags_3_valid flags_0_invalid entry_key_def

text \<open>
  All operations store one entry: the effect of a store on the invariant and on the map, once.
\<close>

lemma set_entry_ok:
  assumes ok: "region_ok rr" and i: "i < length (rr_entries rr)"
    and fl: "re_flags e = 0 \<or> re_flags e = 3"
    and fresh: "\<And>k. entry_key e = Some k \<Longrightarrow> entry_key (rr_entries rr ! i) = Some k \<or>
        slot_lookup entry_key (rr_entries rr) k = None"
    and n: "n + (if entry_valid (rr_entries rr ! i) then 1 else 0) =
        rr_num_entries rr + (if entry_valid e then 1 else 0)"
  shows "region_ok ((set_entry rr i e)\<lparr>rr_num_entries := n\<rparr>)"
    and "region_map ((set_entry rr i e)\<lparr>rr_num_entries := n\<rparr>) k =
      (if entry_key e = Some k then Some (entry_info e)
       else if entry_key (rr_entries rr ! i) = Some k then None else region_map rr k)"
proof -
  let ?es = "(rr_entries rr)[i := e]"
  have u: "unique_keys entry_key (rr_entries rr)" using ok by (simp add: region_ok_def)
  have u': "unique_keys entry_key ?es" by (rule unique_keys_update [OF u i fresh])
  have "(word_of_nat (count_if entry_valid ?es + (if entry_valid (rr_entries rr ! i) then 1 else 0)) :: u32)
      = word_of_nat (count_if entry_valid (rr_entries rr) + (if entry_valid e then 1 else 0))"
    using count_if_update [OF i, of entry_valid e] by simp
  then have "word_of_nat (count_if entry_valid ?es) + (if entry_valid (rr_entries rr ! i) then 1 else 0 :: u32)
      = rr_num_entries rr + (if entry_valid e then 1 else 0)"
    using ok by (simp add: region_ok_def split: if_splits)
  with n have "n = word_of_nat (count_if entry_valid ?es)" by (metis add_right_cancel)
  then show "region_ok ((set_entry rr i e)\<lparr>rr_num_entries := n\<rparr>)"
    using ok u' fl by (auto simp: region_ok_def set_entry_def dest!: set_update_subset_insert [THEN subsetD])
  show "region_map ((set_entry rr i e)\<lparr>rr_num_entries := n\<rparr>) k =
      (if entry_key e = Some k then Some (entry_info e)
       else if entry_key (rr_entries rr ! i) = Some k then None else region_map rr k)"
    using slot_lookup_update [OF u i u', of k] by (simp add: region_map_def set_entry_def)
qed

subsection \<open>The registry as a bounded map\<close>

fun run_answers :: "('c \<Rightarrow> 's \<Rightarrow> bool \<times> 's) \<Rightarrow> 'c list \<Rightarrow> 's \<Rightarrow> bool list \<times> 's" where
  "run_answers step [] s = ([], s)"
| "run_answers step (c # cs) s =
     (case step c s of (b, s') \<Rightarrow> case run_answers step cs s' of (bs, s'') \<Rightarrow> (b # bs, s''))"

text \<open>
  The contract of a node directory: every command answers and changes the abstract map as the
  specification says.  What a client may conclude for whole sequences of commands is proved in
  the locale.
\<close>

locale node_directory =
  fixes step :: "'c \<Rightarrow> 'r \<Rightarrow> bool \<times> 'r"
    and spec :: "'c \<Rightarrow> 'm \<Rightarrow> bool \<times> 'm"
    and abstract :: "'r \<Rightarrow> 'm"
    and ok :: "'r \<Rightarrow> bool"
    and allowed :: "'c \<Rightarrow> bool"
  assumes step_ok: "ok r \<Longrightarrow> allowed c \<Longrightarrow> ok (snd (step c r))"
    and step_spec: "ok r \<Longrightarrow> allowed c \<Longrightarrow> spec c (abstract r) = (fst (step c r), abstract (snd (step c r)))"
begin

lemma run_simulates:
  "ok r \<Longrightarrow> list_all allowed cs \<Longrightarrow> run_answers step cs r = (bs, r') \<Longrightarrow>
   ok r' \<and> run_answers spec cs (abstract r) = (bs, abstract r')"
proof (induction cs arbitrary: r bs)
  case (Cons c cs)
  obtain b r1 where step: "step c r = (b, r1)" by (cases "step c r")
  obtain bs1 r2 where run: "run_answers step cs r1 = (bs1, r2)" by (cases "run_answers step cs r1")
  have "ok r1" "spec c (abstract r) = (b, abstract r1)"
    using step_ok [of r c] step_spec [of r c] Cons.prems step by auto
  then show ?case using Cons.IH [of r1 bs1] Cons.prems step run by simp
qed simp

end

datatype registry_cmd =
    RegisterNode sys_env string string
  | UnregisterNode sys_env string
  | UpdateHeartbeat sys_env string
  | CleanupStaleNodes sys_env u64

definition registry_step :: "registry_cmd \<Rightarrow> RegistryRegion \<Rightarrow> bool \<times> RegistryRegion" where
  "registry_step c rr =
     (case c of
        RegisterNode env nid shm_name \<Rightarrow> ShmRegistry_registerNode True env nid shm_name rr
      | UnregisterNode env nid \<Rightarrow> ShmRegistry_unregisterNode True env nid rr
      | UpdateHeartbeat env nid \<Rightarrow> ShmRegistry_updateHeartbeat True env nid rr
      | CleanupStaleNodes env timeout_ms \<Rightarrow>
          (case ShmRegistry_cleanupStaleNodes True env timeout_ms rr of (cleaned, rr') \<Rightarrow> (0 < cleaned, rr')))"

definition registry_allowed :: "registry_cmd \<Rightarrow> bool" where
  "registry_allowed c =
     (case c of RegisterNode env nid shm_name \<Rightarrow> no_nul nid \<and> no_nul shm_name | _ \<Rightarrow> True)"

definition info_stale :: "sys_env \<Rightarrow> u64 \<Rightarrow> NodeInfo \<Rightarrow> bool" where
  "info_stale env timeout_ms i \<longleftrightarrow>
     ni_last_heartbeat i \<noteq> 0 \<and>
     ((ni_last_heartbeat i \<le> env_now env \<and> env_now env - ni_last_heartbeat i > timeout_ms) \<or>
      \<not> ShmRegistry_isProcessAlive (env_kill env) (ni_pid i))"

text \<open>The specification: a map from node identifiers to their data with room for 256 nodes.\<close>

definition registry_spec ::
    "registry_cmd \<Rightarrow> (string \<Rightarrow> NodeInfo option) \<Rightarrow> bool \<times> (string \<Rightarrow> NodeInfo option)" where
  "registry_spec c m =
     (case c of
        RegisterNode env nid shm_name \<Rightarrow>
          if RegistryLock_isLocked (env_lock env) \<and> 0 < length nid \<and> length nid < 64 \<and>
             0 < length shm_name \<and> length shm_name < 64 \<and> (nid \<in> dom m \<or> card (dom m) < 256)
          then (True, m(nid \<mapsto> \<lparr>ni_node_id = nid, ni_shm_name = shm_name, ni_pid = sint (env_pid env),
                                ni_last_heartbeat = env_now env, ni_active = True\<rparr>))
          else (False, m)
      | UnregisterNode env nid \<Rightarrow>
          if RegistryLock_isLocked (env_lock env) \<and> nid \<in> dom m then (True, m(nid := None)) else (False, m)
      | UpdateHeartbeat env nid \<Rightarrow>
          if RegistryLock_isLocked (env_lock env) \<and> nid \<in> dom m
          then (True, m(nid := map_option (ni_last_heartbeat_update (\<lambda>_. env_now env)) (m nid)))
          else (False, m)
      | CleanupStaleNodes env timeout_ms \<Rightarrow>
          if RegistryLock_isLocked (env_lock env)
          then (\<exists>i \<in> ran m. info_stale env timeout_ms i,
                \<lambda>nid. case m nid of None \<Rightarrow> None | Some i \<Rightarrow> if info_stale env timeout_ms i then None else Some i)
          else (False, m))"

lemma set_entry_num [simp]: "(set_entry rr i e)\<lparr>rr_num_entries := rr_num_entries rr\<rparr> = set_entry rr i e"
  by (simp add: set_entry_def)

lemma region_map_dom: "nid \<in> dom (region_map rr) \<longleftrightarrow> findEntryIndex rr nid \<noteq> None"
  by (auto simp: region_map_def slot_lookup_def findEntryIndex_key)

lemma region_map_card:
  assumes "region_ok rr"
  shows "card (dom (region_map rr)) = count_if entry_valid (rr_entries rr)"
proof -
  let ?es = "rr_entries rr" and ?I = "{i. i < length (rr_entries rr) \<and> entry_valid (rr_entries rr ! i)}"
  have "dom (region_map rr) = (\<lambda>i. entry_node_id (?es ! i)) ` ?I"
  proof (intro set_eqI iffI)
    fix k assume "k \<in> dom (region_map rr)"
    then obtain e where "slot_lookup entry_key ?es k = Some e" by (auto simp: region_map_def)
    then obtain i where "i < length ?es" "?es ! i = e" "entry_key e = Some k" by (rule slot_lookup_SomeE)
    then show "k \<in> (\<lambda>i. entry_node_id (?es ! i)) ` ?I"
      by (auto simp: entry_key_def split: if_splits)
  next
    fix k assume "k \<in> (\<lambda>i. entry_node_id (?es ! i)) ` ?I"
    then obtain i where i: "i < length ?es" "entry_key (?es ! i) = Some k" by (auto simp: entry_key_def)
    then show "k \<in> dom (region_map rr)"
      using slot_lookup_unique [of entry_key ?es i k] assms by (auto simp: region_map_def region_ok_def)
  qed
  moreover have "inj_on (\<lambda>i. entry_node_id (?es ! i)) ?I"
  proof (rule inj_onI)
    fix i j assume "i \<in> ?I" "j \<in> ?I" "entry_node_id (?es ! i) = entry_node_id (?es ! j)"
    then have "entry_key (?es ! i) = entry_key (?es ! j)" "entry_key (?es ! i) \<noteq> None"
      "i < length ?es" "j < length ?es" by (auto simp: entry_key_def)
    then show "i = j" using assms by (auto simp: region_ok_def unique_keys_def)
  qed
  ultimately show ?thesis
    by (simp add: card_image count_if_def length_filter_conv_card)
qed

lemma free_slot_iff:
  assumes "region_ok rr"
  shows "find_index (\<lambda>e. re_flags e = 0) (rr_entries rr) \<noteq> None \<longleftrightarrow> card (dom (region_map rr)) < 256"
proof -
  have "(\<forall>e \<in> set (rr_entries rr). re_flags e \<noteq> 0) \<longleftrightarrow> (\<forall>e \<in> set (rr_entries rr). entry_valid e)"
    using assms by (auto simp: region_ok_def entry_valid_def)
  also have "\<dots> \<longleftrightarrow> length (filter entry_valid (rr_entries rr)) = length (rr_entries rr)"
    by (metis filter_True length_filter_less less_irrefl)
  also have "\<dots> \<longleftrightarrow> \<not> card (dom (region_map rr)) < 256"
    using assms length_filter_le [of entry_valid "rr_entries rr"] region_map_card [OF assms]
    by (auto simp: region_ok_def MAX_REGISTRY_ENTRIES_def count_if_def)
  finally show ?thesis by (auto simp: find_index_None_iff)
qed

text \<open>Every command simulates its specification.\<close>

definition simulates :: "registry_cmd \<Rightarrow> RegistryRegion \<Rightarrow> bool" where
  "simulates c rr \<longleftrightarrow> region_ok (snd (registry_step c rr)) \<and>
     registry_spec c (region_map rr) = (fst (registry_step c rr), region_map (snd (registry_step c rr)))"

lemmas registry_cmd_defs = simulates_def registry_step_def registry_spec_def

lemma new_entry_info:
  assumes "re_flags e = 3" "re_node_id e = writeAtomicString nid 64" "no_nul nid" "length nid < 64"
    "re_shm_name e = writeAtomicString shm_name 64" "no_nul shm_name" "length shm_name < 64"
  shows "entry_key e = Some nid"
    "entry_info e = \<lparr>ni_node_id = nid, ni_shm_name = shm_name, ni_pid = sint (re_pid e),
       ni_last_heartbeat = re_last_heartbeat e, ni_active = True\<rparr>"
  using assms
  by (simp_all add: entry_key_def entry_info_def entry_node_id_def NODE_ID_SIZE_def SHM_NAME_SIZE_def
      flags_3_valid)

lemma entry_info_rename:
  assumes "entry_key e0 = Some nid" "re_node_id e = re_node_id e0" "re_flags e = 3"
    "re_shm_name e = writeAtomicString shm_name 64" "no_nul shm_name" "length shm_name < 64"
  shows "entry_key e = Some nid"
    "entry_info e = \<lparr>ni_node_id = nid, ni_shm_name = shm_name, ni_pid = sint (re_pid e),
       ni_last_heartbeat = re_last_heartbeat e, ni_active = True\<rparr>"
  using assms
  by (auto simp: entry_key_def entry_info_def entry_node_id_def SHM_NAME_SIZE_def flags_3_valid
      split: if_splits)

lemma register_existing:
  assumes ok: "region_ok rr" and s: "no_nul shm_name" and lens: "0 < length nid" "length nid < 64"
      "0 < length shm_name" "length shm_name < 64"
    and lk: "RegistryLock_isLocked (env_lock env)" and f: "findEntryIndex rr nid = Some i"
  shows "simulates (RegisterNode env nid shm_name) rr"
proof -
  note i = findEntryIndex_SomeD [OF f]
  let ?e0 = "rr_entries rr ! i"
  define e where "e = ?e0\<lparr>re_shm_name := writeAtomicString shm_name SHM_NAME_SIZE, re_pid := env_pid env,
                re_last_heartbeat := env_now env, re_version := re_version ?e0 + 1, re_flags := 3\<rparr>"
  have step: "registry_step (RegisterNode env nid shm_name) rr = (True, set_entry rr i e)"
    using lens lk f
    by (simp add: registry_step_def ShmRegistry_registerNode_def NODE_ID_SIZE_def SHM_NAME_SIZE_def e_def Let_def)
  have e: "re_flags e = 3" "re_node_id e = re_node_id ?e0" "re_shm_name e = writeAtomicString shm_name 64"
    "re_pid e = env_pid env" "re_last_heartbeat e = env_now env"
    by (simp_all add: e_def SHM_NAME_SIZE_def)
  note info = entry_info_rename [OF i(2) e(2,1,3) s lens(4)]
  have valid: "entry_valid ?e0" "entry_valid e"
    using i(2) e(1) by (auto simp: entry_key_def flags_3_valid split: if_splits)
  have set_ok: "region_ok (set_entry rr i e)"
    and set_map: "region_map (set_entry rr i e) k =
      (if Some nid = Some k then Some (entry_info e)
       else if entry_key ?e0 = Some k then None else region_map rr k)" for k
    using set_entry_ok [OF ok i(1), of e "rr_num_entries rr"] e(1) info(1) i(2) valid by auto
  have "region_map (set_entry rr i e) = (region_map rr)(nid \<mapsto> entry_info e)"
    by (rule ext) (auto simp: set_map i(2))
  moreover have "nid \<in> dom (region_map rr)" using f by (simp add: region_map_dom)
  ultimately show ?thesis
    using set_ok lk lens e info(2) by (simp add: simulates_def step registry_spec_def)
qed

lemma register_new:
  assumes ok: "region_ok rr" and s: "no_nul nid" "no_nul shm_name" and lens: "0 < length nid" "length nid < 64"
      "0 < length shm_name" "length shm_name < 64"
    and lk: "RegistryLock_isLocked (env_lock env)" and f: "findEntryIndex rr nid = None"
    and free: "find_index (\<lambda>e. re_flags e = 0) (rr_entries rr) = Some i"
  shows "simulates (RegisterNode env nid shm_name) rr"
proof -
  let ?e0 = "rr_entries rr ! i"
  have i: "i < length (rr_entries rr)" "re_flags ?e0 = 0" using find_index_SomeD [OF free] by auto
  define e where "e = ?e0\<lparr>re_flags := 1, re_node_id := writeAtomicString nid NODE_ID_SIZE,
      re_shm_name := writeAtomicString shm_name SHM_NAME_SIZE, re_pid := env_pid env,
      re_last_heartbeat := env_now env, re_version := re_version ?e0 + 1, re_flags := 3\<rparr>"
  define rr' where "rr' = (set_entry rr i e)\<lparr>rr_num_entries := rr_num_entries rr + 1\<rparr>"
  have step: "registry_step (RegisterNode env nid shm_name) rr = (True, rr')"
    using lens lk f free
    by (simp add: registry_step_def ShmRegistry_registerNode_def NODE_ID_SIZE_def SHM_NAME_SIZE_def
        e_def rr'_def Let_def set_entry_def)
  have e: "re_flags e = 3" "re_node_id e = writeAtomicString nid 64" "re_shm_name e = writeAtomicString shm_name 64"
    "re_pid e = env_pid env" "re_last_heartbeat e = env_now env"
    by (simp_all add: e_def SHM_NAME_SIZE_def NODE_ID_SIZE_def)
  note info = new_entry_info [OF e(1,2) s(1) lens(2) e(3) s(2) lens(4)]
  have valid: "\<not> entry_valid ?e0" "entry_key ?e0 = None" "entry_valid e"
    using i(2) e(1) by (auto simp: entry_flag_simps)
  have set_ok: "region_ok rr'" and set_map: "region_map rr' k =
      (if Some nid = Some k then Some (entry_info e) else region_map rr k)" for k
    unfolding rr'_def
    using set_entry_ok [OF ok i(1), of e "rr_num_entries rr + 1"] e(1) info(1) valid findEntryIndex_NoneD [OF f]
    by auto
  have "region_map rr' = (region_map rr)(nid \<mapsto> entry_info e)"
    by (rule ext) (auto simp: set_map)
  moreover have "card (dom (region_map rr)) < 256"
    using free_slot_iff [OF ok] free by simp
  ultimately show ?thesis
    using set_ok lk lens e info(2) by (simp add: simulates_def step registry_spec_def)
qed

lemma register_simulates:
  assumes ok: "region_ok rr" and s: "no_nul nid" "no_nul shm_name"
  shows "simulates (RegisterNode env nid shm_name) rr"
proof (cases "RegistryLock_isLocked (env_lock env) \<and> 0 < length nid \<and> length nid < 64 \<and>
             0 < length shm_name \<and> length shm_name < 64")
  case True
  show ?thesis
  proof (cases "findEntryIndex rr nid")
    case (Some i)
    then show ?thesis using register_existing ok s True by blast
  next
    case None
    show ?thesis
    proof (cases "find_index (\<lambda>e. re_flags e = 0) (rr_entries rr)")
      case (Some i)
      then show ?thesis using register_new ok s True None by blast
    next
      case no_slot: None
      then have "\<not> card (dom (region_map rr)) < 256" using free_slot_iff [OF ok] by simp
      moreover have "nid \<notin> dom (region_map rr)" using None by (simp add: region_map_dom)
      ultimately show ?thesis
        using True None no_slot ok
        by (simp add: registry_cmd_defs ShmRegistry_registerNode_def NODE_ID_SIZE_def SHM_NAME_SIZE_def)
    qed
  qed
next
  case False
  then show ?thesis
    using ok by (auto simp: registry_cmd_defs ShmRegistry_registerNode_def NODE_ID_SIZE_def SHM_NAME_SIZE_def)
qed

lemma unregister_simulates:
  assumes ok: "region_ok rr"
  shows "simulates (UnregisterNode env nid) rr"
proof (cases "RegistryLock_isLocked (env_lock env)")
  case lk: True
  show ?thesis
  proof (cases "findEntryIndex rr nid")
    case None
    then show ?thesis using lk ok
      by (simp add: registry_cmd_defs ShmRegistry_unregisterNode_def region_map_dom)
  next
    case (Some i)
    note i = findEntryIndex_SomeD [OF Some]
    let ?e0 = "rr_entries rr ! i"
    define e where "e = ?e0\<lparr>re_flags := 0, re_version := re_version ?e0 + 1, re_node_id := replicate 8 0,
                   re_shm_name := replicate 8 0, re_pid := 0, re_last_heartbeat := 0\<rparr>"
    define rr' where "rr' = (set_entry rr i e)\<lparr>rr_num_entries := rr_num_entries rr - 1\<rparr>"
    have step: "registry_step (UnregisterNode env nid) rr = (True, rr')"
      using lk Some
      by (simp add: registry_step_def ShmRegistry_unregisterNode_def e_def rr'_def Let_def set_entry_def)
    have e: "re_flags e = 0" "\<not> entry_valid e" "entry_key e = None" "entry_valid ?e0"
      using i(2) by (auto simp: e_def entry_flag_simps split: if_splits)
    have "region_ok rr'" and map: "\<And>k. region_map rr' k =
        (if entry_key ?e0 = Some k then None else region_map rr k)"
      unfolding rr'_def
      using set_entry_ok [OF ok i(1), of e "rr_num_entries rr - 1"] e by auto
    moreover have "region_map rr' = (region_map rr)(nid := None)"
      by (rule ext) (auto simp: map i(2))
    moreover have "nid \<in> dom (region_map rr)" using Some by (simp add: region_map_dom)
    ultimately show ?thesis using lk by (simp add: simulates_def step registry_spec_def)
  qed
qed (use ok in \<open>simp add: registry_cmd_defs ShmRegistry_unregisterNode_def\<close>)

lemma heartbeat_simulates:
  assumes ok: "region_ok rr"
  shows "simulates (UpdateHeartbeat env nid) rr"
proof (cases "RegistryLock_isLocked (env_lock env)")
  case lk: True
  show ?thesis
  proof (cases "findEntryIndex rr nid")
    case None
    then show ?thesis using lk ok
      by (simp add: registry_cmd_defs ShmRegistry_updateHeartbeat_def region_map_dom)
  next
    case (Some i)
    note i = findEntryIndex_SomeD [OF Some]
    let ?e0 = "rr_entries rr ! i"
    define e where "e = ?e0\<lparr>re_last_heartbeat := env_now env\<rparr>"
    have step: "registry_step (UpdateHeartbeat env nid) rr = (True, set_entry rr i e)"
      using lk Some i(1)
      by (simp add: registry_step_def ShmRegistry_updateHeartbeat_def e_def Let_def set_entry_def)
    have e: "entry_key e = entry_key ?e0" "entry_valid e = entry_valid ?e0"
      "re_flags e = 0 \<or> re_flags e = 3"
      "entry_info e = (entry_info ?e0)\<lparr>ni_last_heartbeat := env_now env\<rparr>"
      using ok i(1) nth_mem [OF i(1)]
      by (auto simp: e_def entry_key_def entry_valid_def entry_node_id_def entry_info_def region_ok_def)
    have "region_ok (set_entry rr i e)" and map: "\<And>k. region_map (set_entry rr i e) k =
        (if entry_key e = Some k then Some (entry_info e)
         else if entry_key ?e0 = Some k then None else region_map rr k)"
      using set_entry_ok [OF ok i(1) e(3), of "rr_num_entries rr"] e(1,2) i(2) by auto
    moreover have "region_map rr nid = Some (entry_info ?e0)"
      using i(3) by (simp add: region_map_def)
    moreover from this have "region_map (set_entry rr i e) =
        (region_map rr)(nid := map_option (ni_last_heartbeat_update (\<lambda>_. env_now env)) (region_map rr nid))"
      by (intro ext) (auto simp: map e i(2))
    ultimately show ?thesis using lk by (auto simp: simulates_def step registry_spec_def)
  qed
qed (use ok in \<open>simp add: registry_cmd_defs ShmRegistry_updateHeartbeat_def\<close>)

text \<open>The clean-up loop is a map over the entries; it clears the stale ones and nothing else.\<close>

lemma cleanup_loop_map:
  "cleanupStaleNodes_loop env t es =
     (count_if (entry_stale env t) es, map (\<lambda>e. if entry_stale env t e then clear_entry e else e) es)"
  by (induction es) auto

lemma clear_entry_free [simp]: "re_flags (clear_entry e) = 0" "\<not> entry_valid (clear_entry e)"
  "entry_key (clear_entry e) = None"
  by (simp_all add: clear_entry_def entry_valid_def entry_key_def Let_def)

lemma entry_stale_info:
  "entry_valid e \<Longrightarrow> entry_stale env t e \<longleftrightarrow> info_stale env t (entry_info e)"
  by (auto simp: entry_stale_def info_stale_def entry_info_def Let_def not_le)

lemma entry_stale_valid: "entry_stale env t e \<Longrightarrow> entry_valid e"
  by (simp add: entry_stale_def Let_def)

lemma count_valid_after_cleanup:
  "count_if entry_valid (map (\<lambda>e. if entry_stale env t e then clear_entry e else e) es)
     + count_if (entry_stale env t) es = count_if entry_valid es"
  by (induction es) (auto dest: entry_stale_valid)

lemma key_after_cleanup:
  "entry_key (if entry_stale env t e then clear_entry e else e) =
     (if entry_stale env t e then None else entry_key e)"
  by simp

lemma cleanup_unique:
  "unique_keys entry_key es \<Longrightarrow>
   unique_keys entry_key (map (\<lambda>e. if entry_stale env t e then clear_entry e else e) es)"
  unfolding unique_keys_def by (auto simp: key_after_cleanup split: if_splits)

lemma cleanup_lookup:
  assumes u: "unique_keys entry_key es"
  shows "slot_lookup entry_key (map (\<lambda>e. if entry_stale env t e then clear_entry e else e) es) k =
    (case slot_lookup entry_key es k of
       None \<Rightarrow> None | Some e \<Rightarrow> if entry_stale env t e then None else Some e)"
    (is "slot_lookup _ ?es' _ = _")
proof (cases "slot_lookup entry_key es k")
  case None
  then have "slot_lookup entry_key ?es' k = None" by (auto simp: slot_lookup_None_iff)
  with None show ?thesis by simp
next
  case (Some e)
  then obtain i where i: "i < length es" "es ! i = e" "entry_key e = Some k" by (rule slot_lookup_SomeE)
  show ?thesis
  proof (cases "entry_stale env t e")
    case False
    then show ?thesis
      using slot_lookup_unique [OF cleanup_unique [OF u], of i env t k] i Some by simp
  next
    case True
    have "entry_key x \<noteq> Some k" if x: "x \<in> set ?es'" for x
    proof
      assume "entry_key x = Some k"
      with x obtain j where "j < length es" "entry_key (es ! j) = Some k" "\<not> entry_stale env t (es ! j)"
        by (auto simp: in_set_conv_nth split: if_splits)
      with u i True show False by (metis option.distinct(1) unique_keys_def)
    qed
    then have "slot_lookup entry_key ?es' k = None" by (simp add: slot_lookup_None_iff)
    with True Some show ?thesis by simp
  qed
qed

lemma ran_region_map:
  assumes "region_ok rr"
  shows "ran (region_map rr) = entry_info ` {e \<in> set (rr_entries rr). entry_valid e}"
proof (intro set_eqI iffI)
  fix i assume "i \<in> ran (region_map rr)"
  then show "i \<in> entry_info ` {e \<in> set (rr_entries rr). entry_valid e}"
    by (auto simp: ran_def region_map_def entry_key_def elim!: slot_lookup_SomeE split: if_splits)
next
  fix i assume "i \<in> entry_info ` {e \<in> set (rr_entries rr). entry_valid e}"
  then obtain n where n: "n < length (rr_entries rr)" "entry_valid (rr_entries rr ! n)"
    "i = entry_info (rr_entries rr ! n)" by (auto simp: in_set_conv_nth)
  then have "region_map rr (entry_node_id (rr_entries rr ! n)) = Some i"
    using slot_lookup_unique [of entry_key "rr_entries rr" n] assms
    by (simp add: region_map_def region_ok_def entry_key_def)
  then show "i \<in> ran (region_map rr)" by (rule ranI)
qed

lemma cleanup_simulates:
  assumes ok: "region_ok rr"
  shows "simulates (CleanupStaleNodes env t) rr"
proof (cases "RegistryLock_isLocked (env_lock env)")
  case lk: True
  let ?es' = "map (\<lambda>e. if entry_stale env t e then clear_entry e else e) (rr_entries rr)"
  define rr' where "rr' = rr\<lparr>rr_entries := ?es', rr_num_entries := rr_num_entries rr -
      word_of_nat (count_if (entry_stale env t) (rr_entries rr))\<rparr>"
  have step: "registry_step (CleanupStaleNodes env t) rr = (0 < count_if (entry_stale env t) (rr_entries rr), rr')"
    using lk by (simp add: registry_step_def ShmRegistry_cleanupStaleNodes_def cleanup_loop_map rr'_def)
  have u: "unique_keys entry_key (rr_entries rr)" using ok by (simp add: region_ok_def)
  have "rr_num_entries rr = word_of_nat (count_if entry_valid ?es' + count_if (entry_stale env t) (rr_entries rr))"
    using ok unfolding count_valid_after_cleanup region_ok_def by blast
  then have "rr_num_entries rr' = word_of_nat (count_if entry_valid ?es')"
    by (simp add: rr'_def del: map_map)
  moreover have "\<forall>e \<in> set ?es'. re_flags e = 0 \<or> re_flags e = 3"
    using ok by (auto simp: region_ok_def)
  ultimately have "region_ok rr'"
    using ok cleanup_unique [OF u] by (simp add: region_ok_def rr'_def)
  moreover have "region_map rr' = (\<lambda>nid. case region_map rr nid of None \<Rightarrow> None
      | Some i \<Rightarrow> if info_stale env t i then None else Some i)"
  proof
    fix nid
    show "region_map rr' nid = (case region_map rr nid of None \<Rightarrow> None
      | Some i \<Rightarrow> if info_stale env t i then None else Some i)"
    proof (cases "slot_lookup entry_key (rr_entries rr) nid")
      case (Some e)
      then have "entry_valid e" by (auto simp: entry_key_def elim!: slot_lookup_SomeE split: if_splits)
      then show ?thesis
        using Some cleanup_lookup [OF u, of env t nid]
        by (simp add: region_map_def rr'_def entry_stale_info)
    qed (use cleanup_lookup [OF u, of env t nid] in \<open>simp add: region_map_def rr'_def\<close>)
  qed
  moreover have "(\<exists>i \<in> ran (region_map rr). info_stale env t i) \<longleftrightarrow>
      0 < count_if (entry_stale env t) (rr_entries rr)"
    (is "?L \<longleftrightarrow> ?R")
  proof -
    have "entry_stale env t e \<longleftrightarrow> entry_valid e \<and> info_stale env t (entry_info e)" for e
      using entry_stale_info [of e env t] entry_stale_valid [of env t e] by blast
    then have "?L \<longleftrightarrow> (\<exists>e \<in> set (rr_entries rr). entry_stale env t e)"
      unfolding ran_region_map [OF ok] by auto
    then show ?thesis using count_if_0 [of "entry_stale env t" "rr_entries rr"] by auto
  qed
  ultimately show ?thesis using lk by (simp add: simulates_def step registry_spec_def)
qed (use ok in \<open>simp add: registry_cmd_defs ShmRegistry_cleanupStaleNodes_def\<close>)

lemma all_simulate: "region_ok rr \<Longrightarrow> registry_allowed c \<Longrightarrow> simulates c rr"
  by (cases c) (simp_all add: registry_allowed_def register_simulates unregister_simulates
      heartbeat_simulates cleanup_simulates)

interpretation shm_dir: node_directory registry_step registry_spec region_map region_ok registry_allowed
proof unfold_locales
  fix rr c assume "region_ok rr" "registry_allowed c"
  then have "simulates c rr" by (rule all_simulate)
  then show "region_ok (snd (registry_step c rr))"
    "registry_spec c (region_map rr) = (fst (registry_step c rr), region_map (snd (registry_step c rr)))"
    by (simp_all add: simulates_def)
qed

subsection \<open>Processes that use the region\<close>

text \<open>
  The regions that processes can produce: created by one of them, joined and left, and changed by
  the commands.  \<open>getpid\<close> is never 0, and a process leaves only when its id is recorded.
\<close>

inductive registry_use :: "RegistryRegion \<Rightarrow> bool" where
  use_create: "pid \<noteq> 0 \<Longrightarrow> registry_use (created_region pid)"
| use_join: "registry_use rr \<Longrightarrow> pid \<noteq> 0 \<Longrightarrow> join_region pid rr = Some rr' \<Longrightarrow> registry_use rr'"
| use_leave: "registry_use rr \<Longrightarrow> pid \<noteq> 0 \<Longrightarrow> pid \<in> set (rr_ref_pids rr) \<Longrightarrow> registry_use (leave_region pid rr)"
| use_command: "registry_use rr \<Longrightarrow> registry_allowed c \<Longrightarrow> registry_use (snd (registry_step c rr))"

definition users :: "RegistryRegion \<Rightarrow> nat" where
  "users rr = count_if (\<lambda>p. p \<noteq> 0) (rr_ref_pids rr)"

definition use_ok :: "RegistryRegion \<Rightarrow> bool" where
  "use_ok rr \<longleftrightarrow> region_ok rr \<and> rr_magic rr = REGISTRY_MAGIC \<and> rr_ref_count rr = word_of_nat (users rr)"

lemma empty_entry_simps [simp]: "re_flags empty_entry = 0" "\<not> entry_valid empty_entry" "entry_key empty_entry = None"
  by (simp_all add: empty_entry_def entry_valid_def entry_key_def)

lemma count_if_replicate [simp]: "count_if P (replicate n x) = (if P x then n else 0)"
  by (induction n) auto

lemma unique_keys_free: "(\<And>x. x \<in> set xs \<Longrightarrow> key x = None) \<Longrightarrow> unique_keys key xs"
  by (auto simp: unique_keys_def)

lemma use_ok_created: "pid \<noteq> 0 \<Longrightarrow> use_ok (created_region pid)"
  using count_if_update [of 0 "replicate 256 (0 :: u32)" "\<lambda>p. p \<noteq> 0" pid]
  by (auto simp: use_ok_def users_def region_ok_def created_region_def MAX_REGISTRY_ENTRIES_def
      intro!: unique_keys_free)

lemma region_ok_ref_update:
  "region_ok rr \<Longrightarrow> region_ok (rr\<lparr>rr_ref_pids := (rr_ref_pids rr)[i := p], rr_ref_count := n\<rparr>)"
  by (simp add: region_ok_def)

lemma use_ok_join:
  assumes "use_ok rr" "pid \<noteq> 0" "join_region pid rr = Some rr'"
  shows "use_ok rr'" "pid \<in> set (rr_ref_pids rr')"
proof -
  obtain i where i: "find_index (\<lambda>p. p = 0) (rr_ref_pids rr) = Some i"
    and rr': "rr' = rr\<lparr>rr_ref_pids := (rr_ref_pids rr)[i := pid], rr_ref_count := rr_ref_count rr + 1\<rparr>"
    using assms(3) by (auto simp: join_region_def split: option.splits)
  have i': "i < length (rr_ref_pids rr)" "rr_ref_pids rr ! i = 0" using find_index_SomeD [OF i] by auto
  have "count_if (\<lambda>p. p \<noteq> 0) ((rr_ref_pids rr)[i := pid]) = users rr + 1"
    using count_if_update [OF i'(1), of "\<lambda>p. p \<noteq> 0" pid] i'(2) assms(2) by (simp add: users_def)
  then show "use_ok rr'"
    using assms(1) region_ok_ref_update [where i = i and p = pid and n = "rr_ref_count rr + 1"]
    by (simp add: use_ok_def users_def rr' add.commute)
  show "pid \<in> set (rr_ref_pids rr')" using i'(1) by (simp add: rr' set_update_memI)
qed

lemma use_ok_leave:
  assumes "use_ok rr" "pid \<noteq> 0" "pid \<in> set (rr_ref_pids rr)"
  shows "use_ok (leave_region pid rr)"
proof -
  obtain i where i: "find_index (\<lambda>p. p = pid) (rr_ref_pids rr) = Some i"
    using assms(3) by (cases "find_index (\<lambda>p. p = pid) (rr_ref_pids rr)") (auto simp: find_index_None_iff)
  have i': "i < length (rr_ref_pids rr)" "rr_ref_pids rr ! i = pid" using find_index_SomeD [OF i] by auto
  have "count_if (\<lambda>p. p \<noteq> 0) ((rr_ref_pids rr)[i := 0]) + 1 = users rr"
    using count_if_update [OF i'(1), of "\<lambda>p. p \<noteq> 0" 0] i'(2) assms(2) by (simp add: users_def)
  then have "word_of_nat (users rr) - 1 = (word_of_nat (count_if (\<lambda>p. p \<noteq> 0) ((rr_ref_pids rr)[i := 0])) :: u32)"
    by (metis add_diff_cancel_right' of_nat_1 of_nat_add)
  then show ?thesis
    using assms(1) region_ok_ref_update [where i = i and p = 0 and n = "rr_ref_count rr - 1"] i
    by (simp add: use_ok_def users_def leave_region_def Let_def)
qed

lemma registry_step_refs:
  "rr_ref_pids (snd (registry_step c rr)) = rr_ref_pids rr"
  "rr_ref_count (snd (registry_step c rr)) = rr_ref_count rr"
  "rr_magic (snd (registry_step c rr)) = rr_magic rr"
  by (auto simp: registry_step_def ShmRegistry_registerNode_def ShmRegistry_unregisterNode_def
      ShmRegistry_updateHeartbeat_def ShmRegistry_cleanupStaleNodes_def set_entry_def Let_def
      split: registry_cmd.splits option.splits prod.splits)

lemma use_ok_command: "use_ok rr \<Longrightarrow> registry_allowed c \<Longrightarrow> use_ok (snd (registry_step c rr))"
  by (simp add: use_ok_def users_def registry_step_refs shm_dir.step_ok)

lemma registry_use_ok: "registry_use rr \<Longrightarrow> use_ok rr"
  by (induction rule: registry_use.induct) (simp_all add: use_ok_created use_ok_join use_ok_leave use_ok_command)

lemma ref_count_zero_iff:
  assumes "use_ok rr"
  shows "rr_ref_count rr = 0 \<longleftrightarrow> (\<forall>p \<in> set (rr_ref_pids rr). p = 0)"
proof -
  have "users rr \<le> 256"
    using assms length_filter_le [of "\<lambda>p. p \<noteq> 0" "rr_ref_pids rr"]
    by (simp add: users_def count_if_def use_ok_def region_ok_def MAX_REGISTRY_ENTRIES_def)
  then have "unat (word_of_nat (users rr) :: u32) = users rr"
    by (subst unat_of_nat) simp
  then have "(word_of_nat (users rr) :: u32) = 0 \<longleftrightarrow> users rr = 0"
    by (metis unat_eq_0)
  then show ?thesis using assms by (auto simp: use_ok_def users_def count_if_0)
qed

text \<open>
  What an attempt of the waiting loop needs: the magic at both looks, the mutex (also from a dead
  owner) and a free reference slot.
\<close>

definition attempt_ready :: "attempt \<Rightarrow> bool" where
  "attempt_ready a \<longleftrightarrow>
     rr_magic (at_seen a) = REGISTRY_MAGIC \<and> (at_lock a = LOCK_OK \<or> at_lock a = LOCK_EOWNERDEAD) \<and>
     rr_magic (at_locked a) = REGISTRY_MAGIC \<and> 0 \<in> set (rr_ref_pids (at_locked a))"

lemma wait_attempt_None: "wait_attempt pid a = None \<longleftrightarrow> \<not> attempt_ready a"
proof -
  have "join_region pid rr = None \<longleftrightarrow> 0 \<notin> set (rr_ref_pids rr)" for rr
    using find_index_None_iff [of "\<lambda>p. p = 0" "rr_ref_pids rr"] by (auto simp: join_region_def split: option.split)
  then show ?thesis by (auto simp: wait_attempt_def attempt_ready_def RegistryLock_isLocked_def)
qed

lemma wait_loop_none: "(\<forall>i < n. \<not> attempt_ready (observe (k + i))) \<Longrightarrow> wait_loop n pid observe k = None"
proof (induction n arbitrary: k)
  case (Suc n)
  have "wait_loop n pid observe (Suc k) = None" using Suc.IH [of "Suc k"] Suc.prems by (metis Suc_mono add_Suc_shift)
  moreover have "wait_attempt pid (observe k) = None" using spec [OF Suc.prems, of 0] by (simp add: wait_attempt_None)
  ultimately show ?case by simp
qed simp

lemma wait_loop_first:
  "i < n \<Longrightarrow> \<forall>j < i. \<not> attempt_ready (observe (k + j)) \<Longrightarrow> attempt_ready (observe (k + i)) \<Longrightarrow>
   wait_loop n pid observe k = wait_attempt pid (observe (k + i))"
proof (induction n arbitrary: k i)
  case (Suc n)
  show ?case
  proof (cases i)
    case 0
    then obtain rr where "wait_attempt pid (observe k) = Some rr" using Suc.prems(3) wait_attempt_None by force
    then show ?thesis using 0 by simp
  next
    case (Suc j)
    have "wait_attempt pid (observe k) = None" using Suc.prems(2) Suc by (auto simp: wait_attempt_None dest: spec [of _ 0])
    moreover have "\<forall>l < j. \<not> attempt_ready (observe (Suc k + l))" using Suc.prems(2) Suc by (metis Suc_mono add_Suc_shift)
    ultimately show ?thesis using Suc.IH [of j "Suc k"] Suc.prems(1,3) Suc by simp
  qed
qed simp

lemma wait_attempt_ready:
  assumes "attempt_ready a"
  shows "\<exists>slot < length (rr_ref_pids (at_locked a)). rr_ref_pids (at_locked a) ! slot = 0 \<and>
    join_region pid (at_locked a) = wait_attempt pid a \<and>
    wait_attempt pid a = Some ((at_locked a)\<lparr>rr_ref_pids := (rr_ref_pids (at_locked a))[slot := pid],
                                             rr_ref_count := rr_ref_count (at_locked a) + 1\<rparr>)"
proof -
  have "find_index (\<lambda>p. p = 0) (rr_ref_pids (at_locked a)) \<noteq> None"
    using assms by (auto simp: attempt_ready_def find_index_None_iff)
  then obtain slot where "find_index (\<lambda>p. p = 0) (rr_ref_pids (at_locked a)) = Some slot" by auto
  then show ?thesis
    using assms find_index_SomeD
    by (intro exI [of _ slot]) (force simp: wait_attempt_def attempt_ready_def RegistryLock_isLocked_def join_region_def)
qed

text \<open>The smallest live process id.\<close>

definition alive_for_master :: "(int \<Rightarrow> kill_answer) \<Rightarrow> int \<Rightarrow> bool" where
  "alive_for_master kill pid \<longleftrightarrow> 0 < pid \<and> (kill pid = KILL_OK \<or> kill pid = KILL_EPERM)"

lemma smallest_active_pid_Min:
  "smallest_active_pid kill ps = Min (insert (2 ^ 31 - 1) (sint ` {p \<in> set ps. alive_for_master kill (sint p)}))"
proof -
  let ?A = "\<lambda>p. alive_for_master kill (sint p)"
  have "foldl (\<lambda>smallest p. let pid = sint p in
              if 0 < pid \<and> (kill pid = KILL_OK \<or> kill pid = KILL_EPERM) \<and> pid < smallest
              then pid else smallest) m ps = fold min (map sint (filter ?A ps)) m" for m
    by (induction ps arbitrary: m) (auto simp: alive_for_master_def Let_def min_def)
  then have "smallest_active_pid kill ps = Min (set ((2 ^ 31 - 1) # map sint (filter ?A ps)))"
    by (simp only: smallest_active_pid_def Min.set_eq_fold)
  then show ?thesis by (simp only: list.set set_map set_filter)
qed

lemma smallest_active_pid_attained:
  fixes ps :: "u32 list"
  assumes "p \<in> set ps" "alive_for_master kill (sint p)"
  shows "smallest_active_pid kill ps \<in> sint ` {p \<in> set ps. alive_for_master kill (sint p)}"
proof -
  let ?A = "sint ` {p \<in> set ps. alive_for_master kill (sint p)}"
  have p: "sint p \<in> ?A" using assms by blast
  then have "Min ?A \<le> sint p" by (intro Min_le) auto
  also have "sint p \<le> 2 ^ 31 - 1" using sint_lt [of p] by simp
  finally have "Min (insert (2 ^ 31 - 1) ?A) = Min ?A"
    using p by (subst Min_insert) (auto simp: min_def)
  moreover have "Min ?A \<in> ?A" using p by (intro Min_in) auto
  ultimately show ?thesis by (simp add: smallest_active_pid_Min)
qed

subsection \<open>Properties of the registry\<close>

definition example_env :: sys_env where
  "example_env = \<lparr>env_lock = LOCK_OK, env_pid = 7, env_now = 1000, env_kill = (\<lambda>_. KILL_OK)\<rparr>"

definition example_cmds :: "registry_cmd list" where
  "example_cmds = [RegisterNode example_env ''a'' ''/a'', UpdateHeartbeat example_env ''a'',
     CleanupStaleNodes example_env 5000, UnregisterNode example_env ''b'']"

lemma example_cmds_allowed: "list_all registry_allowed example_cmds"
  by (simp add: example_cmds_def registry_allowed_def no_nul_def)

lemma region_ok_created: "pid \<noteq> 0 \<Longrightarrow> region_ok (created_region pid)"
  using use_ok_created by (simp add: use_ok_def)

text \<open>C8: The shared table of nodes refines a map: for every sequence of registrations, removals,
  heartbeats and clean-ups, each under its own mutex answer, process id, clock and process
  liveness, the calls answer as the bounded map \<open>registry_spec\<close> does and the final table holds
  exactly the nodes of that map; the region invariant (256 entries, unique identifiers, exact
  \<open>num_entries\<close>, no half-written entry) is kept.\<close>

theorem registry_refines_map:
  assumes "region_ok rr" "list_all registry_allowed cmds"
    "run_answers registry_step cmds rr = (answers, rr')"
  shows "region_ok rr' \<and> run_answers registry_spec cmds (region_map rr) = (answers, region_map rr')"
  using shm_dir.run_simulates [OF assms] .

theorem registry_refines_map_witness:
  "region_ok (snd (run_answers registry_step example_cmds (created_region 7))) \<and>
   run_answers registry_spec example_cmds (region_map (created_region 7)) =
     (fst (run_answers registry_step example_cmds (created_region 7)),
      region_map (snd (run_answers registry_step example_cmds (created_region 7))))"
  by (rule registry_refines_map) (simp_all add: region_ok_created example_cmds_allowed)

text \<open>On every table that satisfies the invariant the queries agree with each other and with the
  map: \<open>findNode\<close> is lookup, \<open>nodeExists\<close> is membership, \<open>getAllNodes\<close> lists every node once, and
  \<open>getActiveNodeCount\<close> is their number.\<close>

theorem registry_queries_agree:
  assumes "region_ok rr" "RegistryLock_isLocked (env_lock env)"
  shows "ShmRegistry_findNode True env nid rr = region_map rr nid \<and>
    ShmRegistry_nodeExists True env nid rr = (nid \<in> dom (region_map rr)) \<and>
    set (ShmRegistry_getAllNodes True env rr) = ran (region_map rr) \<and>
    length (ShmRegistry_getAllNodes True env rr) = card (dom (region_map rr)) \<and>
    unat (ShmRegistry_getActiveNodeCount True rr) = card (dom (region_map rr))"
proof -
  have "ShmRegistry_nodeExists True env nid rr = (nid \<in> dom (region_map rr))"
  proof (cases "findEntryIndex rr nid")
    case (Some i)
    note i = findEntryIndex_SomeD [OF Some]
    have "re_flags (rr_entries rr ! i) = 0 \<or> re_flags (rr_entries rr ! i) = 3"
      using assms(1) nth_mem [OF i(1)] unfolding region_ok_def by blast
    then have "re_flags (rr_entries rr ! i) = 3"
      using i(2) by (auto simp: entry_key_def entry_valid_def split: if_splits)
    then show ?thesis using Some assms(2) by (simp add: ShmRegistry_nodeExists_def region_map_dom)
  qed (simp add: ShmRegistry_nodeExists_def region_map_dom)
  moreover have "count_if entry_valid (rr_entries rr) \<le> 256"
    using assms(1) length_filter_le [of entry_valid "rr_entries rr"]
    by (simp add: count_if_def region_ok_def MAX_REGISTRY_ENTRIES_def)
  then have "unat (word_of_nat (count_if entry_valid (rr_entries rr)) :: u32) = count_if entry_valid (rr_entries rr)"
    by (subst unat_of_nat) simp
  moreover have "rr_num_entries rr = word_of_nat (count_if entry_valid (rr_entries rr))"
    using assms(1) by (simp add: region_ok_def)
  ultimately show ?thesis
    using assms by (simp add: findNode_region_map ShmRegistry_getAllNodes_def ran_region_map region_map_card
        ShmRegistry_getActiveNodeCount_def) (simp add: count_if_def)
qed

theorem registry_queries_agree_witness:
  "ShmRegistry_findNode True example_env ''a'' (created_region 7) = region_map (created_region 7) ''a'' \<and>
   unat (ShmRegistry_getActiveNodeCount True (created_region 7)) = card (dom (region_map (created_region 7)))"
  using registry_queries_agree [OF region_ok_created [of 7], of example_env "''a''"]
  by (simp add: example_env_def RegistryLock_isLocked_def)

text \<open>C15: Exactly one clean-up master: when some process recorded in the reference table is alive,
  there is one recorded live process id such that, of all callers that get the mutex and see the
  same processes alive, precisely those with this id consider themselves master.\<close>

theorem cleanup_master_exactly_one:
  assumes "p \<in> set (rr_ref_pids rr)" "alive_for_master kill (sint p)"
  shows "\<exists>master \<in> set (rr_ref_pids rr). alive_for_master kill (sint master) \<and>
    (\<forall>env. RegistryLock_isLocked (env_lock env) \<longrightarrow> env_kill env = kill \<longrightarrow>
       ShmRegistry_amICleanupMaster True env rr = (env_pid env = master))"
proof -
  obtain m where m: "m \<in> set (rr_ref_pids rr)" "alive_for_master kill (sint m)"
    "smallest_active_pid kill (rr_ref_pids rr) = sint m"
    using smallest_active_pid_attained [OF assms] by auto
  have inj: "sint q = sint m \<longleftrightarrow> q = m" for q :: u32 by (auto dest: signed_word_eqI)
  show ?thesis
    using m by (intro bexI [of _ m]) (auto simp: ShmRegistry_amICleanupMaster_def inj)
qed

theorem cleanup_master_exactly_one_witness:
  "\<exists>master \<in> set (rr_ref_pids (created_region 7)). alive_for_master (\<lambda>_. KILL_OK) (sint master) \<and>
    (\<forall>env. RegistryLock_isLocked (env_lock env) \<longrightarrow> env_kill env = (\<lambda>_. KILL_OK) \<longrightarrow>
       ShmRegistry_amICleanupMaster True env (created_region 7) = (env_pid env = master))"
  by (rule cleanup_master_exactly_one [of 7])
    (simp_all add: created_region_def MAX_REGISTRY_ENTRIES_def set_update_memI alive_for_master_def)

text \<open>C14: In every region that processes produce by creating, joining, leaving and the commands,
  \<open>ref_count\<close> is the number of recorded process ids, and it is 0 (the condition under which a
  destructor tries to remove the region) exactly when no process is recorded.\<close>

theorem registry_ref_count_exact:
  assumes "registry_use rr"
  shows "rr_ref_count rr = word_of_nat (users rr) \<and>
    (rr_ref_count rr = 0 \<longleftrightarrow> (\<forall>p \<in> set (rr_ref_pids rr). p = 0)) \<and> region_ok rr"
  using registry_use_ok [OF assms] ref_count_zero_iff [of rr] by (auto simp: use_ok_def)

theorem registry_ref_count_exact_witness:
  "rr_ref_count (created_region 7) = word_of_nat (users (created_region 7)) \<and> region_ok (created_region 7)"
  using registry_ref_count_exact [OF use_create [of 7]] by simp


text \<open>C33: \<open>cleanupOrphanedRegistry\<close> on an initialised region whose mutex it obtains removes the
  region exactly when no recorded process, in the reference table or in a valid entry, answers
  \<open>kill(pid, 0)\<close> with success; it never changes its content.\<close>

theorem orphan_cleanup_exact:
  assumes "cl_open c" "cl_mmap c" "cl_unlink c" "RegistryLock_isLocked (cl_lock c)"
    "st_size = REGION_BYTES" "rr_magic rr = REGISTRY_MAGIC"
  shows "ShmRegistry_cleanupOrphanedRegistry c (SHM_FILE st_size rr) =
    Some (True, if (\<exists>p \<in> set (rr_ref_pids rr). 0 < sint p \<and> cl_kill c (sint p) = KILL_OK) \<or>
                   (\<exists>e \<in> set (rr_entries rr). entry_valid e \<and> 0 < sint (re_pid e) \<and> cl_kill c (sint (re_pid e)) = KILL_OK)
                then SHM_FILE st_size rr else SHM_ABSENT)"
proof -
  have "length (alive_pids (cl_kill c) rr) = 0 \<longleftrightarrow>
    \<not> ((\<exists>p \<in> set (rr_ref_pids rr). 0 < sint p \<and> cl_kill c (sint p) = KILL_OK) \<or>
      (\<exists>e \<in> set (rr_entries rr). entry_valid e \<and> 0 < sint (re_pid e) \<and> cl_kill c (sint (re_pid e)) = KILL_OK))"
    (is "_ \<longleftrightarrow> \<not> ?alive")
    by (auto simp: alive_pids_def Let_def filter_empty_conv)
  then have "(if length (alive_pids (cl_kill c) rr) = 0 then Some (True, SHM_ABSENT)
      else Some (True, SHM_FILE st_size rr)) = Some (True, if ?alive then SHM_FILE st_size rr else SHM_ABSENT)"
    by auto
  moreover have "cl_lock c \<noteq> LOCK_ETIMEDOUT" using assms(4) by (auto simp: RegistryLock_isLocked_def)
  ultimately show ?thesis
    using assms by (simp only: ShmRegistry_cleanupOrphanedRegistry_def mapping_covers_def REGION_BYTES_def HEADER_BYTES_def
        shm_file.case if_True if_False not_True_eq_False not_False_eq_True) simp
qed

definition example_cleanup :: "(int \<Rightarrow> kill_answer) \<Rightarrow> cleanup_env" where
  "example_cleanup kill = \<lparr>cl_open = True, cl_enoent = False, cl_mmap = True, cl_lock = LOCK_OK,
     cl_kill = kill, cl_unlink = True\<rparr>"

theorem orphan_cleanup_exact_witness:
  "ShmRegistry_cleanupOrphanedRegistry (example_cleanup (\<lambda>_. KILL_ESRCH)) (SHM_FILE REGION_BYTES (created_region 7)) =
     Some (True, SHM_ABSENT)"
  by (subst orphan_cleanup_exact)
    (simp_all add: example_cleanup_def RegistryLock_isLocked_def created_region_def)

text \<open>\<open>cleanupOrphanedRegistry\<close> does not look at the size of the object: on an empty one (a
  creator died between \<open>shm_open\<close> and \<open>ftruncate\<close>, the case \<open>initialize\<close> repairs) it touches the
  mutex behind the end of the file and the process dies.\<close>

theorem orphan_cleanup_empty_file:
  "ShmRegistry_cleanupOrphanedRegistry (example_cleanup kill) (SHM_FILE 0 rr) = None \<and>
   fst (ShmRegistry_initialize False
      \<lparr>os_open = True, os_fstat = True, os_ftruncate = True, os_mmap = True, os_pid = 9\<rparr> observe (SHM_FILE 0 rr))"
  by (simp add: ShmRegistry_cleanupOrphanedRegistry_def example_cleanup_def mapping_covers_def HEADER_BYTES_def
      ShmRegistry_initialize_def map_and_create_def)

end
