(* ===== verification/Nexus_Transport.thy ===== *)
theory Nexus_Transport
  imports Nexus_RingBuffer Nexus_ShmRegistry Nexus_Message
begin

unbundle bit_operations_syntax

section \<open>SharedMemoryTransportV3: queues between processes\<close>

text \<open>
  Model of \<open>include/nexus/transport/SharedMemoryTransportV3.h\<close> and
  \<open>src/transport/SharedMemoryTransportV3.cpp\<close>.  Every node owns a segment with a header and 32
  inbound queues, one per sender, each a pair of ring buffers (control and data messages) of
  \<open>Nexus_RingBuffer\<close>.  The segments are objects with an address, and a directory maps names to
  addresses: a mapping, of the owner or of a connection, keeps the address, so that it outlives
  \<open>shm_unlink\<close> and a segment created later under the same name is another object.  The queue that
  belongs to a connection is given by its index (a pointer in C++).  The node registry is that of \<open>Nexus_ShmRegistry\<close>.  Operations are atomic steps; the loops of the receiving
  and of the heartbeat thread are given by one iteration each.  Waking the receiver is part of the
  result of a send: the address that \<open>pthread_cond_signal\<close> gets, or the semaphore.

  Shown: what is sent is delivered, in order and with the sender's name, control messages before
  data messages and at most 16 data messages per queue and pass; queues are assigned once per
  sender; the accessor table is counted exactly; the congestion level is bounded; the heartbeat
  reports exactly the nodes that the clean-up removed.
\<close>

subsection \<open>Data\<close>

datatype NotifyMechanism = CONDITION_VARIABLE | SEMAPHORE | SMART_POLLING

definition CONTROL_QUEUE_SIZE_BYTES :: nat where "CONTROL_QUEUE_SIZE_BYTES = 16 * 1024"
definition DATA_QUEUE_SIZE_BYTES :: nat where "DATA_QUEUE_SIZE_BYTES = 524288"
definition MAX_INBOUND_QUEUES :: nat where "MAX_INBOUND_QUEUES = 32"
definition MAX_ACCESSORS :: nat where "MAX_ACCESSORS = 64"
definition NODE_MAGIC :: u32 where "NODE_MAGIC = 0x4C524E33"
definition NODE_TIMEOUT_MS :: u64 where "NODE_TIMEOUT_MS = 5000"
definition SHM_BACKOFF_BASE_US :: u32 where "SHM_BACKOFF_BASE_US = 10"
definition SHM_BACKOFF_MAX_US :: u32 where "SHM_BACKOFF_MAX_US = 1000"
definition SHM_CONGESTION_INCREMENT :: u32 where "SHM_CONGESTION_INCREMENT = 5"
definition SHM_CONGESTION_DECREMENT :: u32 where "SHM_CONGESTION_DECREMENT = 1"
definition SHM_CONGESTION_MAX :: u32 where "SHM_CONGESTION_MAX = 100"
definition SHM_CONGESTION_INITIAL :: u32 where "SHM_CONGESTION_INITIAL = 10"
definition SHM_QUEUE_REFRESH_INTERVAL :: nat where "SHM_QUEUE_REFRESH_INTERVAL = 10"
definition SHM_EMPTY_LOOP_THRESHOLD_SHORT :: nat where "SHM_EMPTY_LOOP_THRESHOLD_SHORT = 3"
definition SHM_EMPTY_LOOP_THRESHOLD_LONG :: nat where "SHM_EMPTY_LOOP_THRESHOLD_LONG = 10"
definition SHM_TIMEOUT_SHORT_MS :: nat where "SHM_TIMEOUT_SHORT_MS = 1"
definition SHM_TIMEOUT_LONG_MS :: nat where "SHM_TIMEOUT_LONG_MS = 10"
definition SHM_TIMEOUT_IDLE_MS :: nat where "SHM_TIMEOUT_IDLE_MS = 100"
definition SHM_IDLE_SLEEP_MS :: nat where "SHM_IDLE_SLEEP_MS = 10"
definition SHM_ADAPTIVE_THRESHOLD :: nat where "SHM_ADAPTIVE_THRESHOLD = 50"
definition MAX_DATA_PER_QUEUE :: nat where "MAX_DATA_PER_QUEUE = 16"

record InboundQueue =
  iq_sender_id :: "u64 list"
  iq_flags :: u32
  iq_control_pending :: u32
  iq_control_queue :: ring
  iq_data_pending :: u32
  iq_data_queue :: ring
  iq_congestion_level :: u32
  iq_drop_count :: u64

record NodeHeader =
  nh_magic :: u32
  nh_version :: u32
  nh_num_queues :: u32
  nh_max_queues :: u32
  nh_last_heartbeat :: u64
  nh_ready :: bool
  nh_owner_pid :: int
  nh_accessor_pids :: "int list"
  nh_num_accessors :: u32

record NodeSharedMemory =
  ns_header :: NodeHeader
  ns_queues :: "InboundQueue list"

record RemoteConnection =
  rcn_node_id :: string
  rcn_shm_name :: string
  rcn_shm_ptr :: nat
  rcn_my_queue :: "nat option"
  rcn_connected :: bool

record TransportCfg =
  tcf_max_inbound_queues :: nat
  tcf_notify_mechanism :: NotifyMechanism

record Transport =
  tr_node_id :: string
  tr_shm_name :: string
  tr_config :: TransportCfg
  tr_initialized :: bool
  tr_receiving :: bool
  tr_my_shm :: "nat option"
  tr_connections :: "(string, RemoteConnection) omap"
  tr_messages_sent :: u64
  tr_messages_received :: u64
  tr_messages_dropped :: u64
  tr_bytes_sent :: u64
  tr_bytes_received :: u64

definition TransportCfg_default :: TransportCfg where
  "TransportCfg_default = \<lparr>tcf_max_inbound_queues = MAX_INBOUND_QUEUES, tcf_notify_mechanism = CONDITION_VARIABLE\<rparr>"

definition Transport_init :: Transport where
  "Transport_init =
     \<lparr>tr_node_id = [], tr_shm_name = [], tr_config = TransportCfg_default, tr_initialized = False,
      tr_receiving = False, tr_my_shm = None, tr_connections = [], tr_messages_sent = 0, tr_messages_received = 0, tr_messages_dropped = 0,
      tr_bytes_sent = 0, tr_bytes_received = 0\<rparr>"

text \<open>The shared-memory objects of the system: \<open>shm_open\<close> looks up the directory, \<open>shm_unlink\<close> removes a name.\<close>

record segments =
  sg_names :: "string \<Rightarrow> nat option"
  sg_objects :: "nat \<Rightarrow> NodeSharedMemory"
  sg_next :: nat

definition shm_unlink :: "string \<Rightarrow> segments \<Rightarrow> segments" where
  "shm_unlink name segs = segs\<lparr>sg_names := (sg_names segs)(name := None)\<rparr>"

definition set_object :: "nat \<Rightarrow> NodeSharedMemory \<Rightarrow> segments \<Rightarrow> segments" where
  "set_object a shm segs = segs\<lparr>sg_objects := (sg_objects segs)(a := shm)\<rparr>"

definition update_header :: "nat \<Rightarrow> (NodeHeader \<Rightarrow> NodeHeader) \<Rightarrow> segments \<Rightarrow> segments" where
  "update_header a f segs =
     set_object a ((sg_objects segs a)\<lparr>ns_header := f (ns_header (sg_objects segs a))\<rparr>) segs"

definition isControlMessage :: "bytes \<Rightarrow> bool" where
  "isControlMessage data = (if length data < 7 then False else data ! 6 \<noteq> 0)"

subsection \<open>Accessors of a segment\<close>

definition addAccessorToNode :: "int \<Rightarrow> NodeHeader \<Rightarrow> NodeHeader" where
  "addAccessorToNode pid h =
     (if pid \<le> 0 then h
      else case find_index (\<lambda>p. p = 0 \<or> p = pid) (nh_accessor_pids h) of
        None \<Rightarrow> h
      | Some i \<Rightarrow>
          if nh_accessor_pids h ! i = 0
          then h\<lparr>nh_accessor_pids := (nh_accessor_pids h)[i := pid], nh_num_accessors := nh_num_accessors h + 1\<rparr>
          else h)"

definition removeAccessorFromNode :: "int \<Rightarrow> NodeHeader \<Rightarrow> NodeHeader" where
  "removeAccessorFromNode pid h =
     (if pid \<le> 0 then h
      else case find_index (\<lambda>p. p = pid) (nh_accessor_pids h) of
        None \<Rightarrow> h
      | Some i \<Rightarrow> h\<lparr>nh_accessor_pids := (nh_accessor_pids h)[i := 0], nh_num_accessors := nh_num_accessors h - 1\<rparr>)"

text \<open>
  \<open>hasActiveAccessors\<close> drops the dead entries it meets; whether it writes matters for a read-only
  mapping.
\<close>

definition accessor_dead :: "(int \<Rightarrow> kill_answer) \<Rightarrow> int \<Rightarrow> bool" where
  "accessor_dead kill pid \<longleftrightarrow> 0 < pid \<and> kill pid \<noteq> KILL_OK"

definition hasActiveAccessors :: "(int \<Rightarrow> kill_answer) \<Rightarrow> NodeHeader \<Rightarrow> bool \<times> NodeHeader" where
  "hasActiveAccessors kill h =
     (if nh_num_accessors h = 0 then (False, h)
      else (list_ex (\<lambda>pid. 0 < pid \<and> kill pid = KILL_OK) (nh_accessor_pids h),
            h\<lparr>nh_accessor_pids := map (\<lambda>pid. if accessor_dead kill pid then 0 else pid) (nh_accessor_pids h),
              nh_num_accessors := nh_num_accessors h - word_of_nat (count_if (accessor_dead kill) (nh_accessor_pids h))\<rparr>))"

definition hasActiveAccessors_writes :: "(int \<Rightarrow> kill_answer) \<Rightarrow> NodeHeader \<Rightarrow> bool" where
  "hasActiveAccessors_writes kill h \<longleftrightarrow>
     nh_num_accessors h \<noteq> 0 \<and> list_ex (accessor_dead kill) (nh_accessor_pids h)"

subsection \<open>Creating a segment\<close>

definition InboundQueue_init :: InboundQueue where
  "InboundQueue_init =
     \<lparr>iq_sender_id = replicate 8 0, iq_flags = 0, iq_control_pending = 0,
      iq_control_queue = LockFreeRingBuffer CONTROL_QUEUE_SIZE_BYTES, iq_data_pending = 0,
      iq_data_queue = LockFreeRingBuffer DATA_QUEUE_SIZE_BYTES, iq_congestion_level = 0, iq_drop_count = 0\<rparr>"

definition NodeSharedMemory_init :: "int \<Rightarrow> u64 \<Rightarrow> nat \<Rightarrow> NodeSharedMemory" where
  "NodeSharedMemory_init pid now max_queues =
     \<lparr>ns_header = \<lparr>nh_magic = NODE_MAGIC, nh_version = 1, nh_num_queues = 0, nh_max_queues = word_of_nat max_queues,
        nh_last_heartbeat = now, nh_ready = False, nh_owner_pid = pid,
        nh_accessor_pids = replicate MAX_ACCESSORS 0, nh_num_accessors = 0\<rparr>,
      ns_queues = replicate MAX_INBOUND_QUEUES InboundQueue_init\<rparr>"

record segment_os =
  sg_open :: bool
  sg_ftruncate :: bool
  sg_mmap :: bool

definition createMySharedMemory ::
    "segment_os \<Rightarrow> int \<Rightarrow> u64 \<Rightarrow> nat \<Rightarrow> string \<Rightarrow> segments \<Rightarrow> nat option \<times> segments" where
  "createMySharedMemory os pid now max_queues name segs =
     (let segs1 = (if sg_names segs name \<noteq> None \<or> \<not> sg_open os then shm_unlink name segs else segs) in
      if \<not> sg_open os then (None, segs1)
      else if \<not> sg_ftruncate os \<or> \<not> sg_mmap os then (None, shm_unlink name segs1)
      else
        let a = sg_next segs1 in
        (Some a, \<lparr>sg_names = (sg_names segs1)(name \<mapsto> a),
                  sg_objects = (sg_objects segs1)(a := NodeSharedMemory_init pid now max_queues),
                  sg_next = Suc a\<rparr>))"

definition destroyMySharedMemory :: "Transport \<times> segments \<Rightarrow> Transport \<times> segments" where
  "destroyMySharedMemory = (\<lambda>(tr, segs).
     (tr\<lparr>tr_my_shm := None\<rparr>, if tr_shm_name tr = [] then segs else shm_unlink (tr_shm_name tr) segs))"

text \<open>\<open>std::hash\<close> is a parameter; the name holds eight lower-case hexadecimal digits of it.\<close>

definition hex_digit :: "nat \<Rightarrow> char" where
  "hex_digit n = (if n < 10 then char_of (48 + n) else char_of (87 + n))"

definition hex8 :: "nat \<Rightarrow> string" where
  "hex8 n = map (\<lambda>i. hex_digit ((n div 16 ^ (7 - i)) mod 16)) [0..<8]"

definition generateShmName :: "(string \<Rightarrow> nat) \<Rightarrow> nat \<Rightarrow> string \<Rightarrow> string" where
  "generateShmName std_hash pid node_id =
     ''/librpc_node_'' @ show_nat pid @ ''_'' @ hex8 (std_hash node_id mod 2 ^ 32)"

subsection \<open>Queues and connections\<close>

definition queue_sender :: "InboundQueue \<Rightarrow> string" where
  "queue_sender q = readAtomicString (iq_sender_id q) 64"

definition findOrCreateQueue ::
    "NotifyMechanism \<Rightarrow> bool \<Rightarrow> string \<Rightarrow> NodeSharedMemory \<Rightarrow> nat option \<times> NodeSharedMemory" where
  "findOrCreateQueue nm sem_init_ok sender_id shm =
     (let num_queues = nh_num_queues (ns_header shm) in
      case find_index (\<lambda>q. iq_flags q AND 1 \<noteq> 0 \<and> queue_sender q = sender_id)
             (take (unat num_queues) (ns_queues shm)) of
        Some i \<Rightarrow> (Some i, shm)
      | None \<Rightarrow>
          if num_queues \<ge> nh_max_queues (ns_header shm) then (None, shm)
          else case find_index (\<lambda>q. iq_flags q = 0) (ns_queues shm) of
            None \<Rightarrow> (None, shm)
          | Some i \<Rightarrow>
              let q = (ns_queues shm ! i)\<lparr>iq_flags := 1, iq_sender_id := writeAtomicString sender_id 64\<rparr> in
              if nm = SEMAPHORE \<and> \<not> sem_init_ok
              then (None, shm\<lparr>ns_queues := (ns_queues shm)[i := q\<lparr>iq_flags := 0\<rparr>]\<rparr>)
              else
                let q = q\<lparr>iq_control_pending := 0, iq_data_pending := 0\<rparr>;
                    q = (if nm = SEMAPHORE then q else q\<lparr>iq_congestion_level := 0, iq_drop_count := 0\<rparr>);
                    q = q\<lparr>iq_flags := 3\<rparr>
                in (Some i, shm\<lparr>ns_queues := (ns_queues shm)[i := q],
                                ns_header := (ns_header shm)\<lparr>nh_num_queues := num_queues + 1\<rparr>\<rparr>))"

text \<open>
  The registry as \<open>connectToNode\<close> sees it in its up to five attempts, and the answers of
  \<open>shm_open\<close>, \<open>mmap\<close> and \<open>sem_init\<close>.
\<close>

record connect_env =
  cn_registry :: "nat \<Rightarrow> sys_env \<times> RegistryRegion"
  cn_open :: bool
  cn_mmap :: bool
  cn_kill :: "int \<Rightarrow> kill_answer"
  cn_pid :: int
  cn_sem_init :: bool

fun find_with_retry :: "nat \<Rightarrow> (nat \<Rightarrow> sys_env \<times> RegistryRegion) \<Rightarrow> string \<Rightarrow> nat \<Rightarrow> NodeInfo option" where
  "find_with_retry 0 reg nid retry = None"
| "find_with_retry (Suc n) reg nid retry =
     (case ShmRegistry_findNode True (fst (reg retry)) nid (snd (reg retry)) of
        Some info \<Rightarrow> Some info
      | None \<Rightarrow> find_with_retry n reg nid (Suc retry))"

text \<open>The first empty slot of the accessor table gets the caller's id, whether or not it is listed.\<close>

definition record_accessor :: "int \<Rightarrow> NodeHeader \<Rightarrow> bool \<times> NodeHeader" where
  "record_accessor pid h =
     (case find_index (\<lambda>p. p = 0) (nh_accessor_pids h) of
        None \<Rightarrow> (False, h)
      | Some i \<Rightarrow> (True, h\<lparr>nh_accessor_pids := (nh_accessor_pids h)[i := pid], nh_num_accessors := nh_num_accessors h + 1\<rparr>))"

definition connectToNode :: "connect_env \<Rightarrow> string \<Rightarrow> Transport \<times> segments \<Rightarrow> bool \<times> Transport \<times> segments" where
  "connectToNode env target = (\<lambda>(tr, segs).
     if (case om_lookup (tr_connections tr) target of None \<Rightarrow> False | Some conn \<Rightarrow> rcn_connected conn)
     then (True, tr, segs)
     else (case find_with_retry 5 (cn_registry env) target 0 of
         None \<Rightarrow> (False, tr, segs)
       | Some info \<Rightarrow>
          (case sg_names segs (ni_shm_name info) of
             None \<Rightarrow> (False, tr, segs)
           | Some a \<Rightarrow>
               let shm = sg_objects segs a; h = ns_header shm in
               if \<not> cn_open env \<or> \<not> cn_mmap env then (False, tr, segs)
               else if nh_magic h \<noteq> NODE_MAGIC then (False, tr, segs)
               else if \<not> nh_ready h then (False, tr, segs)
               else if 0 < nh_owner_pid h \<and> cn_kill env (nh_owner_pid h) \<noteq> KILL_OK then (False, tr, segs)
               else
                 let (added, h1) = record_accessor (cn_pid env) h;
                     (my_queue, shm2) = findOrCreateQueue (tcf_notify_mechanism (tr_config tr)) (cn_sem_init env)
                        (tr_node_id tr) (shm\<lparr>ns_header := h1\<rparr>)
                 in case my_queue of
                   None \<Rightarrow>
                     let h2 = (if added then removeAccessorFromNode (cn_pid env) (ns_header shm2) else ns_header shm2)
                     in (False, tr, set_object a (shm2\<lparr>ns_header := h2\<rparr>) segs)
                 | Some i \<Rightarrow>
                     (True, tr\<lparr>tr_connections := om_insert target
                              \<lparr>rcn_node_id = target, rcn_shm_name = ni_shm_name info, rcn_shm_ptr = a,
                               rcn_my_queue = Some i, rcn_connected = True\<rparr> (tr_connections tr)\<rparr>,
                      set_object a shm2 segs))))"

definition disconnectFromNode :: "int \<Rightarrow> string \<Rightarrow> Transport \<times> segments \<Rightarrow> Transport \<times> segments" where
  "disconnectFromNode pid target = (\<lambda>(tr, segs).
     case om_lookup (tr_connections tr) target of
       None \<Rightarrow> (tr, segs)
     | Some conn \<Rightarrow>
         (tr\<lparr>tr_connections := om_delete target (tr_connections tr)\<rparr>,
          update_header (rcn_shm_ptr conn) (removeAccessorFromNode pid) segs))"

subsection \<open>Sending\<close>

text \<open>
  The wake-up: in semaphore mode \<open>sem_post\<close> on the queue; otherwise \<open>pthread_cond_signal\<close> on an
  address computed as the queue's address minus \<open>offsetof(NodeSharedMemory, queues)\<close> plus the offset of
  \<open>global_cond\<close>.  The offsets are those of the structs on x86-64 Linux; addresses are relative to
  the start of the receiver's segment.
\<close>

definition OFFSET_global_cond :: nat where "OFFSET_global_cond = 336"
definition OFFSET_queues :: nat where "OFFSET_queues = 448"
definition sizeof_InboundQueue :: nat where "sizeof_InboundQueue = 541760"
definition OFFSET_queue_padding :: nat where "OFFSET_queue_padding = 541648"

datatype wakeup = SIGNAL_COND nat | POST_SEM nat bool

definition queue_address :: "nat \<Rightarrow> nat" where
  "queue_address i = OFFSET_queues + i * sizeof_InboundQueue"

definition signalled_address :: "nat \<Rightarrow> nat" where
  "signalled_address i = queue_address i - OFFSET_queues + OFFSET_global_cond"

definition queue_write :: "bool \<Rightarrow> bytes \<Rightarrow> InboundQueue \<Rightarrow> bool \<times> InboundQueue" where
  "queue_write is_control data q =
     (if is_control
      then (case Ring_tryWrite (iq_control_queue q) data of (ok, rb) \<Rightarrow> (ok, q\<lparr>iq_control_queue := rb\<rparr>))
      else (case Ring_tryWrite (iq_data_queue q) data of (ok, rb) \<Rightarrow> (ok, q\<lparr>iq_data_queue := rb\<rparr>)))"

text \<open>Counting the message as pending; the receiver is woken when none was pending before.\<close>

definition queue_notify :: "NotifyMechanism \<Rightarrow> nat \<Rightarrow> bool \<Rightarrow> InboundQueue \<Rightarrow> InboundQueue \<times> wakeup option" where
  "queue_notify nm i is_control q =
     (let prev = (if is_control then iq_control_pending q else iq_data_pending q);
          q' = (if is_control then q\<lparr>iq_control_pending := prev + 1\<rparr> else q\<lparr>iq_data_pending := prev + 1\<rparr>)
      in (q', if prev \<noteq> 0 then None
              else if nm = SEMAPHORE then Some (POST_SEM i is_control)
              else Some (SIGNAL_COND (signalled_address i))))"

text \<open>Microseconds of back-off before a data message on the fast path.\<close>

definition backoff_us :: "u32 \<Rightarrow> u32" where
  "backoff_us congestion =
     (if congestion > 0 \<and> congestion \<le> SHM_CONGESTION_MAX then
        let us = congestion * SHM_BACKOFF_BASE_US in if us > 0 \<and> us \<le> SHM_BACKOFF_MAX_US then us else 0
      else 0)"

definition send_fast :: "NotifyMechanism \<Rightarrow> nat \<Rightarrow> bytes \<Rightarrow> InboundQueue \<Rightarrow> bool \<times> InboundQueue \<times> wakeup option" where
  "send_fast nm i data q =
     (let is_control = isControlMessage data; (success, q1) = queue_write is_control data q in
      if success then
        let (q2, w) = queue_notify nm i is_control q1
        in (True,
            if \<not> is_control \<and> iq_congestion_level q2 > 0
            then q2\<lparr>iq_congestion_level := iq_congestion_level q2 - SHM_CONGESTION_DECREMENT\<rparr> else q2, w)
      else
        (False,
         if is_control then q1
         else let q2 = q1\<lparr>iq_drop_count := iq_drop_count q1 + 1\<rparr> in
              if iq_congestion_level q2 < SHM_CONGESTION_MAX
              then q2\<lparr>iq_congestion_level := iq_congestion_level q2 + SHM_CONGESTION_INCREMENT\<rparr> else q2, None))"

definition send_after_connect :: "NotifyMechanism \<Rightarrow> nat \<Rightarrow> bytes \<Rightarrow> InboundQueue \<Rightarrow> bool \<times> InboundQueue \<times> wakeup option" where
  "send_after_connect nm i data q =
     (let is_control = isControlMessage data; (success, q1) = queue_write is_control data q in
      if success then let (q2, w) = queue_notify nm i is_control q1 in (True, q2, w)
      else (False, if is_control then q1
                   else q1\<lparr>iq_drop_count := iq_drop_count q1 + 1, iq_congestion_level := SHM_CONGESTION_INITIAL\<rparr>, None))"

text \<open>The queue of a usable connection: \<open>it != end() && connected && my_queue\<close>.\<close>

definition connected_queue :: "Transport \<Rightarrow> string \<Rightarrow> (nat \<times> nat) option" where
  "connected_queue tr dest =
     (case om_lookup (tr_connections tr) dest of
        None \<Rightarrow> None
      | Some conn \<Rightarrow> if rcn_connected conn then map_option (Pair (rcn_shm_ptr conn)) (rcn_my_queue conn) else None)"

definition count_sent :: "bool \<Rightarrow> nat \<Rightarrow> Transport \<Rightarrow> Transport" where
  "count_sent success n tr =
     (if success
      then tr\<lparr>tr_messages_sent := tr_messages_sent tr + 1, tr_bytes_sent := tr_bytes_sent tr + word_of_nat n\<rparr>
      else tr\<lparr>tr_messages_dropped := tr_messages_dropped tr + 1\<rparr>)"

definition send_on ::
    "(NotifyMechanism \<Rightarrow> nat \<Rightarrow> bytes \<Rightarrow> InboundQueue \<Rightarrow> bool \<times> InboundQueue \<times> wakeup option) \<Rightarrow>
     nat \<times> nat \<Rightarrow> bytes \<Rightarrow> Transport \<times> segments \<Rightarrow> bool \<times> (Transport \<times> segments) \<times> wakeup option" where
  "send_on sender = (\<lambda>(a, i) data (tr, segs).
     let shm = sg_objects segs a in
     case sender (tcf_notify_mechanism (tr_config tr)) i data (ns_queues shm ! i) of (success, q, w) \<Rightarrow>
       (success, (count_sent success (length data) tr,
                  set_object a (shm\<lparr>ns_queues := (ns_queues shm)[i := q]\<rparr>) segs), w))"

definition Transport_send ::
    "connect_env \<Rightarrow> string \<Rightarrow> bytes \<Rightarrow> Transport \<times> segments \<Rightarrow> bool \<times> (Transport \<times> segments) \<times> wakeup option" where
  "Transport_send env dest data = (\<lambda>(tr, segs).
     if \<not> tr_initialized tr then (False, (tr, segs), None)
     else if dest = tr_node_id tr then (False, (tr, segs), None)
     else case connected_queue tr dest of
       Some loc \<Rightarrow> send_on send_fast loc data (tr, segs)
     | None \<Rightarrow>
         (case connectToNode env dest (tr, segs) of (ok, tr1, segs1) \<Rightarrow>
            if \<not> ok then (False, (count_sent False (length data) tr1, segs1), None)
            else case connected_queue tr1 dest of
              Some loc \<Rightarrow> send_on send_after_connect loc data (tr1, segs1)
            | None \<Rightarrow> (False, (count_sent False (length data) tr1, segs1), None)))"

fun broadcast_loop ::
    "(string \<Rightarrow> connect_env) \<Rightarrow> bytes \<Rightarrow> NodeInfo list \<Rightarrow> Transport \<times> segments \<Rightarrow> nat \<times> (Transport \<times> segments)" where
  "broadcast_loop env data [] st = (0, st)"
| "broadcast_loop env data (node # nodes) st =
     (if ni_node_id node = tr_node_id (fst st) then broadcast_loop env data nodes st
      else if ni_active node then
        (case Transport_send (env (ni_node_id node)) (ni_node_id node) data st of (ok, st1, w) \<Rightarrow>
           case broadcast_loop env data nodes st1 of (n, st2) \<Rightarrow> (if ok then Suc n else n, st2))
      else broadcast_loop env data nodes st)"

definition Transport_broadcast ::
    "sys_env \<Rightarrow> RegistryRegion \<Rightarrow> (string \<Rightarrow> connect_env) \<Rightarrow> bytes \<Rightarrow> Transport \<times> segments \<Rightarrow> nat \<times> (Transport \<times> segments)" where
  "Transport_broadcast renv rr env data st =
     (if \<not> tr_initialized (fst st) then (0, st)
      else broadcast_loop env data (ShmRegistry_getAllNodes True renv rr) st)"

subsection \<open>Receiving\<close>

text \<open>
  Reading messages until \<open>tryRead\<close> fails or \<open>n\<close> were read.  For the control queue, which the code
  drains without limit, \<open>n\<close> is the size of the ring in bytes, more than the frames it can hold.
\<close>

fun drain :: "nat \<Rightarrow> ring \<Rightarrow> bytes list \<times> ring" where
  "drain 0 rb = ([], rb)"
| "drain (Suc n) rb =
     (case Ring_receive rb of
        (None, rb1) \<Rightarrow> ([], rb1)
      | (Some m, rb1) \<Rightarrow> (case drain n rb1 of (ms, rb2) \<Rightarrow> (m # ms, rb2)))"

definition queue_active :: "InboundQueue \<Rightarrow> bool" where
  "queue_active q \<longleftrightarrow> iq_flags q AND 3 = 3"

definition receive_control :: "NotifyMechanism \<Rightarrow> InboundQueue \<Rightarrow> (string \<times> bytes) list \<times> InboundQueue" where
  "receive_control nm q =
     (if nm \<noteq> SEMAPHORE \<and> iq_control_pending q = 0 then ([], q)
      else if \<not> queue_active q then ([], q)
      else case drain (BUFFER_SIZE (iq_control_queue q)) (iq_control_queue q) of (ms, rb) \<Rightarrow>
        (map (Pair (queue_sender q)) ms,
         q\<lparr>iq_control_queue := rb, iq_control_pending := iq_control_pending q - word_of_nat (length ms)\<rparr>))"

definition receive_data :: "NotifyMechanism \<Rightarrow> InboundQueue \<Rightarrow> (string \<times> bytes) list \<times> InboundQueue" where
  "receive_data nm q =
     (if nm \<noteq> SEMAPHORE \<and> iq_data_pending q = 0 then ([], q)
      else if \<not> queue_active q then ([], q)
      else case drain MAX_DATA_PER_QUEUE (iq_data_queue q) of (ms, rb) \<Rightarrow>
        (map (Pair (queue_sender q)) ms,
         q\<lparr>iq_data_queue := rb, iq_data_pending := iq_data_pending q - word_of_nat (length ms)\<rparr>))"

fun receive_each ::
    "(InboundQueue \<Rightarrow> (string \<times> bytes) list \<times> InboundQueue) \<Rightarrow> nat list \<Rightarrow> InboundQueue list \<Rightarrow>
     (string \<times> bytes) list \<times> InboundQueue list" where
  "receive_each f [] qs = ([], qs)"
| "receive_each f (i # is) qs =
     (case f (qs ! i) of (ms, q) \<Rightarrow>
        case receive_each f is (qs[i := q]) of (ns, qs') \<Rightarrow> (ms @ ns, qs'))"

text \<open>
  The local variables of the receive loops: the cached list of active queues (by index), the number
  of queues it belongs to, and two counters.
\<close>

record receive_cache =
  rv_active_queues :: "nat list"
  rv_cached_num_queues :: u32
  rv_queue_refresh_counter :: nat
  rv_consecutive_empty_loops :: nat

definition receive_cache_init :: receive_cache where
  "receive_cache_init =
     \<lparr>rv_active_queues = [], rv_cached_num_queues = 0, rv_queue_refresh_counter = 0, rv_consecutive_empty_loops = 0\<rparr>"

definition active_queues :: "InboundQueue list \<Rightarrow> nat list" where
  "active_queues qs = filter (\<lambda>i. queue_active (qs ! i)) [0..<length qs]"

text \<open>
  The cache is rebuilt when the number of queues changed or the cache is empty; when the counter
  reaches the interval, only the semaphore loop rebuilds it.
\<close>

definition refresh_queues :: "NotifyMechanism \<Rightarrow> NodeSharedMemory \<Rightarrow> receive_cache \<Rightarrow> receive_cache" where
  "refresh_queues nm shm c =
     (let current_num_queues = nh_num_queues (ns_header shm);
          counter = Suc (rv_queue_refresh_counter c);
          due = counter \<ge> SHM_QUEUE_REFRESH_INTERVAL
      in if current_num_queues \<noteq> rv_cached_num_queues c \<or> rv_active_queues c = [] \<or> (nm = SEMAPHORE \<and> due)
         then c\<lparr>rv_active_queues := active_queues (ns_queues shm), rv_cached_num_queues := current_num_queues,
                rv_queue_refresh_counter := 0\<rparr>
         else c\<lparr>rv_queue_refresh_counter := if due then 0 else counter\<rparr>)"

definition receive_timeout_ms :: "NotifyMechanism \<Rightarrow> nat \<Rightarrow> nat" where
  "receive_timeout_ms nm consecutive_empty_loops =
     (if nm = SEMAPHORE then
        (if consecutive_empty_loops > SHM_ADAPTIVE_THRESHOLD then SHM_TIMEOUT_LONG_MS else SHM_TIMEOUT_SHORT_MS)
      else if consecutive_empty_loops > SHM_EMPTY_LOOP_THRESHOLD_LONG then 100
      else if consecutive_empty_loops > SHM_EMPTY_LOOP_THRESHOLD_SHORT then 50
      else 10)"

text \<open>
  One iteration of a receive loop, with the callback set: what the callback gets, in order, and how
  many milliseconds the loop waits at most before the next iteration.  The received bytes are
  counted in semaphore mode only.
\<close>

definition receive_iteration ::
    "receive_cache \<Rightarrow> Transport \<Rightarrow> NodeSharedMemory \<Rightarrow>
     (string \<times> bytes) list \<times> nat option \<times> receive_cache \<times> Transport \<times> NodeSharedMemory" where
  "receive_iteration c tr shm =
     (let nm = tcf_notify_mechanism (tr_config tr); c = refresh_queues nm shm c in
      if rv_active_queues c = []
      then ([], Some (if nm = SEMAPHORE then SHM_IDLE_SLEEP_MS else SHM_TIMEOUT_IDLE_MS), c, tr, shm)
      else
        let (cs, qs1) = receive_each (receive_control nm) (rv_active_queues c) (ns_queues shm);
            (ds, qs2) = receive_each (receive_data nm) (rv_active_queues c) qs1;
            msgs = cs @ ds;
            empty_loops = (if msgs = [] then Suc (rv_consecutive_empty_loops c) else 0)
        in (msgs, if msgs = [] then Some (receive_timeout_ms nm empty_loops) else None,
            c\<lparr>rv_consecutive_empty_loops := empty_loops\<rparr>,
            tr\<lparr>tr_messages_received := tr_messages_received tr + word_of_nat (length msgs),
               tr_bytes_received := tr_bytes_received tr +
                 (if nm = SEMAPHORE then word_of_nat (\<Sum>m\<leftarrow>msgs. length (snd m)) else 0)\<rparr>,
            shm\<lparr>ns_queues := qs2\<rparr>))"

subsection \<open>Information\<close>

definition getConnectionCount :: "Transport \<Rightarrow> nat" where
  "getConnectionCount tr = count_if (\<lambda>p. rcn_connected (snd p)) (tr_connections tr)"

definition getLocalNodes :: "sys_env \<Rightarrow> RegistryRegion \<Rightarrow> Transport \<Rightarrow> string list" where
  "getLocalNodes renv rr tr =
     (if \<not> tr_initialized tr then []
      else map ni_node_id (filter ni_active (ShmRegistry_getAllNodes True renv rr)))"

definition isLocalNode :: "sys_env \<Rightarrow> RegistryRegion \<Rightarrow> string \<Rightarrow> Transport \<Rightarrow> bool" where
  "isLocalNode renv rr nid tr = (if \<not> tr_initialized tr then False else ShmRegistry_nodeExists True renv nid rr)"

fun connect_all :: "(string \<Rightarrow> connect_env) \<Rightarrow> string list \<Rightarrow> Transport \<times> segments \<Rightarrow> nat \<times> (Transport \<times> segments)" where
  "connect_all env [] st = (0, st)"
| "connect_all env (n # ns) st =
     (case connectToNode (env n) n st of (ok, tr1, segs1) \<Rightarrow>
        case connect_all env ns (tr1, segs1) of (k, st2) \<Rightarrow> (if ok then Suc k else k, st2))"

definition warmupConnections ::
    "sys_env \<Rightarrow> RegistryRegion \<Rightarrow> (string \<Rightarrow> connect_env) \<Rightarrow> Transport \<times> segments \<Rightarrow> nat \<times> (Transport \<times> segments)" where
  "warmupConnections renv rr env st =
     (if \<not> tr_initialized (fst st) then (0, st)
      else connect_all env (map ni_node_id (filter (\<lambda>n. ni_node_id n \<noteq> tr_node_id (fst st) \<and> ni_active n)
             (ShmRegistry_getAllNodes True renv rr))) st)"

record TransportStats =
  ts_messages_sent :: u64
  ts_messages_received :: u64
  ts_messages_dropped :: u64
  ts_bytes_sent :: u64
  ts_bytes_received :: u64
  ts_active_connections :: nat
  ts_inbound_queues :: u32
  ts_total_depth :: nat
  ts_active_queues :: nat

text \<open>The average depth is the quotient of the last two fields, as \<open>double\<close>.\<close>

definition Transport_getStats :: "Transport \<Rightarrow> NodeSharedMemory \<Rightarrow> TransportStats" where
  "Transport_getStats tr shm =
     (let qs = filter queue_active (take (unat (nh_num_queues (ns_header shm))) (ns_queues shm)) in
      \<lparr>ts_messages_sent = tr_messages_sent tr, ts_messages_received = tr_messages_received tr,
       ts_messages_dropped = tr_messages_dropped tr, ts_bytes_sent = tr_bytes_sent tr,
       ts_bytes_received = tr_bytes_received tr, ts_active_connections = getConnectionCount tr,
       ts_inbound_queues = nh_num_queues (ns_header shm),
       ts_total_depth = (\<Sum>q\<leftarrow>qs. Ring_size (iq_control_queue q) + Ring_size (iq_data_queue q)),
       ts_active_queues = length qs\<rparr>)"

subsection \<open>Life of a transport\<close>

text \<open>
  \<open>initialize\<close>: the registry is opened or created, the segment is created, the node registered and
  only then marked ready.
\<close>

definition Transport_initialize ::
    "open_env \<Rightarrow> (nat \<Rightarrow> attempt) \<Rightarrow> sys_env \<Rightarrow> segment_os \<Rightarrow> (string \<Rightarrow> nat) \<Rightarrow> u64 \<Rightarrow> string \<Rightarrow> TransportCfg \<Rightarrow>
     Transport \<times> segments \<times> shm_file \<Rightarrow> bool \<times> Transport \<times> segments \<times> shm_file" where
  "Transport_initialize os observe renv sgos std_hash now node_id config = (\<lambda>(tr, segs, file).
     if tr_initialized tr then (True, tr, segs, file)
     else if node_id = [] then (False, tr, segs, file)
     else if tcf_max_inbound_queues config > MAX_INBOUND_QUEUES then (False, tr, segs, file)
     else
       let tr = tr\<lparr>tr_node_id := node_id, tr_config := config\<rparr> in
       case ShmRegistry_initialize False os observe file of (reg_ok, file1) \<Rightarrow>
         if \<not> reg_ok then (False, tr, segs, file1)
         else
           let name = generateShmName std_hash (unat (env_pid renv)) node_id;
               tr = tr\<lparr>tr_shm_name := name\<rparr> in
           case createMySharedMemory sgos (sint (env_pid renv)) now (tcf_max_inbound_queues config) name segs of
             (None, segs1) \<Rightarrow> (False, tr, segs1, file1)
           | (Some a, segs1) \<Rightarrow>
               let tr = tr\<lparr>tr_my_shm := Some a\<rparr> in
               case file1 of
                 SHM_ABSENT \<Rightarrow> (case destroyMySharedMemory (tr, segs1) of (tr1, segs2) \<Rightarrow> (False, tr1, segs2, file1))
               | SHM_FILE st_size rr \<Rightarrow>
                   (case ShmRegistry_registerNode True renv node_id name rr of (registered, rr1) \<Rightarrow>
                      if \<not> registered
                      then (case destroyMySharedMemory (tr, segs1) of (tr1, segs2) \<Rightarrow> (False, tr1, segs2, SHM_FILE st_size rr1))
                      else (True, tr\<lparr>tr_initialized := True\<rparr>,
                            update_header a (\<lambda>h. h\<lparr>nh_ready := True\<rparr>) segs1, SHM_FILE st_size rr1)))"

text \<open>
  \<open>startReceiving\<close> writes a first heartbeat before it starts the threads; \<open>stopReceiving\<close> returns after
  the threads have ended.
\<close>

definition Transport_startReceiving :: "sys_env \<Rightarrow> Transport \<times> RegistryRegion \<Rightarrow> Transport \<times> RegistryRegion" where
  "Transport_startReceiving env = (\<lambda>(tr, rr).
     if tr_receiving tr then (tr, rr)
     else (tr\<lparr>tr_receiving := True\<rparr>, snd (ShmRegistry_updateHeartbeat True env (tr_node_id tr) rr)))"

definition Transport_stopReceiving :: "Transport \<Rightarrow> Transport" where
  "Transport_stopReceiving tr = (if \<not> tr_receiving tr then tr else tr\<lparr>tr_receiving := False\<rparr>)"

fun leave_connections :: "int \<Rightarrow> RemoteConnection list \<Rightarrow> segments \<Rightarrow> segments" where
  "leave_connections pid [] segs = segs"
| "leave_connections pid (conn # conns) segs =
     leave_connections pid conns (update_header (rcn_shm_ptr conn) (removeAccessorFromNode pid) segs)"

text \<open>The destructor, after the threads have stopped.\<close>

definition Transport_destroy ::
    "sys_env \<Rightarrow> int \<Rightarrow> bool \<Rightarrow> Transport \<times> segments \<times> RegistryRegion \<Rightarrow> segments \<times> RegistryRegion" where
  "Transport_destroy renv pid unlink_ok = (\<lambda>(tr, segs, rr).
     let segs1 = leave_connections pid (map snd (tr_connections tr)) segs;
         segs2 = (case tr_my_shm tr of None \<Rightarrow> segs1 | Some a \<Rightarrow> update_header a (removeAccessorFromNode pid) segs1);
         rr1 = (if tr_initialized tr then snd (ShmRegistry_unregisterNode True renv (tr_node_id tr) rr) else rr)
     in case tr_my_shm tr of
          None \<Rightarrow> (segs2, rr1)
        | Some a \<Rightarrow>
            if tr_shm_name tr = [] then (segs2, rr1)
            else
              let active = fst (hasActiveAccessors (env_kill renv) (ns_header (sg_objects segs2 a)));
                  segs3 = update_header a (\<lambda>h. snd (hasActiveAccessors (env_kill renv) h)) segs2
              in (if \<not> active \<and> unlink_ok then shm_unlink (tr_shm_name tr) segs3 else segs3, rr1))"

text \<open>
  One iteration of the heartbeat thread: the registry calls see the region one after another; the
  result has the nodes for which \<open>NODE_LEFT\<close> is raised.
\<close>

record heartbeat_env =
  he_node_impl :: bool
  he_update :: sys_env
  he_discover :: sys_env
  he_before :: sys_env
  he_cleanup :: sys_env
  he_after :: sys_env
  he_clock_ms :: u64

definition new_nodes :: "Transport \<Rightarrow> NodeInfo list \<Rightarrow> string list" where
  "new_nodes tr all_nodes =
     map ni_node_id (filter (\<lambda>n. ni_node_id n \<noteq> tr_node_id tr \<and>
       \<not> (case om_lookup (tr_connections tr) (ni_node_id n) of None \<Rightarrow> False | Some conn \<Rightarrow> rcn_connected conn)) all_nodes)"

definition removed_nodes :: "string \<Rightarrow> NodeInfo list \<Rightarrow> NodeInfo list \<Rightarrow> string list" where
  "removed_nodes self nodes_before nodes_after =
     filter (\<lambda>n. n \<noteq> self \<and> n \<notin> set (map ni_node_id nodes_after)) (map ni_node_id nodes_before)"

definition heartbeat_iteration ::
    "heartbeat_env \<Rightarrow> (string \<Rightarrow> connect_env) \<Rightarrow> Transport \<times> segments \<times> RegistryRegion \<Rightarrow>
     string list \<times> Transport \<times> segments \<times> RegistryRegion" where
  "heartbeat_iteration he env = (\<lambda>(tr, segs, rr).
     let rr1 = snd (ShmRegistry_updateHeartbeat True (he_update he) (tr_node_id tr) rr);
         segs1 = (case tr_my_shm tr of None \<Rightarrow> segs
                  | Some a \<Rightarrow> update_header a (\<lambda>h. h\<lparr>nh_last_heartbeat := he_clock_ms he\<rparr>) segs);
         (k, tr2, segs2) = connect_all env (new_nodes tr (ShmRegistry_getAllNodes True (he_discover he) rr1)) (tr, segs1);
         nodes_before = ShmRegistry_getAllNodes True (he_before he) rr1;
         (cleaned, rr2) = ShmRegistry_cleanupStaleNodes True (he_cleanup he) NODE_TIMEOUT_MS rr1;
         left = (if 0 < cleaned \<and> he_node_impl he
                 then removed_nodes (tr_node_id tr) nodes_before (ShmRegistry_getAllNodes True (he_after he) rr2)
                 else [])
     in (left, tr2, segs2, rr2))"

text \<open>
  \<open>cleanupOrphanedMemory\<close>: the header of every object \<open>librpc_node_*\<close> is mapped with \<open>PROT_READ\<close>
  only.  A store through that mapping kills the process: the result is \<open>None\<close>.  The objects are taken
  to be long enough for a header (the code looks at one that was never extended, too).
\<close>

record node_object =
  no_name :: string
  no_open :: bool
  no_fstat :: bool
  no_mmap :: bool
  no_header :: NodeHeader
  no_unlink :: bool

definition node_orphan_decision :: "(int \<Rightarrow> kill_answer) \<Rightarrow> NodeHeader \<Rightarrow> bool option" where
  "node_orphan_decision kill h =
     (if nh_magic h \<noteq> NODE_MAGIC then Some True
      else
        let owner_dead = (nh_owner_pid h > 0 \<and> kill (nh_owner_pid h) = KILL_ESRCH) in
        if hasActiveAccessors_writes kill h then None
        else Some (owner_dead \<and> \<not> fst (hasActiveAccessors kill h)))"

fun cleanup_node_objects :: "(int \<Rightarrow> kill_answer) \<Rightarrow> node_object list \<Rightarrow> (nat \<times> node_object list) option" where
  "cleanup_node_objects kill [] = Some (0, [])"
| "cleanup_node_objects kill (obj # dir) =
     (if take 12 (no_name obj) \<noteq> ''librpc_node_'' \<or> \<not> no_open obj \<or> \<not> no_fstat obj \<or> \<not> no_mmap obj
      then map_option (\<lambda>(n, rest). (n, obj # rest)) (cleanup_node_objects kill dir)
      else case node_orphan_decision kill (no_header obj) of
        None \<Rightarrow> None
      | Some should_cleanup \<Rightarrow>
          if should_cleanup \<and> no_unlink obj
          then map_option (\<lambda>(n, rest). (Suc n, rest)) (cleanup_node_objects kill dir)
          else map_option (\<lambda>(n, rest). (n, obj # rest)) (cleanup_node_objects kill dir))"

definition cleanupOrphanedMemory ::
    "bool \<Rightarrow> (int \<Rightarrow> kill_answer) \<Rightarrow> cleanup_env \<Rightarrow> node_object list \<Rightarrow> shm_file \<Rightarrow> (bool \<times> node_object list \<times> shm_file) option" where
  "cleanupOrphanedMemory opendir_ok kill c dir file =
     (if \<not> opendir_ok then Some (False, dir, file)
      else case cleanup_node_objects kill dir of
        None \<Rightarrow> None
      | Some (cleaned_count, rest) \<Rightarrow>
          map_option (\<lambda>(ok, file'). (True, rest, file')) (ShmRegistry_cleanupOrphanedRegistry c file))"

subsection \<open>Content of a segment\<close>

text \<open>
  \<open>queue_rep q (cs, ds)\<close>: the queue holds the control messages \<open>cs\<close> and the data messages \<open>ds\<close>,
  and both pending counters are right.  \<open>cache_ok\<close>: when the receive loop does not rebuild its list
  of active queues, the list is right.
\<close>

definition queue_rep :: "InboundQueue \<Rightarrow> bytes list \<times> bytes list \<Rightarrow> bool" where
  "queue_rep q = (\<lambda>(cs, ds).
     ring_rep (iq_control_queue q) cs \<and> BUFFER_SIZE (iq_control_queue q) = CONTROL_QUEUE_SIZE_BYTES \<and>
     iq_control_pending q = word_of_nat (length cs) \<and>
     ring_rep (iq_data_queue q) ds \<and> BUFFER_SIZE (iq_data_queue q) = DATA_QUEUE_SIZE_BYTES \<and>
     iq_data_pending q = word_of_nat (length ds))"

definition cache_ok :: "receive_cache \<Rightarrow> NodeSharedMemory \<Rightarrow> bool" where
  "cache_ok c shm \<longleftrightarrow>
     rv_cached_num_queues c \<le> nh_num_queues (ns_header shm) \<and>
     (rv_cached_num_queues c = nh_num_queues (ns_header shm) \<longrightarrow>
        rv_active_queues c = [] \<or> rv_active_queues c = active_queues (ns_queues shm))"

text \<open>What a pass over the queues \<open>active\<close> leaves of their content.\<close>

definition pass_rest :: "nat list \<Rightarrow> (bytes list \<times> bytes list) list \<Rightarrow> (bytes list \<times> bytes list) list" where
  "pass_rest active content =
     map (\<lambda>i. if i \<in> set active then ([], drop MAX_DATA_PER_QUEUE (snd (content ! i))) else content ! i) [0..<length content]"

definition from_sender :: "InboundQueue \<Rightarrow> bytes list \<Rightarrow> (string \<times> bytes) list" where
  "from_sender q ms = map (Pair (queue_sender q)) ms"

lemma queue_rep_init: "queue_rep InboundQueue_init ([], [])"
  by (simp add: queue_rep_def InboundQueue_init_def ring_rep_init CONTROL_QUEUE_SIZE_BYTES_def DATA_QUEUE_SIZE_BYTES_def)
    (simp add: LockFreeRingBuffer_def)

lemma queue_rep_lengths:
  "queue_rep q (cs, ds) \<Longrightarrow> length cs \<le> 16384 \<and> length ds \<le> 524288"
  using ring_rep_length [of "iq_control_queue q" cs] ring_rep_length [of "iq_data_queue q" ds]
  by (simp add: queue_rep_def CONTROL_QUEUE_SIZE_BYTES_def DATA_QUEUE_SIZE_BYTES_def)

lemma count_u32_eq_0: "n \<le> 524288 \<Longrightarrow> (word_of_nat n :: u32) = 0 \<longleftrightarrow> n = 0"
  by (simp add: word_of_nat_eq_0_iff) (auto dest: nat_dvd_not_less)

lemma drain_rep:
  "ring_rep rb ms \<Longrightarrow>
   \<exists>rb'. drain n rb = (take n ms, rb') \<and> ring_rep rb' (drop n ms) \<and> rb_buffer rb' = rb_buffer rb"
proof (induction n arbitrary: rb ms)
  case (Suc n)
  show ?case
  proof (cases ms)
    case Nil
    then obtain rb' where "Ring_receive rb = (None, rb')" "ring_rep rb' []"
      using ring_fifo.get_nil [of rb] Suc.prems by auto
    then show ?thesis using Nil Ring_receive_buffer [of rb] by auto
  next
    case (Cons m ms')
    then obtain rb1 where r: "Ring_receive rb = (Some m, rb1)" "ring_rep rb1 ms'"
      using ring_fifo.get_cons [of rb m ms'] Suc.prems by auto
    then show ?thesis
      using Cons Suc.IH [OF r(2)] Ring_receive_buffer [OF r(1)] by auto
  qed
qed simp

lemma receive_control_rep:
  assumes rep: "queue_rep q (cs, ds)" and active: "queue_active q"
  shows "\<exists>q'. receive_control nm q = (from_sender q cs, q') \<and> queue_rep q' ([], ds) \<and>
    iq_flags q' = iq_flags q \<and> iq_sender_id q' = iq_sender_id q"
proof (cases "nm \<noteq> SEMAPHORE \<and> iq_control_pending q = 0")
  case True
  then have "cs = []"
    using rep queue_rep_lengths [OF rep] count_u32_eq_0 [of "length cs"] by (simp add: queue_rep_def)
  then show ?thesis using True rep by (auto simp: receive_control_def from_sender_def)
next
  case False
  obtain rb where "drain (BUFFER_SIZE (iq_control_queue q)) (iq_control_queue q) = (cs, rb)" "ring_rep rb []"
    "rb_buffer rb = rb_buffer (iq_control_queue q)"
    using drain_rep [of "iq_control_queue q" cs "BUFFER_SIZE (iq_control_queue q)"] rep
      ring_rep_length [of "iq_control_queue q" cs] by (auto simp: queue_rep_def)
  then show ?thesis
    using False rep active by (auto simp: receive_control_def queue_rep_def from_sender_def)
qed

lemma receive_data_rep:
  assumes rep: "queue_rep q (cs, ds)" and active: "queue_active q"
  shows "\<exists>q'. receive_data nm q = (from_sender q (take MAX_DATA_PER_QUEUE ds), q') \<and>
    queue_rep q' (cs, drop MAX_DATA_PER_QUEUE ds) \<and> iq_flags q' = iq_flags q \<and> iq_sender_id q' = iq_sender_id q"
proof (cases "nm \<noteq> SEMAPHORE \<and> iq_data_pending q = 0")
  case True
  then have "ds = []"
    using rep queue_rep_lengths [OF rep] count_u32_eq_0 [of "length ds"] by (simp add: queue_rep_def)
  then show ?thesis using True rep by (auto simp: receive_data_def from_sender_def)
next
  case False
  obtain rb where rb: "drain MAX_DATA_PER_QUEUE (iq_data_queue q) = (take MAX_DATA_PER_QUEUE ds, rb)"
    "ring_rep rb (drop MAX_DATA_PER_QUEUE ds)" "rb_buffer rb = rb_buffer (iq_data_queue q)"
    using drain_rep [of "iq_data_queue q" ds MAX_DATA_PER_QUEUE] rep by (auto simp: queue_rep_def)
  have "(word_of_nat (length ds) :: u32) =
      word_of_nat (length (take MAX_DATA_PER_QUEUE ds)) + word_of_nat (length (drop MAX_DATA_PER_QUEUE ds))"
    by (simp only: flip: of_nat_add length_append) simp
  then show ?thesis
    using False rep active rb by (auto simp: receive_data_def queue_rep_def from_sender_def)
qed

lemma receive_each_spec:
  assumes "distinct is" "\<forall>i \<in> set is. i < length qs"
  shows "\<exists>qs'. receive_each f is qs = (concat (map (\<lambda>i. fst (f (qs ! i))) is), qs') \<and> length qs' = length qs \<and>
    (\<forall>j < length qs. qs' ! j = (if j \<in> set is then snd (f (qs ! j)) else qs ! j))"
  using assms
proof (induction "is" arbitrary: qs)
  case (Cons i ns)
  obtain ms q where f: "f (qs ! i) = (ms, q)" by fastforce
  have "distinct ns" "\<forall>k \<in> set ns. k < length (qs[i := q])" using Cons.prems by auto
  from Cons.IH [OF this] obtain qs' where IH: "receive_each f ns (qs[i := q]) = (concat (map (\<lambda>k. fst (f (qs[i := q] ! k))) ns), qs')"
    "length qs' = length qs"
    "\<forall>j < length qs. qs' ! j = (if j \<in> set ns then snd (f (qs[i := q] ! j)) else qs[i := q] ! j)"
    by (elim exE conjE) (simp only: length_list_update)
  have "qs[i := q] ! k = qs ! k" if "k \<in> set ns" for k
    using Cons.prems(1) that by (metis distinct.simps(2) nth_list_update_neq)
  then have "map (\<lambda>k. fst (f (qs[i := q] ! k))) ns = map (\<lambda>k. fst (f (qs ! k))) ns"
    by simp
  with IH(1) have "receive_each f (i # ns) qs = (concat (map (\<lambda>k. fst (f (qs ! k))) (i # ns)), qs')"
    using f by simp
  then show ?case
    using IH(2,3) Cons.prems f by (auto simp: nth_list_update)
qed simp

lemma active_queues_bound: "i \<in> set (active_queues qs) \<longleftrightarrow> i < length qs \<and> queue_active (qs ! i)"
  by (auto simp: active_queues_def)

lemma active_queues_distinct: "distinct (active_queues qs)"
  by (simp add: active_queues_def)

lemma active_queues_flags: "map iq_flags qs' = map iq_flags qs \<Longrightarrow> active_queues qs' = active_queues qs"
proof -
  assume eq: "map iq_flags qs' = map iq_flags qs"
  have "iq_flags (qs' ! i) = iq_flags (qs ! i)" if "i < length qs" for i
    using arg_cong [OF eq, of "\<lambda>xs. xs ! i"] that map_eq_imp_length_eq [OF eq] by simp
  then show ?thesis
    using map_eq_imp_length_eq [OF eq] by (auto simp: active_queues_def queue_active_def intro: filter_cong)
qed

lemma refresh_active:
  "cache_ok c shm \<Longrightarrow>
   rv_active_queues (refresh_queues nm shm c) = active_queues (ns_queues shm) \<and>
   rv_cached_num_queues (refresh_queues nm shm c) = nh_num_queues (ns_header shm)"
  by (auto simp: refresh_queues_def cache_ok_def Let_def)

lemma receive_phase:
  assumes rep: "list_all2 queue_rep qs content"
    and step: "\<And>q cs ds. queue_rep q (cs, ds) \<Longrightarrow> queue_active q \<Longrightarrow>
      \<exists>q'. f q = (from_sender q (sel (cs, ds)), q') \<and> queue_rep q' (rest (cs, ds)) \<and>
        iq_flags q' = iq_flags q \<and> iq_sender_id q' = iq_sender_id q"
  defines "act \<equiv> active_queues qs"
  shows "\<exists>qs'. receive_each f act qs = (concat (map (\<lambda>i. from_sender (qs ! i) (sel (content ! i))) act), qs') \<and>
    list_all2 queue_rep qs' (map (\<lambda>i. if i \<in> set act then rest (content ! i) else content ! i) [0..<length content]) \<and>
    map iq_flags qs' = map iq_flags qs \<and> map iq_sender_id qs' = map iq_sender_id qs"
proof -
  have len: "length content = length qs" using rep by (simp add: list_all2_lengthD)
  have at: "f (qs ! i) = (from_sender (qs ! i) (sel (content ! i)), snd (f (qs ! i))) \<and>
      queue_rep (snd (f (qs ! i))) (rest (content ! i)) \<and> iq_flags (snd (f (qs ! i))) = iq_flags (qs ! i) \<and>
      iq_sender_id (snd (f (qs ! i))) = iq_sender_id (qs ! i)" if "i \<in> set act" for i
    using step [of "qs ! i" "fst (content ! i)" "snd (content ! i)"] that rep
    by (auto simp: act_def active_queues_bound list_all2_conv_all_nth)
  obtain qs' where r: "receive_each f act qs = (concat (map (\<lambda>i. fst (f (qs ! i))) act), qs')" "length qs' = length qs"
    "\<forall>j < length qs. qs' ! j = (if j \<in> set act then snd (f (qs ! j)) else qs ! j)"
    using receive_each_spec [of act qs f] by (auto simp: act_def active_queues_distinct active_queues_bound)
  have msgs: "map (\<lambda>i. fst (f (qs ! i))) act = map (\<lambda>i. from_sender (qs ! i) (sel (content ! i))) act"
    using at by (intro map_cong refl) (metis fst_conv)
  have "list_all2 queue_rep qs' (map (\<lambda>i. if i \<in> set act then rest (content ! i) else content ! i) [0..<length content])"
    using r(2,3) at rep len by (auto simp: list_all2_conv_all_nth)
  moreover have "map iq_flags qs' = map iq_flags qs" "map iq_sender_id qs' = map iq_sender_id qs"
    using r(2,3) at by (auto intro!: nth_equalityI)
  ultimately show ?thesis using r(1) [unfolded msgs] by blast
qed

lemma receive_both_phases:
  assumes rep: "list_all2 queue_rep qs content"
  defines "act \<equiv> active_queues qs"
  obtains qs1 qs2 where
    "receive_each (receive_control nm) act qs = (concat (map (\<lambda>i. from_sender (qs ! i) (fst (content ! i))) act), qs1)"
    "receive_each (receive_data nm) act qs1 =
       (concat (map (\<lambda>i. from_sender (qs ! i) (take MAX_DATA_PER_QUEUE (snd (content ! i)))) act), qs2)"
    "list_all2 queue_rep qs2 (pass_rest act content)"
    "map iq_flags qs2 = map iq_flags qs" "map iq_sender_id qs2 = map iq_sender_id qs"
proof -
  let ?content1 = "map (\<lambda>i. if i \<in> set act then ([], snd (content ! i)) else content ! i) [0..<length content]"
  obtain qs1 where p1: "receive_each (receive_control nm) act qs =
      (concat (map (\<lambda>i. from_sender (qs ! i) (fst (content ! i))) act), qs1)"
    "list_all2 queue_rep qs1 ?content1"
    "map iq_flags qs1 = map iq_flags qs" "map iq_sender_id qs1 = map iq_sender_id qs"
    using receive_phase [OF rep, of "receive_control nm" fst "\<lambda>p. ([], snd p)"] receive_control_rep
    by (auto simp: act_def)
  have act1: "active_queues qs1 = act" using active_queues_flags [OF p1(3)] by (simp add: act_def)
  let ?sel = "\<lambda>p. take MAX_DATA_PER_QUEUE (snd p)" and ?rest = "\<lambda>p. (fst p, drop MAX_DATA_PER_QUEUE (snd p))"
  have "\<exists>qs2. receive_each (receive_data nm) (active_queues qs1) qs1 =
      (concat (map (\<lambda>i. from_sender (qs1 ! i) (?sel (?content1 ! i))) (active_queues qs1)), qs2) \<and>
    list_all2 queue_rep qs2 (map (\<lambda>i. if i \<in> set (active_queues qs1) then ?rest (?content1 ! i)
       else ?content1 ! i) [0..<length ?content1]) \<and> map iq_flags qs2 = map iq_flags qs1 \<and> map iq_sender_id qs2 = map iq_sender_id qs1"
    by (rule receive_phase [OF p1(2), of "receive_data nm" ?sel ?rest]) (use receive_data_rep in auto)
  then obtain qs2 where p2: "receive_each (receive_data nm) act qs1 =
      (concat (map (\<lambda>i. from_sender (qs1 ! i) (?sel (?content1 ! i))) act), qs2)"
    "list_all2 queue_rep qs2 (map (\<lambda>i. if i \<in> set act then ?rest (?content1 ! i) else ?content1 ! i) [0..<length ?content1])"
    "map iq_flags qs2 = map iq_flags qs1" "map iq_sender_id qs2 = map iq_sender_id qs1"
    unfolding act1 by auto
  have len: "length content = length qs" using rep by (simp add: list_all2_lengthD)
  have sender: "queue_sender (qs1 ! i) = queue_sender (qs ! i)" if "i < length qs" for i
    using arg_cong [OF p1(4), of "\<lambda>xs. xs ! i"] that map_eq_imp_length_eq [OF p1(4)] by (simp add: queue_sender_def)
  have data: "map (\<lambda>i. from_sender (qs1 ! i) (?sel (?content1 ! i))) act = map (\<lambda>i. from_sender (qs ! i) (?sel (content ! i))) act"
    using len by (intro map_cong refl) (auto simp: act_def active_queues_bound from_sender_def sender)
  have rest: "map (\<lambda>i. if i \<in> set act then ?rest (?content1 ! i) else ?content1 ! i) [0..<length ?content1] = pass_rest act content"
    by (auto simp: pass_rest_def)
  show thesis
    by (rule that [OF p1(1) p2(1) [unfolded data] p2(2) [unfolded rest]]) (simp_all add: p1(3,4) p2(3,4))
qed

lemma pass_rest_none: "pass_rest [] content = content"
  by (auto simp: pass_rest_def intro: nth_equalityI)

lemma receive_iteration_spec:
  assumes rep: "list_all2 queue_rep (ns_queues shm) content" and cache: "cache_ok c shm"
    and it: "receive_iteration c tr shm = (msgs, wait, c', tr', shm')"
  defines "qs \<equiv> ns_queues shm" and "act \<equiv> active_queues (ns_queues shm)"
  shows "msgs = concat (map (\<lambda>i. from_sender (qs ! i) (fst (content ! i))) act) @
                concat (map (\<lambda>i. from_sender (qs ! i) (take MAX_DATA_PER_QUEUE (snd (content ! i)))) act)"
    "list_all2 queue_rep (ns_queues shm') (pass_rest act content)"
    "map iq_flags (ns_queues shm') = map iq_flags qs" "map iq_sender_id (ns_queues shm') = map iq_sender_id qs"
    "cache_ok c' shm'" "wait = None \<longleftrightarrow> msgs \<noteq> []"
    "tr_messages_received tr' = tr_messages_received tr + word_of_nat (length msgs)"
proof -
  let ?nm = "tcf_notify_mechanism (tr_config tr)"
  note ref = refresh_active [OF cache, of ?nm]
  obtain qs1 qs2 where p: "receive_each (receive_control ?nm) act qs =
      (concat (map (\<lambda>i. from_sender (qs ! i) (fst (content ! i))) act), qs1)"
    "receive_each (receive_data ?nm) act qs1 =
      (concat (map (\<lambda>i. from_sender (qs ! i) (take MAX_DATA_PER_QUEUE (snd (content ! i)))) act), qs2)"
    "list_all2 queue_rep qs2 (pass_rest act content)"
    "map iq_flags qs2 = map iq_flags qs" "map iq_sender_id qs2 = map iq_sender_id qs"
    unfolding act_def qs_def by (rule receive_both_phases [OF rep])
  have split: "(if act = [] then msgs = [] \<and> wait \<noteq> None \<and> c' = refresh_queues ?nm shm c \<and> tr' = tr \<and> shm' = shm
     else msgs = concat (map (\<lambda>i. from_sender (qs ! i) (fst (content ! i))) act) @
        concat (map (\<lambda>i. from_sender (qs ! i) (take MAX_DATA_PER_QUEUE (snd (content ! i)))) act) \<and>
       (wait = None \<longleftrightarrow> msgs \<noteq> []) \<and> rv_active_queues c' = act \<and> rv_cached_num_queues c' = nh_num_queues (ns_header shm) \<and>
       tr_messages_received tr' = tr_messages_received tr + word_of_nat (length msgs) \<and> shm' = shm\<lparr>ns_queues := qs2\<rparr>)"
    using it ref p(1,2) by (auto simp: receive_iteration_def Let_def act_def qs_def split: if_splits)
  show "msgs = concat (map (\<lambda>i. from_sender (qs ! i) (fst (content ! i))) act) @
      concat (map (\<lambda>i. from_sender (qs ! i) (take MAX_DATA_PER_QUEUE (snd (content ! i)))) act)"
    using split by (simp split: if_splits)
  show "list_all2 queue_rep (ns_queues shm') (pass_rest act content)"
    using split p(3) rep pass_rest_none [of content] by (simp split: if_splits)
  show flags: "map iq_flags (ns_queues shm') = map iq_flags qs"
    using split p(4) by (simp add: qs_def split: if_splits)
  show "map iq_sender_id (ns_queues shm') = map iq_sender_id qs"
    using split p(5) by (simp add: qs_def split: if_splits)
  show "cache_ok c' shm'"
    using split ref active_queues_flags [OF flags] by (auto simp: cache_ok_def act_def qs_def split: if_splits)
  show "wait = None \<longleftrightarrow> msgs \<noteq> []" using split by (simp split: if_splits)
  show "tr_messages_received tr' = tr_messages_received tr + word_of_nat (length msgs)"
    using split by (simp split: if_splits)
qed

subsection \<open>Order of delivery\<close>

definition sender_unique :: "InboundQueue list \<Rightarrow> nat \<Rightarrow> bool" where
  "sender_unique qs i \<longleftrightarrow> (\<forall>j \<in> set (active_queues qs). queue_sender (qs ! j) = queue_sender (qs ! i) \<longrightarrow> j = i)"

lemma filter_concat_tagged:
  "distinct is \<Longrightarrow> i \<in> set is \<Longrightarrow> (\<forall>j \<in> set is. tag j = tag i \<longrightarrow> j = i) \<Longrightarrow>
   filter (\<lambda>m. fst m = tag i) (concat (map (\<lambda>j. map (Pair (tag j)) (g j)) is)) = map (Pair (tag i)) (g i)"
proof (induction "is")
  case (Cons j ns)
  have none: "filter (\<lambda>m. fst m = tag i) (concat (map (\<lambda>j. map (Pair (tag j)) (g j)) ns)) = []"
    if "i \<notin> set ns"
    using that Cons.prems(3) by (auto simp: filter_empty_conv)
  show ?case
    using Cons none by (cases "j = i") (auto simp: filter_map comp_def)
qed simp

lemma from_sender_filter:
  assumes "i \<in> set (active_queues qs)" "sender_unique qs i"
  shows "filter (\<lambda>m. fst m = queue_sender (qs ! i)) (concat (map (\<lambda>j. from_sender (qs ! j) (g j)) (active_queues qs))) =
    from_sender (qs ! i) (g i)"
  using filter_concat_tagged [of "active_queues qs" i "\<lambda>j. queue_sender (qs ! j)" g] assms
  by (simp add: from_sender_def sender_unique_def active_queues_distinct)

subsection \<open>Effect of a send\<close>

definition add_message :: "bytes \<Rightarrow> bytes list \<times> bytes list \<Rightarrow> bytes list \<times> bytes list" where
  "add_message m = (\<lambda>(cs, ds). if isControlMessage m then (cs @ [m], ds) else (cs, ds @ [m]))"

definition queue_safe :: "InboundQueue \<Rightarrow> bytes \<Rightarrow> bool" where
  "queue_safe q m \<longleftrightarrow> ring_safe (if isControlMessage m then iq_control_queue q else iq_data_queue q) m"

definition none_pending :: "bytes \<Rightarrow> bytes list \<times> bytes list \<Rightarrow> bool" where
  "none_pending m = (\<lambda>(cs, ds). if isControlMessage m then cs = [] else ds = [])"

text \<open>What every sender of the transport does to a queue, whatever it does to the flow-control fields.\<close>

definition sends_well :: "(NotifyMechanism \<Rightarrow> nat \<Rightarrow> bytes \<Rightarrow> InboundQueue \<Rightarrow> bool \<times> InboundQueue \<times> wakeup option) \<Rightarrow> bool" where
  "sends_well sender \<longleftrightarrow>
     (\<forall>nm i m q c ok q' w. queue_rep q c \<longrightarrow> queue_safe q m \<longrightarrow> sender nm i m q = (ok, q', w) \<longrightarrow>
        queue_rep q' (if ok then add_message m c else c) \<and>
        iq_flags q' = iq_flags q \<and> iq_sender_id q' = iq_sender_id q \<and>
        (w \<noteq> None \<longleftrightarrow> ok \<and> none_pending m c))"

lemma queue_write_rep:
  assumes "queue_rep q (cs, ds)" "queue_safe q m" "queue_write (isControlMessage m) m q = (ok, q')"
  shows "if ok then (\<exists>n. n = (if isControlMessage m then length cs else length ds) \<and>
             queue_rep (fst (queue_notify nm i (isControlMessage m) q')) (add_message m (cs, ds)) \<and>
             (if isControlMessage m then iq_control_pending q' else iq_data_pending q') = word_of_nat n)
         else queue_rep q' (cs, ds)"
    "iq_flags q' = iq_flags q" "iq_sender_id q' = iq_sender_id q"
proof -
  have len: "(word_of_nat (length xs) :: u32) + 1 = word_of_nat (length (xs @ [m]))" for xs
    by simp
  show "if ok then (\<exists>n. n = (if isControlMessage m then length cs else length ds) \<and>
             queue_rep (fst (queue_notify nm i (isControlMessage m) q')) (add_message m (cs, ds)) \<and>
             (if isControlMessage m then iq_control_pending q' else iq_data_pending q') = word_of_nat n)
         else queue_rep q' (cs, ds)"
    using assms
    by (cases ok; cases "isControlMessage m")
      (auto simp: queue_write_def queue_rep_def queue_safe_def add_message_def queue_notify_def Let_def
        split: prod.splits dest: ring_fifo.put_accept ring_fifo.put_reject Ring_tryWrite_buffer_size)
  show "iq_flags q' = iq_flags q" "iq_sender_id q' = iq_sender_id q"
    using assms(3) by (auto simp: queue_write_def split: if_splits prod.splits)
qed

lemma queue_rep_flow [simp]:
  "queue_rep (q\<lparr>iq_congestion_level := x\<rparr>) c = queue_rep q c"
  "queue_rep (q\<lparr>iq_drop_count := y\<rparr>) c = queue_rep q c"
  by (simp_all add: queue_rep_def)

lemma queue_notify_effect:
  "queue_notify nm i k q = (q', w) \<Longrightarrow>
   iq_flags q' = iq_flags q \<and> iq_sender_id q' = iq_sender_id q \<and>
   (w \<noteq> None \<longleftrightarrow> (if k then iq_control_pending q else iq_data_pending q) = 0)"
  by (auto simp: queue_notify_def Let_def split: if_splits)

lemma queue_write_notify_rep:
  assumes rep: "queue_rep q c" and safe: "queue_safe q m"
    and wr: "queue_write (isControlMessage m) m q = (True, q1)"
    and no: "queue_notify nm i (isControlMessage m) q1 = (q2, w)"
  shows "queue_rep q2 (add_message m c)" "iq_flags q2 = iq_flags q" "iq_sender_id q2 = iq_sender_id q"
    "w \<noteq> None \<longleftrightarrow> none_pending m c"
proof -
  obtain cs ds where c: "c = (cs, ds)" by fastforce
  note w1 = queue_write_rep(1) [OF rep [unfolded c] safe wr, of nm i]
  note w23 = queue_write_rep(2,3) [OF rep [unfolded c] safe wr]
  note len = queue_rep_lengths [OF rep [unfolded c]]
  show "queue_rep q2 (add_message m c)" using w1 no c by simp
  show "iq_flags q2 = iq_flags q" "iq_sender_id q2 = iq_sender_id q"
    using w23 queue_notify_effect [OF no] by auto
  show "w \<noteq> None \<longleftrightarrow> none_pending m c"
    using w1 queue_notify_effect [OF no] c len count_u32_eq_0 [of "length cs"] count_u32_eq_0 [of "length ds"]
    by (auto simp: none_pending_def split: if_splits)
qed

lemma queue_write_rejected:
  "queue_rep q c \<Longrightarrow> queue_safe q m \<Longrightarrow> queue_write (isControlMessage m) m q = (False, q1) \<Longrightarrow>
   queue_rep q1 c \<and> iq_flags q1 = iq_flags q \<and> iq_sender_id q1 = iq_sender_id q"
  using queue_write_rep [of q "fst c" "snd c" m False q1] by simp

lemma sends_well_send_fast: "sends_well send_fast"
  unfolding sends_well_def
proof (intro allI impI)
  fix nm i m q c ok q' w
  assume a: "queue_rep q c" "queue_safe q m" and s: "send_fast nm i m q = (ok, q', w)"
  obtain b q1 where wr: "queue_write (isControlMessage m) m q = (b, q1)" by fastforce
  obtain q2 v where no: "queue_notify nm i (isControlMessage m) q1 = (q2, v)" by fastforce
  show "queue_rep q' (if ok then add_message m c else c) \<and> iq_flags q' = iq_flags q \<and>
      iq_sender_id q' = iq_sender_id q \<and> (w \<noteq> None \<longleftrightarrow> ok \<and> none_pending m c)"
    using s wr no queue_write_notify_rep [OF a _ no] queue_write_rejected [OF a, of q1]
    by (cases b) (auto simp: send_fast_def Let_def split: if_splits)
qed

lemma sends_well_send_after_connect: "sends_well send_after_connect"
  unfolding sends_well_def
proof (intro allI impI)
  fix nm i m q c ok q' w
  assume a: "queue_rep q c" "queue_safe q m" and s: "send_after_connect nm i m q = (ok, q', w)"
  obtain b q1 where wr: "queue_write (isControlMessage m) m q = (b, q1)" by fastforce
  obtain q2 v where no: "queue_notify nm i (isControlMessage m) q1 = (q2, v)" by fastforce
  show "queue_rep q' (if ok then add_message m c else c) \<and> iq_flags q' = iq_flags q \<and>
      iq_sender_id q' = iq_sender_id q \<and> (w \<noteq> None \<longleftrightarrow> ok \<and> none_pending m c)"
    using s wr no queue_write_notify_rep [OF a _ no] queue_write_rejected [OF a, of q1]
    by (cases b) (auto simp: send_after_connect_def Let_def split: if_splits)
qed

text \<open>\<open>segment_rep segs a content\<close>: the queues of the segment at address \<open>a\<close> hold \<open>content\<close>.\<close>

definition segment_rep :: "segments \<Rightarrow> nat \<Rightarrow> (bytes list \<times> bytes list) list \<Rightarrow> bool" where
  "segment_rep segs a content \<longleftrightarrow> list_all2 queue_rep (ns_queues (sg_objects segs a)) content"

definition same_queue_names :: "segments \<Rightarrow> segments \<Rightarrow> nat \<Rightarrow> bool" where
  "same_queue_names segs segs' a \<longleftrightarrow>
     ns_header (sg_objects segs' a) = ns_header (sg_objects segs a) \<and>
     map iq_flags (ns_queues (sg_objects segs' a)) = map iq_flags (ns_queues (sg_objects segs a)) \<and>
     map iq_sender_id (ns_queues (sg_objects segs' a)) = map iq_sender_id (ns_queues (sg_objects segs a))"

lemma map_update_same: "i < length xs \<Longrightarrow> f y = f (xs ! i) \<Longrightarrow> map f (xs[i := y]) = map f xs"
  by (metis length_map list_update_id map_update nth_map)

lemma send_on_spec:
  assumes well: "sends_well sender" and rep: "segment_rep segs a content" and i: "i < length content"
    and safe: "queue_safe (ns_queues (sg_objects segs a) ! i) m"
    and s: "send_on sender (a, i) m (tr, segs) = (ok, (tr', segs'), w)"
  shows "segment_rep segs' a (if ok then content[i := add_message m (content ! i)] else content)"
    "same_queue_names segs segs' a" "tr' = count_sent ok (length m) tr"
    "w \<noteq> None \<longleftrightarrow> ok \<and> none_pending m (content ! i)"
    "b \<noteq> a \<Longrightarrow> sg_objects segs' b = sg_objects segs b" "sg_names segs' = sg_names segs"
proof -
  let ?qs = "ns_queues (sg_objects segs a)"
  have len: "length content = length ?qs" using rep by (simp add: segment_rep_def list_all2_lengthD)
  obtain q where q: "sender (tcf_notify_mechanism (tr_config tr)) i m (?qs ! i) = (ok, q, w)"
    "tr' = count_sent ok (length m) tr" "segs' = set_object a ((sg_objects segs a)\<lparr>ns_queues := ?qs[i := q]\<rparr>) segs"
    using s by (auto simp: send_on_def Let_def split: prod.splits)
  have "queue_rep (?qs ! i) (content ! i)" using rep i len by (simp add: segment_rep_def list_all2_conv_all_nth)
  then have e: "queue_rep q (if ok then add_message m (content ! i) else content ! i)"
    "iq_flags q = iq_flags (?qs ! i)" "iq_sender_id q = iq_sender_id (?qs ! i)" "w \<noteq> None \<longleftrightarrow> ok \<and> none_pending m (content ! i)"
    using well q(1) safe unfolding sends_well_def by blast+
  show "segment_rep segs' a (if ok then content[i := add_message m (content ! i)] else content)"
    using e(1) rep i len unfolding segment_rep_def q(3) set_object_def
    by (auto simp: list_all2_conv_all_nth nth_list_update)
  show "same_queue_names segs segs' a"
    using e(2,3) i len by (simp add: same_queue_names_def q(3) set_object_def map_update_same)
  show "tr' = count_sent ok (length m) tr" "w \<noteq> None \<longleftrightarrow> ok \<and> none_pending m (content ! i)" using q(2) e(4) by auto
  show "sg_objects segs' b = sg_objects segs b" if "b \<noteq> a" using that by (simp add: q(3) set_object_def)
  show "sg_names segs' = sg_names segs" by (simp add: q(3) set_object_def)
qed

lemma Transport_send_connected:
  "tr_initialized tr \<Longrightarrow> dest \<noteq> tr_node_id tr \<Longrightarrow> connected_queue tr dest = Some loc \<Longrightarrow>
   Transport_send env dest m (tr, segs) = send_on send_fast loc m (tr, segs)"
  by (simp add: Transport_send_def)

lemma count_sent_keeps [simp]:
  "tr_initialized (count_sent ok n tr) = tr_initialized tr" "tr_node_id (count_sent ok n tr) = tr_node_id tr"
  "connected_queue (count_sent ok n tr) dest = connected_queue tr dest"
  by (simp_all add: count_sent_def connected_queue_def)

lemma same_queue_names_trans:
  "same_queue_names s1 s2 a \<Longrightarrow> same_queue_names s2 s3 a \<Longrightarrow> same_queue_names s1 s3 a"
  by (simp add: same_queue_names_def)

subsection \<open>Queue slots\<close>

text \<open>
  The queues are handed out in order and never taken back: the first \<open>num_queues\<close> slots are valid and
  active with distinct senders, the others are free.
\<close>

definition slots_ok :: "NodeSharedMemory \<Rightarrow> bool" where
  "slots_ok shm \<longleftrightarrow>
     (let n = unat (nh_num_queues (ns_header shm)); qs = ns_queues shm in
      length qs = MAX_INBOUND_QUEUES \<and> n \<le> unat (nh_max_queues (ns_header shm)) \<and>
      unat (nh_max_queues (ns_header shm)) \<le> MAX_INBOUND_QUEUES \<and>
      (\<forall>i < length qs. iq_flags (qs ! i) = (if i < n then 3 else 0)) \<and>
      (\<forall>i < n. \<forall>j < n. queue_sender (qs ! i) = queue_sender (qs ! j) \<longrightarrow> i = j))"

lemma slots_ok_init:
  assumes "max_queues \<le> MAX_INBOUND_QUEUES" shows "slots_ok (NodeSharedMemory_init pid now max_queues)"
proof -
  have "unat (word_of_nat max_queues :: u32) = max_queues"
    using assms by (subst unat_of_nat) (simp add: MAX_INBOUND_QUEUES_def)
  then show ?thesis
    using assms by (simp add: slots_ok_def Let_def NodeSharedMemory_init_def InboundQueue_init_def)
qed

lemma slots_ok_active:
  assumes "slots_ok shm" "i < unat (nh_num_queues (ns_header shm))"
  shows "i \<in> set (active_queues (ns_queues shm))" "sender_unique (ns_queues shm) i"
proof -
  have f: "queue_active (ns_queues shm ! j) \<longleftrightarrow> j < unat (nh_num_queues (ns_header shm))" if "j < length (ns_queues shm)" for j
    using assms(1) that by (auto simp: slots_ok_def Let_def queue_active_def)
  show "i \<in> set (active_queues (ns_queues shm))" "sender_unique (ns_queues shm) i"
    using assms f by (auto simp: slots_ok_def Let_def active_queues_bound sender_unique_def)
qed

lemma find_index_SomeI:
  "i < length xs \<Longrightarrow> P (xs ! i) \<Longrightarrow> (\<And>j. j < i \<Longrightarrow> \<not> P (xs ! j)) \<Longrightarrow> find_index P xs = Some i"
proof (induction xs arbitrary: i)
  case (Cons x xs)
  show ?case
  proof (cases i)
    case (Suc k)
    then have "\<not> P x" using Cons.prems(3) [of 0] by simp
    moreover have "find_index P xs = Some k"
      using Cons.IH [of k] Cons.prems(1,2) Cons.prems(3) [of "Suc _"] Suc by simp
    ultimately show ?thesis using Suc by simp
  qed (use Cons.prems in simp)
qed simp

lemma findOrCreateQueue_known:
  assumes "slots_ok shm" "i < unat (nh_num_queues (ns_header shm))" "queue_sender (ns_queues shm ! i) = sender"
  shows "findOrCreateQueue nm sem_ok sender shm = (Some i, shm)"
proof -
  let ?n = "unat (nh_num_queues (ns_header shm))"
  have "find_index (\<lambda>q. iq_flags q AND 1 \<noteq> 0 \<and> queue_sender q = sender) (take ?n (ns_queues shm)) = Some i"
  proof (intro find_index_SomeI)
    fix j assume "j < i"
    then have "j < ?n" "j \<noteq> i" using assms(2) by auto
    then have "queue_sender (ns_queues shm ! j) \<noteq> sender"
      using assms unfolding slots_ok_def Let_def by metis
    then show "\<not> (iq_flags (take ?n (ns_queues shm) ! j) AND 1 \<noteq> 0 \<and> queue_sender (take ?n (ns_queues shm) ! j) = sender)"
      using \<open>j < ?n\<close> by simp
  qed (use assms in \<open>auto simp: slots_ok_def Let_def\<close>)
  then show ?thesis by (simp add: findOrCreateQueue_def)
qed

lemma find_queue_none:
  assumes "\<forall>i < n. queue_sender (qs ! i) \<noteq> sender"
  shows "find_index (\<lambda>q. iq_flags q AND 1 \<noteq> 0 \<and> queue_sender q = sender) (take n qs) = None"
  unfolding find_index_None_iff
proof
  fix q assume "q \<in> set (take n qs)"
  then obtain i where "i < n" "q = qs ! i" by (auto simp: in_set_conv_nth)
  then show "\<not> (iq_flags q AND 1 \<noteq> 0 \<and> queue_sender q = sender)" using assms by simp
qed

lemma findOrCreateQueue_new:
  assumes ok: "slots_ok shm" and n: "n = unat (nh_num_queues (ns_header shm))"
    and new: "\<forall>i < n. queue_sender (ns_queues shm ! i) \<noteq> sender"
    and room: "n < unat (nh_max_queues (ns_header shm))" and sem: "nm \<noteq> SEMAPHORE \<or> sem_ok"
    and sender: "no_nul sender" "length sender < 64"
  obtains shm' where "findOrCreateQueue nm sem_ok sender shm = (Some n, shm')" "slots_ok shm'"
    "unat (nh_num_queues (ns_header shm')) = Suc n" "queue_sender (ns_queues shm' ! n) = sender"
    "\<forall>j < MAX_INBOUND_QUEUES. j \<noteq> n \<longrightarrow> ns_queues shm' ! j = ns_queues shm ! j"
    "nh_max_queues (ns_header shm') = nh_max_queues (ns_header shm)"
proof -
  let ?h = "ns_header shm" and ?qs = "ns_queues shm"
  have len: "length ?qs = MAX_INBOUND_QUEUES" "unat (nh_max_queues ?h) \<le> MAX_INBOUND_QUEUES"
    and flags: "\<And>i. i < length ?qs \<Longrightarrow> iq_flags (?qs ! i) = (if i < n then 3 else 0)"
    using ok n by (auto simp: slots_ok_def Let_def)
  have old: "find_index (\<lambda>q. iq_flags q AND 1 \<noteq> 0 \<and> queue_sender q = sender) (take n ?qs) = None"
    using new by (rule find_queue_none)
  have free: "find_index (\<lambda>q. iq_flags q = 0) ?qs = Some n"
    using len room flags by (intro find_index_SomeI) auto
  have lt: "\<not> nh_max_queues ?h \<le> nh_num_queues ?h" using room n by (simp add: word_le_nat_alt)
  define q where "q = (let q = (?qs ! n)\<lparr>iq_flags := 1, iq_sender_id := writeAtomicString sender 64\<rparr>;
      q = q\<lparr>iq_control_pending := 0, iq_data_pending := 0\<rparr>;
      q = (if nm = SEMAPHORE then q else q\<lparr>iq_congestion_level := 0, iq_drop_count := 0\<rparr>) in q\<lparr>iq_flags := 3\<rparr>)"
  define shm' where "shm' = shm\<lparr>ns_queues := ?qs[n := q], ns_header := ?h\<lparr>nh_num_queues := nh_num_queues ?h + 1\<rparr>\<rparr>"
  have q: "iq_flags q = 3" "queue_sender q = sender"
    using sender by (simp_all add: q_def queue_sender_def Let_def)
  have num: "unat (nh_num_queues ?h + 1) = Suc n"
  proof -
    have "n < 32" using room len by (simp add: MAX_INBOUND_QUEUES_def)
    moreover have "nh_num_queues ?h + 1 = word_of_nat (Suc n)" using n by (simp add: add.commute)
    ultimately show ?thesis by (simp only: unat_of_nat) simp
  qed
  have "findOrCreateQueue nm sem_ok sender shm = (Some n, shm')"
    using old [unfolded n] free lt sem by (simp add: findOrCreateQueue_def Let_def n shm'_def q_def)
  moreover have "slots_ok shm'"
    using ok room len num q new n
    by (auto simp: slots_ok_def Let_def shm'_def nth_list_update less_Suc_eq)
  ultimately show thesis
    using that [of shm'] q num len room by (auto simp: shm'_def)
qed

subsection \<open>The accessor table\<close>

definition accessors_ok :: "NodeHeader \<Rightarrow> bool" where
  "accessors_ok h \<longleftrightarrow>
     length (nh_accessor_pids h) = MAX_ACCESSORS \<and> (\<forall>p \<in> set (nh_accessor_pids h). 0 \<le> p) \<and>
     nh_num_accessors h = word_of_nat (count_if (\<lambda>p. p \<noteq> 0) (nh_accessor_pids h))"

lemma accessors_ok_init: "accessors_ok (ns_header (NodeSharedMemory_init pid now max_queues))"
  by (simp add: accessors_ok_def NodeSharedMemory_init_def)

lemma accessors_ok_set:
  assumes ok: "accessors_ok h" and i: "i < length (nh_accessor_pids h)" and p: "0 \<le> p"
    and n: "n + (if nh_accessor_pids h ! i \<noteq> 0 then 1 else 0) = nh_num_accessors h + (if p \<noteq> 0 then 1 else 0)"
  shows "accessors_ok (h\<lparr>nh_accessor_pids := (nh_accessor_pids h)[i := p], nh_num_accessors := n\<rparr>)"
proof -
  let ?c = "count_if (\<lambda>p. p \<noteq> 0)" and ?ps = "nh_accessor_pids h"
  have "?c (?ps[i := p]) + (if ?ps ! i \<noteq> 0 then 1 else 0) = ?c ?ps + (if p \<noteq> 0 then 1 else 0)"
    using i by (rule count_if_update)
  from arg_cong [OF this, of "word_of_nat :: nat \<Rightarrow> u32"]
  have "word_of_nat (?c (?ps[i := p])) + (if ?ps ! i \<noteq> 0 then 1 else 0) = n + (if ?ps ! i \<noteq> 0 then 1 else (0 :: u32))"
    unfolding n using ok by (simp add: accessors_ok_def split: if_splits)
  then have "n = word_of_nat (?c (?ps[i := p]))" by simp
  then show ?thesis
    using ok p set_update_subset_insert [of ?ps i p] by (auto simp: accessors_ok_def)
qed

lemma accessors_ok_add: "accessors_ok h \<Longrightarrow> accessors_ok (addAccessorToNode pid h)"
  by (auto simp: addAccessorToNode_def split: option.splits dest: find_index_SomeD intro!: accessors_ok_set)

lemma accessors_ok_record:
  "accessors_ok h \<Longrightarrow> 0 < pid \<Longrightarrow> accessors_ok (snd (record_accessor pid h))"
  by (auto simp: record_accessor_def split: option.splits dest!: find_index_SomeD intro!: accessors_ok_set)

lemma accessors_ok_remove: "accessors_ok h \<Longrightarrow> accessors_ok (removeAccessorFromNode pid h)"
  by (auto simp: removeAccessorFromNode_def split: option.splits dest!: find_index_SomeD intro!: accessors_ok_set)

lemma count_dead_accessors:
  "count_if (\<lambda>p. p \<noteq> 0) (map (\<lambda>p. if accessor_dead kill p then 0 else p) ps) + count_if (accessor_dead kill) ps =
   count_if (\<lambda>p. p \<noteq> 0) ps"
  by (induction ps) (auto simp: accessor_dead_def)

lemma accessors_ok_active:
  assumes "accessors_ok h"
  shows "accessors_ok (snd (hasActiveAccessors kill h))"
    "fst (hasActiveAccessors kill h) \<longleftrightarrow> (\<exists>p \<in> set (nh_accessor_pids h). p \<noteq> 0 \<and> kill p = KILL_OK)"
proof -
  let ?ps = "nh_accessor_pids h"
  have "count_if (\<lambda>p. p \<noteq> 0) ?ps \<le> 64"
    using assms length_filter_le [of _ ?ps] by (simp add: accessors_ok_def MAX_ACCESSORS_def count_if_def)
  then have zero: "nh_num_accessors h = 0 \<longleftrightarrow> (\<forall>p \<in> set ?ps. p = 0)"
    using assms count_u32_eq_0 [of "count_if (\<lambda>p. p \<noteq> 0) ?ps"] by (simp add: accessors_ok_def count_if_0)
  have "(word_of_nat (count_if (\<lambda>p. p \<noteq> 0) ?ps) :: u32) =
      word_of_nat (count_if (\<lambda>p. p \<noteq> 0) (map (\<lambda>p. if accessor_dead kill p then 0 else p) ?ps)) +
      word_of_nat (count_if (accessor_dead kill) ?ps)"
    unfolding of_nat_add [symmetric] count_dead_accessors ..
  then show "accessors_ok (snd (hasActiveAccessors kill h))"
    using assms by (auto simp: hasActiveAccessors_def accessors_ok_def)
  show "fst (hasActiveAccessors kill h) \<longleftrightarrow> (\<exists>p \<in> set ?ps. p \<noteq> 0 \<and> kill p = KILL_OK)"
  proof (cases "nh_num_accessors h = 0")
    case False
    have "0 < p \<longleftrightarrow> p \<noteq> 0" if "p \<in> set ?ps" for p
      using assms that by (auto simp: accessors_ok_def order_less_le)
    then show ?thesis using False by (simp add: hasActiveAccessors_def list_ex_iff cong: conj_cong bex_cong)
  qed (use zero in \<open>simp add: hasActiveAccessors_def\<close>)
qed

subsection \<open>Nodes that left\<close>

lemma region_map_node_id:
  assumes "region_map rr n = Some i" shows "ni_node_id i = n"
  using assms by (auto simp: region_map_def entry_key_def entry_info_def elim!: slot_lookup_SomeE split: if_splits)

lemma getAllNodes_ids:
  assumes "region_ok rr" "RegistryLock_isLocked (env_lock e)"
  shows "set (map ni_node_id (ShmRegistry_getAllNodes True e rr)) = dom (region_map rr)"
proof -
  have "set (ShmRegistry_getAllNodes True e rr) = ran (region_map rr)"
    using assms by (simp add: ShmRegistry_getAllNodes_def ran_region_map)
  then show ?thesis
    using region_map_node_id [of rr] by (auto simp: ran_def dom_def)
qed

lemma removed_nodes_set:
  "set (removed_nodes self before after) = set (map ni_node_id before) - insert self (set (map ni_node_id after))"
  by (auto simp: removed_nodes_def)

lemma same_queue_names_props:
  assumes "same_queue_names segs segs' a"
  shows "slots_ok (sg_objects segs a) \<Longrightarrow> slots_ok (sg_objects segs' a)"
    "cache_ok c (sg_objects segs a) \<Longrightarrow> cache_ok c (sg_objects segs' a)"
    "i < length (ns_queues (sg_objects segs a)) \<Longrightarrow>
     queue_sender (ns_queues (sg_objects segs' a) ! i) = queue_sender (ns_queues (sg_objects segs a) ! i)"
proof -
  let ?qs = "ns_queues (sg_objects segs a)" and ?qs' = "ns_queues (sg_objects segs' a)"
  have h: "ns_header (sg_objects segs' a) = ns_header (sg_objects segs a)"
    and f: "map iq_flags ?qs' = map iq_flags ?qs" and s: "map iq_sender_id ?qs' = map iq_sender_id ?qs"
    using assms by (auto simp: same_queue_names_def)
  have len: "length ?qs' = length ?qs" using f map_eq_imp_length_eq by blast
  have fl: "iq_flags (?qs' ! j) = iq_flags (?qs ! j)" if "j < length ?qs" for j
    using arg_cong [OF f, of "\<lambda>xs. xs ! j"] that len by simp
  have se: "queue_sender (?qs' ! j) = queue_sender (?qs ! j)" if "j < length ?qs" for j
    using arg_cong [OF s, of "\<lambda>xs. xs ! j"] that len by (simp add: queue_sender_def)
  show "slots_ok (sg_objects segs' a)" if "slots_ok (sg_objects segs a)"
    using that fl se len by (simp add: slots_ok_def Let_def h)
  show "cache_ok c (sg_objects segs' a)" if "cache_ok c (sg_objects segs a)"
    using that active_queues_flags [OF f] by (simp add: cache_ok_def h)
  show "i < length ?qs \<Longrightarrow> queue_sender (?qs' ! i) = queue_sender (?qs ! i)" by (rule se)
qed

subsection \<open>A sender and a receiver\<close>

text \<open>
  A connected sender and the receive loop of its destination, working on the same segment in any
  order: each event is a call of \<open>send\<close> or one iteration of the receive loop.  The result has the
  accepted messages and what the receive callback got.
\<close>

datatype link_event = LE_SEND bytes | LE_PASS

type_synonym link_state = "(Transport \<times> segments) \<times> receive_cache \<times> Transport"

fun link_run :: "connect_env \<Rightarrow> string \<Rightarrow> nat \<Rightarrow> link_event list \<Rightarrow> link_state \<Rightarrow> bytes list \<times> (string \<times> bytes) list \<times> link_state" where
  "link_run env dest a [] st = ([], [], st)"
| "link_run env dest a (LE_SEND m # es) (ts, rs) =
     (case Transport_send env dest m ts of (ok, ts1, w) \<Rightarrow>
        case link_run env dest a es (ts1, rs) of (acc, got, st') \<Rightarrow> (if ok then m # acc else acc, got, st'))"
| "link_run env dest a (LE_PASS # es) ((tr, segs), (c, rtr)) =
     (case receive_iteration c rtr (sg_objects segs a) of (ms, wait, c1, rtr1, shm1) \<Rightarrow>
        case link_run env dest a es ((tr, set_object a shm1 segs), (c1, rtr1)) of (acc, got, st') \<Rightarrow> (acc, ms @ got, st'))"

text \<open>No send wraps while the write position of its ring is exactly at the end of the buffer.\<close>

fun link_safe :: "connect_env \<Rightarrow> string \<Rightarrow> nat \<times> nat \<Rightarrow> link_event list \<Rightarrow> link_state \<Rightarrow> bool" where
  "link_safe env dest loc [] st = True"
| "link_safe env dest loc (LE_SEND m # es) (ts, rs) =
     (queue_safe (ns_queues (sg_objects (snd ts) (fst loc)) ! snd loc) m \<and>
      link_safe env dest loc es (fst (snd (Transport_send env dest m ts)), rs))"
| "link_safe env dest loc (LE_PASS # es) ((tr, segs), (c, rtr)) =
     (case receive_iteration c rtr (sg_objects segs (fst loc)) of (ms, wait, c1, rtr1, shm1) \<Rightarrow>
        link_safe env dest loc es ((tr, set_object (fst loc) shm1 segs), (c1, rtr1)))"

definition link_ok :: "string \<Rightarrow> nat \<times> nat \<Rightarrow> string \<Rightarrow> (bytes list \<times> bytes list) list \<Rightarrow> link_state \<Rightarrow> bool" where
  "link_ok dest = (\<lambda>(a, i) sender content ((tr, segs), (c, rtr)).
     tr_initialized tr \<and> dest \<noteq> tr_node_id tr \<and> connected_queue tr dest = Some (a, i) \<and>
     slots_ok (sg_objects segs a) \<and> i < unat (nh_num_queues (ns_header (sg_objects segs a))) \<and>
     queue_sender (ns_queues (sg_objects segs a) ! i) = sender \<and>
     segment_rep segs a content \<and> cache_ok c (sg_objects segs a))"

definition messages_from :: "string \<Rightarrow> (string \<times> bytes) list \<Rightarrow> bytes list" where
  "messages_from sender ms = map snd (filter (\<lambda>m. fst m = sender) ms)"

definition sorted_content :: "bytes list \<times> bytes list \<Rightarrow> bool" where
  "sorted_content = (\<lambda>(cs, ds). (\<forall>m \<in> set cs. isControlMessage m) \<and> (\<forall>m \<in> set ds. \<not> isControlMessage m))"

lemma messages_from_append [simp]: "messages_from s (xs @ ys) = messages_from s xs @ messages_from s ys"
  by (simp add: messages_from_def)

lemma link_ok_bound: "link_ok dest (a, i) sender content st \<Longrightarrow> i < length content"
  by (auto simp: link_ok_def slots_ok_def Let_def segment_rep_def dest!: list_all2_lengthD split: prod.splits)

lemma link_send:
  assumes "link_ok dest (a, i) sender content (ts, rs)" "queue_safe (ns_queues (sg_objects (snd ts) a) ! i) m"
    "Transport_send env dest m ts = (ok, ts1, w)"
  shows "link_ok dest (a, i) sender (if ok then content[i := add_message m (content ! i)] else content) (ts1, rs)"
proof -
  obtain tr segs c rtr tr1 segs1 where st: "ts = (tr, segs)" "rs = (c, rtr)" "ts1 = (tr1, segs1)" by (metis surj_pair)
  note ok = assms(1) [unfolded st link_ok_def prod.case]
  have s: "send_on send_fast (a, i) m (tr, segs) = (ok, (tr1, segs1), w)"
    using assms(3) Transport_send_connected [of tr dest "(a, i)" env m segs] ok by (simp add: st)
  note spec = send_on_spec [OF sends_well_send_fast _ link_ok_bound [OF assms(1)] _ s]
  have rep: "segment_rep segs1 a (if ok then content[i := add_message m (content ! i)] else content)"
    "same_queue_names segs segs1 a" "tr1 = count_sent ok (length m) tr"
    using spec(1-3) ok assms(2) by (auto simp: st)
  have "i < length (ns_queues (sg_objects segs a))" using ok by (simp add: slots_ok_def Let_def)
  then show ?thesis
    using ok rep same_queue_names_props [OF rep(2)] by (simp add: st link_ok_def same_queue_names_def)
qed

lemma link_pass:
  assumes "link_ok dest (a, i) sender content ((tr, segs), (c, rtr))"
    "receive_iteration c rtr (sg_objects segs a) = (ms, wait, c1, rtr1, shm1)"
  shows "link_ok dest (a, i) sender (pass_rest (active_queues (ns_queues (sg_objects segs a))) content) ((tr, set_object a shm1 segs), (c1, rtr1))"
    "pass_rest (active_queues (ns_queues (sg_objects segs a))) content ! i = ([], drop MAX_DATA_PER_QUEUE (snd (content ! i)))"
    "messages_from sender ms = fst (content ! i) @ take MAX_DATA_PER_QUEUE (snd (content ! i))"
proof -
  let ?shm = "sg_objects segs a" let ?act = "active_queues (ns_queues ?shm)" and ?segs1 = "set_object a shm1 segs"
  note ok = assms(1) [unfolded link_ok_def prod.case]
  note spec = receive_iteration_spec [OF _ _ assms(2)]
  have rep: "list_all2 queue_rep (ns_queues ?shm) content" and cache: "cache_ok c ?shm" using ok by (auto simp: segment_rep_def)
  note spec = receive_iteration_spec [OF rep cache assms(2)]
  have act: "i \<in> set ?act" "sender_unique (ns_queues ?shm) i" using slots_ok_active ok by auto
  have hdr: "ns_header shm1 = ns_header ?shm"
    using assms(2) by (auto simp: receive_iteration_def Let_def split: if_splits prod.splits)
  have same: "same_queue_names segs ?segs1 a"
    using hdr spec(3,4) by (simp add: same_queue_names_def set_object_def)
  have i: "i < length (ns_queues ?shm)" using ok by (simp add: slots_ok_def Let_def)
  show "link_ok dest (a, i) sender (pass_rest ?act content) ((tr, ?segs1), (c1, rtr1))"
    using ok same_queue_names_props [OF same] spec(2,5) hdr i by (simp add: link_ok_def segment_rep_def set_object_def)
  show "pass_rest ?act content ! i = ([], drop MAX_DATA_PER_QUEUE (snd (content ! i)))"
    using act link_ok_bound [OF assms(1)] by (simp add: pass_rest_def)
  show "messages_from sender ms = fst (content ! i) @ take MAX_DATA_PER_QUEUE (snd (content ! i))"
    unfolding spec(1) messages_from_append
    using from_sender_filter [OF act] ok by (simp add: messages_from_def from_sender_def comp_def)
qed

lemma link_run_spec:
  assumes "link_ok dest (a, i) sender content st" "sorted_content (content ! i)" "link_safe env dest (a, i) es st"
    "link_run env dest a es st = (acc, got, st')"
  shows "\<exists>content'. link_ok dest (a, i) sender content' st' \<and> sorted_content (content' ! i) \<and>
    filter isControlMessage (messages_from sender got) @ fst (content' ! i) = fst (content ! i) @ filter isControlMessage acc \<and>
    filter (\<lambda>m. \<not> isControlMessage m) (messages_from sender got) @ snd (content' ! i) =
      snd (content ! i) @ filter (\<lambda>m. \<not> isControlMessage m) acc"
  using assms
proof (induction es arbitrary: content st acc got)
  case Nil
  then show ?case by (auto simp: messages_from_def)
next
  case (Cons e es)
  obtain tr segs c rtr where st: "st = ((tr, segs), (c, rtr))" by (metis surj_pair)
  note bound = link_ok_bound [OF Cons.prems(1)]
  show ?case
  proof (cases e)
    case (LE_SEND m)
    obtain ok ts1 w where s: "Transport_send env dest m (tr, segs) = (ok, ts1, w)" by (metis prod_cases3)
    obtain acc1 where r: "link_run env dest a es (ts1, (c, rtr)) = (acc1, got, st')" "acc = (if ok then m # acc1 else acc1)"
      using Cons.prems(4) s by (auto simp: st LE_SEND split: prod.splits)
    let ?content = "if ok then content[i := add_message m (content ! i)] else content"
    have safe: "queue_safe (ns_queues (sg_objects segs a) ! i) m" "link_safe env dest (a, i) es (ts1, (c, rtr))"
      using Cons.prems(3) s by (simp_all add: st LE_SEND)
    have ok1: "link_ok dest (a, i) sender ?content (ts1, (c, rtr))"
      using link_send [OF Cons.prems(1) [unfolded st] _ s] safe(1) by simp
    have "sorted_content (?content ! i)"
      using Cons.prems(2) bound by (auto simp: sorted_content_def add_message_def split: prod.splits)
    from Cons.IH [OF ok1 this safe(2) r(1)] show ?thesis
      using bound r(2) by (auto simp: add_message_def split: if_splits prod.splits)
  next
    case LE_PASS
    obtain ms wait c1 rtr1 shm1 where it: "receive_iteration c rtr (sg_objects segs a) = (ms, wait, c1, rtr1, shm1)"
      by (metis prod_cases5)
    obtain got1 where r: "link_run env dest a es ((tr, set_object a shm1 segs), (c1, rtr1)) = (acc, got1, st')" "got = ms @ got1"
      using Cons.prems(4) it by (auto simp: st LE_PASS split: prod.splits)
    have safe: "link_safe env dest (a, i) es ((tr, set_object a shm1 segs), (c1, rtr1))"
      using Cons.prems(3) it by (simp add: st LE_PASS)
    note p = link_pass [OF Cons.prems(1) [unfolded st] it]
    obtain cs ds where c: "content ! i = (cs, ds)" by fastforce
    note typed = Cons.prems(2) [unfolded c sorted_content_def prod.case]
    have "sorted_content (pass_rest (active_queues (ns_queues (sg_objects segs a))) content ! i)"
      using typed by (auto simp: p(2) c sorted_content_def dest: in_set_dropD)
    from Cons.IH [OF p(1) this safe r(1)] obtain content' where content': "link_ok dest (a, i) sender content' st'"
      "sorted_content (content' ! i)" "filter isControlMessage (messages_from sender got1) @ fst (content' ! i) = filter isControlMessage acc"
      "filter (\<lambda>m. \<not> isControlMessage m) (messages_from sender got1) @ snd (content' ! i) =
        drop MAX_DATA_PER_QUEUE ds @ filter (\<lambda>m. \<not> isControlMessage m) acc"
      by (auto simp: p(2) c)
    have "filter isControlMessage (messages_from sender ms) = cs"
      "filter (\<lambda>m. \<not> isControlMessage m) (messages_from sender ms) = take MAX_DATA_PER_QUEUE ds"
      using typed by (auto simp: p(3) c filter_empty_conv filter_id_conv dest: in_set_takeD)
    moreover have "take n ds @ drop n ds @ xs = ds @ xs" for n xs by (simp flip: append_assoc)
    ultimately show ?thesis
      using content' by (intro exI [of _ content']) (simp add: r(2) c)
  qed
qed


lemma link_run_append:
  "link_run env dest a (es @ es') st =
     (case link_run env dest a es st of (acc, got, st1) \<Rightarrow>
        case link_run env dest a es' st1 of (acc', got', st2) \<Rightarrow> (acc @ acc', got @ got', st2))"
  by (induction env dest a es st rule: link_run.induct) (auto split: prod.splits)

lemma link_safe_passes:
  "link_safe env dest loc es st \<Longrightarrow> link_safe env dest loc (es @ replicate k LE_PASS) st"
proof (induction env dest loc es st rule: link_safe.induct)
  case (1 env dest loc st)
  show ?case
  proof (induction k arbitrary: st)
    case (Suc k)
    then show ?case by (cases st) (auto split: prod.splits)
  qed simp
qed (auto split: prod.splits)

text \<open>Iterations with nothing sent in between.\<close>

lemma link_passes:
  assumes "link_ok dest (a, i) sender content st" "link_run env dest a (replicate k LE_PASS) st = (acc, got, st')"
  shows "acc = [] \<and> messages_from sender got = (if k = 0 then [] else fst (content ! i) @ take (k * MAX_DATA_PER_QUEUE) (snd (content ! i)))"
  using assms
proof (induction k arbitrary: content st got)
  case (Suc k)
  obtain tr segs c rtr where st: "st = ((tr, segs), (c, rtr))" by (metis surj_pair)
  obtain ms wait c1 rtr1 shm1 where it: "receive_iteration c rtr (sg_objects segs a) = (ms, wait, c1, rtr1, shm1)"
    by (metis prod_cases5)
  obtain got1 where r: "link_run env dest a (replicate k LE_PASS) ((tr, set_object a shm1 segs), (c1, rtr1)) = (acc, got1, st')" "got = ms @ got1"
    using Suc.prems(2) it by (auto simp: st split: prod.splits)
  note p = link_pass [OF Suc.prems(1) [unfolded st] it]
  show ?case using Suc.IH [OF p(1) r(1)] r(2) by (auto simp: p(2,3) take_add)
qed (simp add: messages_from_def)

lemma link_run_accepted:
  "link_run env dest a es st = (acc, got, st') \<Longrightarrow> length acc \<le> length es"
proof (induction env dest a es st arbitrary: acc got rule: link_run.induct)
  case (2 env dest a m es ts rs)
  then show ?case by (fastforce split: prod.splits if_splits)
next
  case (3 env dest a es tr segs c rtr)
  then show ?case by (fastforce split: prod.splits)
qed simp

subsection \<open>Examples\<close>

definition example_queue :: InboundQueue where
  "example_queue = InboundQueue_init\<lparr>iq_flags := 3, iq_sender_id := writeAtomicString ''a'' 64\<rparr>"

definition example_node_shm :: NodeSharedMemory where
  "example_node_shm =
     (NodeSharedMemory_init 7 0 32)\<lparr>
        ns_header := (ns_header (NodeSharedMemory_init 7 0 32))\<lparr>nh_num_queues := 1\<rparr>,
        ns_queues := example_queue # replicate 31 InboundQueue_init\<rparr>"

definition example_segments :: segments where
  "example_segments = \<lparr>sg_names = [''/b'' \<mapsto> 0], sg_objects = \<lambda>_. example_node_shm, sg_next = 1\<rparr>"

definition example_sender :: Transport where
  "example_sender = Transport_init\<lparr>tr_node_id := ''a'', tr_initialized := True,
     tr_connections := [(''b'', \<lparr>rcn_node_id = ''b'', rcn_shm_name = ''/b'', rcn_shm_ptr = 0, rcn_my_queue = Some 0,
                                 rcn_connected = True\<rparr>)]\<rparr>"

definition example_connect_env :: connect_env where
  "example_connect_env = \<lparr>cn_registry = \<lambda>_. (example_env, created_region 7), cn_open = True, cn_mmap = True,
     cn_kill = \<lambda>_. KILL_OK, cn_pid = 9, cn_sem_init = True\<rparr>"

lemma queue_sender_example: "queue_sender example_queue = ''a''"
  by (simp add: queue_sender_def example_queue_def no_nul_def)

lemma slots_ok_example: "slots_ok example_node_shm"
proof -
  have n: "nh_num_queues (ns_header example_node_shm) = 1" "nh_max_queues (ns_header example_node_shm) = 32"
    "ns_queues example_node_shm = example_queue # replicate 31 InboundQueue_init"
    by (simp_all add: example_node_shm_def NodeSharedMemory_init_def)
  have "iq_flags ((example_queue # replicate 31 InboundQueue_init) ! i) = (if i < 1 then 3 else 0)" if "i < 32" for i
    using that by (cases i) (auto simp: example_queue_def InboundQueue_init_def)
  then show ?thesis by (simp add: slots_ok_def Let_def n MAX_INBOUND_QUEUES_def)
qed

lemma segment_rep_example: "segment_rep example_segments 0 (replicate 32 ([], []))"
proof -
  have "queue_rep example_queue ([], [])"
    using queue_rep_init by (simp add: queue_rep_def example_queue_def)
  then have "list_all2 queue_rep (example_queue # replicate 31 InboundQueue_init) (([], []) # replicate 31 ([], []))"
    by (auto intro!: list_all2_all_nthI simp: queue_rep_init)
  moreover have "([], []) # replicate 31 ([], []) = (replicate 32 ([], []) :: (bytes list \<times> bytes list) list)"
    by (simp add: numeral_eq_Suc)
  ultimately show ?thesis
    by (simp add: segment_rep_def example_segments_def example_node_shm_def)
qed

lemma cache_ok_init: "cache_ok receive_cache_init shm"
  by (simp add: cache_ok_def receive_cache_init_def)

lemma example_link_ok: "link_ok ''b'' (0, 0) ''a'' (replicate 32 ([], [])) ((example_sender, example_segments), (receive_cache_init, Transport_init))"
  using slots_ok_example segment_rep_example cache_ok_init queue_sender_example
  by (auto simp: link_ok_def example_sender_def connected_queue_def om_lookup_def example_segments_def example_node_shm_def)

subsection \<open>Properties\<close>

text \<open>C6: Delivery over shared memory from one connected sender, for any interleaving of its calls of \<open>send\<close>
  with iterations of the receive loop, followed by enough further iterations (16 data messages each):
  the callback has got from this sender exactly what was waiting in its queue and the messages that
  \<open>send\<close> accepted, each once and unchanged, control messages in order and data messages in order.
  Excluded by \<open>link_safe\<close> is a send that wraps while the write position is exactly at the end of the
  buffer, after which the receiver reads behind the buffer (C35); messages that \<open>send\<close> rejected
  because a ring was full are not delivered.\<close>

theorem messages_delivered:
  assumes "link_ok dest (a, i) sender content st" "sorted_content (content ! i)" "link_safe env dest (a, i) es st"
    "link_run env dest a (es @ replicate k LE_PASS) st = (acc, got, st')" "0 < k"
    "length (snd (content ! i)) + length es \<le> k * MAX_DATA_PER_QUEUE"
  shows "filter isControlMessage (messages_from sender got) = fst (content ! i) @ filter isControlMessage acc \<and>
    filter (\<lambda>m. \<not> isControlMessage m) (messages_from sender got) = snd (content ! i) @ filter (\<lambda>m. \<not> isControlMessage m) acc"
proof -
  obtain acc1 got1 st1 where one: "link_run env dest a es st = (acc1, got1, st1)" by (metis prod_cases3)
  obtain acc2 got2 where two: "link_run env dest a (replicate k LE_PASS) st1 = (acc2, got2, st')" "acc = acc1 @ acc2" "got = got1 @ got2"
    using assms(4) one by (auto simp: link_run_append split: prod.splits)
  from link_run_spec [OF assms(1-3) one] obtain content' where c: "link_ok dest (a, i) sender content' st1" "sorted_content (content' ! i)"
    "filter isControlMessage (messages_from sender got1) @ fst (content' ! i) = fst (content ! i) @ filter isControlMessage acc1"
    "filter (\<lambda>m. \<not> isControlMessage m) (messages_from sender got1) @ snd (content' ! i) =
      snd (content ! i) @ filter (\<lambda>m. \<not> isControlMessage m) acc1" by blast
  have "length (snd (content' ! i)) \<le> length (snd (content ! i)) + length acc1"
    using arg_cong [OF c(4), of length] length_filter_le [of "\<lambda>m. \<not> isControlMessage m" acc1]
    unfolding length_append by linarith
  then have "length (snd (content' ! i)) \<le> k * MAX_DATA_PER_QUEUE" using assms(6) link_run_accepted [OF one] by simp
  then have fin: "acc2 = []" "messages_from sender got2 = fst (content' ! i) @ snd (content' ! i)"
    using link_passes [OF c(1) two(1)] assms(5) by auto
  have "filter isControlMessage (messages_from sender got2) = fst (content' ! i)"
    "filter (\<lambda>m. \<not> isControlMessage m) (messages_from sender got2) = snd (content' ! i)"
    using c(2) by (auto simp: fin(2) sorted_content_def filter_empty_conv filter_id_conv split: prod.splits)
  then show ?thesis using c(3,4) by (simp add: two(2,3) fin(1))
qed

theorem messages_delivered_witness:
  "case link_run example_connect_env ''b'' 0 ([LE_SEND [0, 0, 0, 0, 0, 0, 5]] @ replicate 1 LE_PASS)
       ((example_sender, example_segments), (receive_cache_init, Transport_init)) of
     (acc, got, st') \<Rightarrow> filter isControlMessage (messages_from ''a'' got) = filter isControlMessage acc"
proof -
  let ?m = "[0, 0, 0, 0, 0, 0, 5] :: bytes" and ?st = "((example_sender, example_segments), (receive_cache_init, Transport_init))"
  have safe: "link_safe example_connect_env ''b'' (0, 0) [LE_SEND ?m] ?st"
    by (simp add: queue_safe_def ring_safe_def isControlMessage_def example_segments_def example_node_shm_def example_queue_def
        InboundQueue_init_def LockFreeRingBuffer_def CONTROL_QUEUE_SIZE_BYTES_def)
  obtain acc got st' where r: "link_run example_connect_env ''b'' 0 ([LE_SEND ?m] @ replicate 1 LE_PASS) ?st = (acc, got, st')"
    by (metis prod_cases3)
  have "filter isControlMessage (messages_from ''a'' got) = filter isControlMessage acc"
    using messages_delivered [OF example_link_ok _ safe r] by (simp add: sorted_content_def MAX_DATA_PER_QUEUE_def)
  then show ?thesis by (simp only: r prod.case)
qed

text \<open>C12: One iteration of the receive loop, exactly: the callback gets all control messages of all active
  queues and then at most 16 data messages of each, in queue order; precisely these are removed, the
  pending counters stay right, and the loop waits only if there was nothing to deliver.\<close>

theorem receive_iteration_exact:
  assumes "list_all2 queue_rep (ns_queues shm) content" "cache_ok c shm"
    "receive_iteration c tr shm = (msgs, wait, c', tr', shm')"
  defines "qs \<equiv> ns_queues shm" and "act \<equiv> active_queues (ns_queues shm)"
  shows "msgs = concat (map (\<lambda>i. from_sender (qs ! i) (fst (content ! i))) act) @
                concat (map (\<lambda>i. from_sender (qs ! i) (take MAX_DATA_PER_QUEUE (snd (content ! i)))) act) \<and>
    list_all2 queue_rep (ns_queues shm') (pass_rest act content) \<and> cache_ok c' shm' \<and>
    (wait = None \<longleftrightarrow> msgs \<noteq> []) \<and> tr_messages_received tr' = tr_messages_received tr + word_of_nat (length msgs)"
  unfolding qs_def act_def using receive_iteration_spec [OF assms(1-3)] by blast

theorem receive_iteration_exact_witness:
  "case receive_iteration receive_cache_init Transport_init example_node_shm of (msgs, wait, c', tr', shm') \<Rightarrow>
     wait \<noteq> None \<and> msgs = [] \<and> cache_ok c' shm'"
proof -
  obtain msgs wait c' tr' shm' where it:
    "receive_iteration receive_cache_init Transport_init example_node_shm = (msgs, wait, c', tr', shm')"
    by (metis prod_cases5)
  have rep: "list_all2 queue_rep (ns_queues example_node_shm) (replicate 32 ([], []))"
    using segment_rep_example by (simp add: segment_rep_def example_segments_def)
  have "length (ns_queues example_node_shm) = 32" using list_all2_lengthD [OF rep] by simp
  then have "msgs = []"
    using receive_iteration_exact [OF rep cache_ok_init it] by (auto simp: from_sender_def active_queues_bound)
  moreover have "cache_ok c' shm'" "wait = None \<longleftrightarrow> msgs \<noteq> []"
    using receive_iteration_exact [OF rep cache_ok_init it] by blast+
  ultimately show ?thesis by (simp add: it)
qed

text \<open>C13: Queues are assigned once per sender: \<open>findOrCreateQueue\<close> returns the slot that the sender already
  has, otherwise the next free one while the limit is not reached, and nothing else; it keeps the slots
  contiguous with distinct senders, disturbs no other queue, and the next call of the same sender
  returns the same slot.\<close>

theorem queue_assignment:
  assumes "slots_ok shm" "no_nul sender" "length sender < 64" "nm \<noteq> SEMAPHORE \<or> sem_ok"
    "findOrCreateQueue nm sem_ok sender shm = (slot, shm')"
  defines "n \<equiv> unat (nh_num_queues (ns_header shm))"
  shows "slots_ok shm' \<and>
    (case slot of
       Some i \<Rightarrow> queue_sender (ns_queues shm' ! i) = sender \<and> findOrCreateQueue nm sem_ok sender shm' = (Some i, shm') \<and>
         (if \<exists>j < n. queue_sender (ns_queues shm ! j) = sender then shm' = shm
          else i = n \<and> (\<forall>j < MAX_INBOUND_QUEUES. j \<noteq> n \<longrightarrow> ns_queues shm' ! j = ns_queues shm ! j))
     | None \<Rightarrow> shm' = shm \<and> n = unat (nh_max_queues (ns_header shm)) \<and> (\<forall>j < n. queue_sender (ns_queues shm ! j) \<noteq> sender))"
proof (cases "\<exists>j < n. queue_sender (ns_queues shm ! j) = sender")
  case True
  then obtain j where j: "j < n" "queue_sender (ns_queues shm ! j) = sender" by blast
  note known = findOrCreateQueue_known [OF assms(1) j [unfolded n_def]]
  show ?thesis using known assms(1,5) True j(2) by auto
next
  case new: False
  show ?thesis
  proof (cases "n < unat (nh_max_queues (ns_header shm))")
    case room: True
    have "\<forall>i < n. queue_sender (ns_queues shm ! i) \<noteq> sender" using new by blast
    from findOrCreateQueue_new [OF assms(1) n_def [THEN meta_eq_to_obj_eq] this room assms(4,2,3)]
    obtain s where s: "findOrCreateQueue nm sem_ok sender shm = (Some n, s)" "slots_ok s"
      "unat (nh_num_queues (ns_header s)) = Suc n" "queue_sender (ns_queues s ! n) = sender"
      "\<forall>j < MAX_INBOUND_QUEUES. j \<noteq> n \<longrightarrow> ns_queues s ! j = ns_queues shm ! j" by blast
    have "findOrCreateQueue nm sem_ok sender s = (Some n, s)"
      using findOrCreateQueue_known [OF s(2) _ s(4)] s(3) by simp
    then show ?thesis using s assms(5) new by auto
  next
    case full: False
    have "find_index (\<lambda>q. iq_flags q AND 1 \<noteq> 0 \<and> queue_sender q = sender) (take n (ns_queues shm)) = None"
      using new by (intro find_queue_none) blast
    moreover have "n \<le> unat (nh_max_queues (ns_header shm))" using assms(1) by (simp add: slots_ok_def Let_def n_def)
    ultimately show ?thesis
      using full assms(1,5) new by (auto simp: findOrCreateQueue_def Let_def n_def word_le_nat_alt)
  qed
qed

theorem queue_assignment_witness:
  "case findOrCreateQueue CONDITION_VARIABLE True ''b'' example_node_shm of (slot, shm') \<Rightarrow> slot = Some 1 \<and> slots_ok shm'"
proof -
  obtain slot shm' where f: "findOrCreateQueue CONDITION_VARIABLE True ''b'' example_node_shm = (slot, shm')" by fastforce
  have q: "ns_queues example_node_shm ! 0 = example_queue" "nh_num_queues (ns_header example_node_shm) = 1"
    "nh_max_queues (ns_header example_node_shm) = 32"
    by (simp_all add: example_node_shm_def NodeSharedMemory_init_def)
  show ?thesis
    using queue_assignment [OF slots_ok_example _ _ _ f]
    by (auto simp: f q queue_sender_example no_nul_def split: option.splits)
qed

text \<open>C29: The accessor table is exact: \<open>num_accessors\<close> is the number of recorded processes after adding,
  removing and checking accessors, and \<open>hasActiveAccessors\<close> is true exactly when some recorded process
  answers \<open>kill(pid, 0)\<close> with success.\<close>

theorem accessor_count_exact:
  assumes "accessors_ok h" "0 < pid"
  shows "accessors_ok (addAccessorToNode pid h) \<and> accessors_ok (snd (record_accessor pid h)) \<and>
    accessors_ok (removeAccessorFromNode pid h) \<and> accessors_ok (snd (hasActiveAccessors kill h)) \<and>
    (fst (hasActiveAccessors kill h) \<longleftrightarrow> (\<exists>p \<in> set (nh_accessor_pids h). p \<noteq> 0 \<and> kill p = KILL_OK))"
  using assms accessors_ok_add accessors_ok_record accessors_ok_remove accessors_ok_active by blast

theorem accessor_count_exact_witness:
  "accessors_ok (addAccessorToNode 9 (ns_header (NodeSharedMemory_init 7 0 32))) \<and>
   \<not> fst (hasActiveAccessors (\<lambda>_. KILL_OK) (ns_header (NodeSharedMemory_init 7 0 32)))"
  using accessor_count_exact [OF accessors_ok_init, of 9 7 0 32 "\<lambda>_. KILL_OK"]
  by (simp add: NodeSharedMemory_init_def)

text \<open>C39: Flow control of a send on an open connection: the congestion level stays at most 104; the back-off
  before a data message grows by 10 microseconds per level and never exceeds 1000, and in the four levels
  above the nominal maximum of 100, which refused messages reach, there is no back-off at all.\<close>

theorem congestion_bounds:
  assumes "iq_congestion_level q \<le> 104" "send_fast nm i m q = (ok, q', w)"
  shows "iq_congestion_level q' \<le> 104 \<and>
    backoff_us (iq_congestion_level q) = (if iq_congestion_level q \<le> 100 then 10 * iq_congestion_level q else 0) \<and>
    backoff_us (iq_congestion_level q) \<le> 1000"
proof -
  let ?c = "iq_congestion_level q"
  have c: "unat ?c \<le> 104" using assms(1) by (simp add: word_le_nat_alt)
  have wr: "iq_congestion_level q1 = ?c" if "queue_write k m q = (b, q1)" for k b q1
    using that by (auto simp: queue_write_def split: if_splits prod.splits)
  have no: "iq_congestion_level q2 = iq_congestion_level q1" if "queue_notify nm i k q1 = (q2, v)" for k q1 q2 v
    using that by (auto simp: queue_notify_def Let_def split: if_splits)
  have level: "iq_congestion_level q' \<in> {?c, ?c - 1} \<and> (?c = 0 \<longrightarrow> iq_congestion_level q' = 0) \<or>
      iq_congestion_level q' = ?c + 5 \<and> ?c < 100"
    using assms(2) by (auto simp: send_fast_def Let_def wr no SHM_CONGESTION_DECREMENT_def SHM_CONGESTION_INCREMENT_def
        SHM_CONGESTION_MAX_def split: if_splits prod.splits)
  have "iq_congestion_level q' \<le> 104"
  proof -
    have "?c - 1 \<le> 104" if "?c \<noteq> 0"
      using that c by (simp add: word_le_nat_alt unat_minus_one)
    moreover have "?c + 5 \<le> 104" if "?c < 100"
    proof -
      have "unat ?c < 100" using that by (simp add: word_less_nat_alt)
      then have "unat (?c + 5) = unat ?c + 5" by (simp add: unat_word_ariths)
      then show ?thesis using \<open>unat ?c < 100\<close> by (simp add: word_le_nat_alt)
    qed
    ultimately show ?thesis using level assms(1) by auto
  qed
  moreover have "backoff_us ?c = (if ?c \<le> 100 then 10 * ?c else 0) \<and> backoff_us ?c \<le> 1000"
  proof (cases "?c \<le> 100")
    case True
    then have "unat ?c \<le> 100" by (simp add: word_le_nat_alt)
    then have u: "unat (?c * 10) = unat ?c * 10" by (simp add: unat_word_ariths)
    then have "?c * 10 \<le> 1000" using \<open>unat ?c \<le> 100\<close> by (simp add: word_le_nat_alt)
    then show ?thesis
      using True by (auto simp: backoff_us_def Let_def SHM_CONGESTION_MAX_def SHM_BACKOFF_BASE_US_def
          SHM_BACKOFF_MAX_US_def mult.commute word_gt_0)
  next
    case False
    then show ?thesis by (simp add: backoff_us_def SHM_CONGESTION_MAX_def)
  qed
  ultimately show ?thesis by blast
qed

theorem congestion_bounds_witness:
  "case send_fast CONDITION_VARIABLE 0 [] (InboundQueue_init\<lparr>iq_congestion_level := 99\<rparr>) of (ok, q', w) \<Rightarrow>
     iq_congestion_level q' = 104 \<and> iq_congestion_level q' \<le> 104 \<and> backoff_us (iq_congestion_level q') = 0"
proof -
  obtain ok q' w where s: "send_fast CONDITION_VARIABLE 0 [] (InboundQueue_init\<lparr>iq_congestion_level := 99\<rparr>) = (ok, q', w)"
    by (metis prod_cases3)
  then have "iq_congestion_level q' = 104"
    by (auto simp: send_fast_def Let_def queue_write_def Ring_tryWrite_def isControlMessage_def InboundQueue_init_def
        SHM_CONGESTION_MAX_def SHM_CONGESTION_INCREMENT_def)
  then show ?thesis
    using congestion_bounds [OF _ s] congestion_bounds [of q' CONDITION_VARIABLE 0 "[]"] by (cases "send_fast CONDITION_VARIABLE 0 [] q'") (simp add: s)
qed

text \<open>The wake-up by condition variable reaches the receiver only for its first queue: for every other
  queue the address that a sender signals is not the receiver's \<open>global_cond\<close> but lies in the unused
  padding of the queue before, so the receiver notices the message only when its wait times out.\<close>

theorem signal_misses_receiver:
  "signalled_address i = (if i = 0 then OFFSET_global_cond else queue_address (i - 1) + OFFSET_queue_padding)"
  by (cases i) (simp_all add: signalled_address_def queue_address_def OFFSET_global_cond_def OFFSET_queues_def
      OFFSET_queue_padding_def sizeof_InboundQueue_def)

text \<open>C30: One heartbeat reports as left exactly the other nodes whose entry the clean-up removed: those with a
  heartbeat older than five seconds or a dead process.  This needs the mutex after the clean-up: when
  that last listing cannot lock it, every other node is reported as left as soon as one was removed.\<close>

theorem heartbeat_reports_stale:
  assumes "region_ok rr" "he_node_impl he" "RegistryLock_isLocked (env_lock (he_before he))"
    "RegistryLock_isLocked (env_lock (he_cleanup he))"
    "heartbeat_iteration he env (tr, segs, rr) = (left, tr', segs', rr')"
  defines "others \<equiv> dom (region_map rr) - {tr_node_id tr}"
    and "stale \<equiv> {n. \<exists>i. region_map rr n = Some i \<and> info_stale (he_cleanup he) NODE_TIMEOUT_MS i}"
  shows "region_ok rr' \<and>
    (RegistryLock_isLocked (env_lock (he_after he)) \<longrightarrow> set left = others \<inter> stale) \<and>
    (\<not> RegistryLock_isLocked (env_lock (he_after he)) \<longrightarrow> others \<inter> stale \<noteq> {} \<longrightarrow> set left = others)"
proof -
  let ?self = "tr_node_id tr"
  define rr1 where "rr1 = snd (ShmRegistry_updateHeartbeat True (he_update he) ?self rr)"
  obtain cleaned rr2 where cl: "ShmRegistry_cleanupStaleNodes True (he_cleanup he) NODE_TIMEOUT_MS rr1 = (cleaned, rr2)"
    by fastforce
  have m1: "region_ok rr1" "region_map rr1 = snd (registry_spec (UpdateHeartbeat (he_update he) ?self) (region_map rr))"
    using heartbeat_simulates [OF assms(1), of "he_update he" ?self] by (simp_all add: simulates_def registry_step_def rr1_def)
  then have up: "region_ok rr1" "region_map rr1 n = region_map rr n \<or> n = ?self" "dom (region_map rr1) = dom (region_map rr)" for n
    by (auto simp: registry_spec_def split: if_splits)
  have cs: "region_ok rr2" "0 < cleaned \<longleftrightarrow> (\<exists>i \<in> ran (region_map rr1). info_stale (he_cleanup he) NODE_TIMEOUT_MS i)"
    "region_map rr2 = (\<lambda>n. case region_map rr1 n of None \<Rightarrow> None
       | Some i \<Rightarrow> if info_stale (he_cleanup he) NODE_TIMEOUT_MS i then None else Some i)"
    using cleanup_simulates [OF up(1), of "he_cleanup he" NODE_TIMEOUT_MS] assms(4)
    by (auto simp: registry_cmd_defs cl)
  have res: "rr' = rr2" "left = (if 0 < cleaned then removed_nodes ?self (ShmRegistry_getAllNodes True (he_before he) rr1)
      (ShmRegistry_getAllNodes True (he_after he) rr2) else [])"
    using assms(2,5) cl by (auto simp: heartbeat_iteration_def rr1_def [symmetric] Let_def split: prod.splits if_splits)
  have before: "set (map ni_node_id (ShmRegistry_getAllNodes True (he_before he) rr1)) = dom (region_map rr)"
    using getAllNodes_ids [OF up(1) assms(3)] up(3) by simp
  have stale1: "n \<in> dom (region_map rr2) \<longleftrightarrow> n \<notin> stale" if "n \<in> others" for n
    using that up(2) [of n] by (auto simp: cs(3) others_def stale_def split: option.splits)
  have some: "0 < cleaned" if "others \<inter> stale \<noteq> {}"
    using that up(2) unfolding cs(2) others_def stale_def by (auto simp: ran_def) metis
  have "set left = others \<inter> stale" if lk: "RegistryLock_isLocked (env_lock (he_after he))"
  proof (cases "0 < cleaned")
    case True
    then have "set left = dom (region_map rr) - insert ?self (dom (region_map rr2))"
      using res(2) removed_nodes_set before getAllNodes_ids [OF cs(1) lk] by simp
    then show ?thesis using stale1 by (auto simp: others_def)
  qed (use some res(2) in auto)
  moreover have "set left = others" if "\<not> RegistryLock_isLocked (env_lock (he_after he))" "others \<inter> stale \<noteq> {}"
    using res(2) some [OF that(2)] that(1) before by (simp add: removed_nodes_set ShmRegistry_getAllNodes_def others_def)
  ultimately show ?thesis using cs(1) res(1) by blast
qed

definition example_heartbeat :: heartbeat_env where
  "example_heartbeat = \<lparr>he_node_impl = True, he_update = example_env, he_discover = example_env, he_before = example_env,
     he_cleanup = example_env, he_after = example_env, he_clock_ms = 0\<rparr>"

theorem heartbeat_reports_stale_witness:
  "case heartbeat_iteration example_heartbeat (\<lambda>_. example_connect_env) (Transport_init, example_segments, created_region 7) of
     (left, tr', segs', rr') \<Rightarrow> region_ok rr' \<and> set left \<subseteq> dom (region_map (created_region 7))"
proof -
  obtain left tr' segs' rr' where h: "heartbeat_iteration example_heartbeat (\<lambda>_. example_connect_env)
      (Transport_init, example_segments, created_region 7) = (left, tr', segs', rr')" by (metis prod_cases4)
  have "RegistryLock_isLocked (env_lock example_env)" by (simp add: example_env_def RegistryLock_isLocked_def)
  then have "he_node_impl example_heartbeat" "RegistryLock_isLocked (env_lock (he_before example_heartbeat))"
    "RegistryLock_isLocked (env_lock (he_cleanup example_heartbeat))" "RegistryLock_isLocked (env_lock (he_after example_heartbeat))"
    by (simp_all add: example_heartbeat_def)
  then have "region_ok rr'" "set left \<subseteq> dom (region_map (created_region 7))"
    using heartbeat_reports_stale [OF region_ok_created [of 7] _ _ _ h] by auto
  then show ?thesis by (simp add: h)
qed

text \<open>
  The scan of orphaned segments: which objects it looks at, which of them make it write through the
  read-only mapping, and which it takes for orphans.
\<close>

definition node_object_scanned :: "node_object \<Rightarrow> bool" where
  "node_object_scanned obj \<longleftrightarrow>
     take 12 (no_name obj) = ''librpc_node_'' \<and> no_open obj \<and> no_fstat obj \<and> no_mmap obj"

definition dead_accessor :: "(int \<Rightarrow> kill_answer) \<Rightarrow> node_object \<Rightarrow> bool" where
  "dead_accessor kill obj \<longleftrightarrow>
     nh_magic (no_header obj) = NODE_MAGIC \<and> (\<exists>p \<in> set (nh_accessor_pids (no_header obj)). p \<noteq> 0 \<and> kill p \<noteq> KILL_OK)"

definition object_orphaned :: "(int \<Rightarrow> kill_answer) \<Rightarrow> node_object \<Rightarrow> bool" where
  "object_orphaned kill obj \<longleftrightarrow>
     nh_magic (no_header obj) \<noteq> NODE_MAGIC \<or>
     (0 < nh_owner_pid (no_header obj) \<and> kill (nh_owner_pid (no_header obj)) = KILL_ESRCH \<and>
      (\<forall>p \<in> set (nh_accessor_pids (no_header obj)). p = 0))"

lemma hasActiveAccessors_writes_iff:
  assumes "accessors_ok h"
  shows "hasActiveAccessors_writes kill h \<longleftrightarrow> (\<exists>p \<in> set (nh_accessor_pids h). p \<noteq> 0 \<and> kill p \<noteq> KILL_OK)"
proof -
  have pos: "0 < p \<longleftrightarrow> p \<noteq> 0" if "p \<in> set (nh_accessor_pids h)" for p
    using assms that by (auto simp: accessors_ok_def order_less_le)
  have "count_if (\<lambda>p. p \<noteq> 0) (nh_accessor_pids h) \<le> 64"
    using assms length_filter_le [of _ "nh_accessor_pids h"] by (simp add: accessors_ok_def MAX_ACCESSORS_def count_if_def)
  then have "nh_num_accessors h = 0 \<Longrightarrow> \<forall>p \<in> set (nh_accessor_pids h). p = 0"
    using assms count_u32_eq_0 [of "count_if (\<lambda>p. p \<noteq> 0) (nh_accessor_pids h)"] by (simp add: accessors_ok_def count_if_0)
  then show ?thesis
    using pos by (auto simp: hasActiveAccessors_writes_def list_ex_iff accessor_dead_def)
qed

lemma node_orphan_decision_cases:
  assumes "accessors_ok (no_header obj)"
  shows "node_orphan_decision kill (no_header obj) =
    (if dead_accessor kill obj then None else Some (object_orphaned kill obj))"
  using hasActiveAccessors_writes_iff [OF assms, of kill] accessors_ok_active(2) [OF assms, of kill]
  by (auto simp: node_orphan_decision_def dead_accessor_def object_orphaned_def Let_def)

text \<open>C38: \<open>cleanupOrphanedMemory\<close> kills its process when it meets a segment in which a dead accessor is
  recorded, the case it is meant for: the header is mapped read-only, and \<open>hasActiveAccessors\<close>
  removes the dead entry by a write.  When no segment is in this state it removes exactly the
  segments without a valid header and those with a dead owner and no accessor.\<close>

theorem orphan_memory_fault:
  assumes "\<forall>obj \<in> set dir. accessors_ok (no_header obj)"
  shows "map_option snd (cleanup_node_objects kill dir) =
    (if \<exists>obj \<in> set dir. node_object_scanned obj \<and> dead_accessor kill obj then None
     else Some (filter (\<lambda>obj. \<not> (node_object_scanned obj \<and> object_orphaned kill obj \<and> no_unlink obj)) dir))"
  using assms
proof (induction dir)
  case (Cons obj dir)
  have "node_orphan_decision kill (no_header obj) = (if dead_accessor kill obj then None else Some (object_orphaned kill obj))"
    using Cons.prems by (simp add: node_orphan_decision_cases)
  moreover have IH: "map_option snd (cleanup_node_objects kill dir) =
    (if \<exists>obj \<in> set dir. node_object_scanned obj \<and> dead_accessor kill obj then None
     else Some (filter (\<lambda>obj. \<not> (node_object_scanned obj \<and> object_orphaned kill obj \<and> no_unlink obj)) dir))"
    using Cons by simp
  ultimately show ?case
    by (cases "node_object_scanned obj"; cases "cleanup_node_objects kill dir")
      (auto simp: node_object_scanned_def [of obj] split: if_splits)
qed simp

theorem orphan_memory_fault_witness:
  "cleanup_node_objects (\<lambda>p. if p = 9 then KILL_ESRCH else KILL_OK)
     [\<lparr>no_name = ''librpc_node_1_0'', no_open = True, no_fstat = True, no_mmap = True,
       no_header = addAccessorToNode 9 (ns_header (NodeSharedMemory_init 7 0 32)), no_unlink = True\<rparr>] = None"
proof -
  let ?kill = "\<lambda>p :: int. if p = 9 then KILL_ESRCH else KILL_OK"
  let ?h = "addAccessorToNode 9 (ns_header (NodeSharedMemory_init 7 0 32))"
  let ?obj = "\<lparr>no_name = ''librpc_node_1_0'', no_open = True, no_fstat = True, no_mmap = True, no_header = ?h, no_unlink = True\<rparr>"
  have ok: "accessors_ok ?h" by (rule accessors_ok_add [OF accessors_ok_init])
  have pids: "nh_accessor_pids ?h = 9 # replicate 63 0" "nh_magic ?h = NODE_MAGIC"
    by (simp_all add: addAccessorToNode_def NodeSharedMemory_init_def MAX_ACCESSORS_def numeral_eq_Suc)
  then have "dead_accessor ?kill ?obj" "node_object_scanned ?obj" by (simp_all add: dead_accessor_def node_object_scanned_def)
  then show ?thesis
    using orphan_memory_fault [of "[?obj]" ?kill] ok by (simp del: cleanup_node_objects.simps)
qed

end
