(* ===== verification/Nexus_NodeLife.thy ===== *)
theory Nexus_NodeLife
  imports Nexus_Node
begin

section \<open>Life of a node, large data and clean-up\<close>

text \<open>
  The rest of \<open>src/core/NodeImpl.cpp\<close>: construction, \<open>initialize\<close> and the destructor with the entry in
  the registry of the process, \<open>createNode\<close>, the large-data channels of a node (\<open>getLargeDataChannel\<close>,
  \<open>sendLargeData\<close>) and the election before a clean-up (\<open>cleanupOrphanedChannels\<close>).

  Shared memory of large-data channels is an object store: names lead to addresses, a mapping keeps
  its address when the name is removed.
\<close>

subsection \<open>Joining and leaving\<close>

definition registerNode :: "node_ref \<Rightarrow> Node \<Rightarrow> Process \<Rightarrow> Process \<times> action list" where
  "registerNode me self p =
     (let is_new_node = (GlobalRegistry_findNode (alive p) (nd_node_id self) (pr_registry p) = None);
          p1 = set_registry (GlobalRegistry_registerNode (nd_node_id self) me (pr_registry p)) p
      in if is_new_node
         then notify_others (me, nd_node_id self)
                (\<lambda>node. notifyNodeEvent (nd_discovery_callback node) NODE_JOINED (nd_node_id self)) p1
         else (p1, []))"

definition unregisterNode :: "node_ref \<Rightarrow> Node \<Rightarrow> Process \<Rightarrow> Process \<times> action list" where
  "unregisterNode me self p =
     (case notify_others (me, nd_node_id self)
             (\<lambda>node. notifyNodeEvent (nd_discovery_callback node) NODE_LEFT (nd_node_id self)) p of (p1, acts) \<Rightarrow>
        (set_registry (GlobalRegistry_unregisterNode (nd_node_id self) (pr_registry p1)) p1,
         acts @ broadcastNodeEvent (nd_node_id self) (getUdpPort self) (nd_shm_ready self) False))"

text \<open>
  \<open>initialize\<close>: what the shared-memory transport answered, the nodes it lists, and the sockets are
  parameters; \<open>next_port\<close> is the static port counter of the process.
\<close>

record init_env =
  ie_shm_initialize :: bool
  ie_shm_nodes :: "string list"
  ie_udp :: udp_os
  ie_clock :: nat
  ie_epoch_ms :: nat

definition initialize_shm :: "init_env \<Rightarrow> Node \<Rightarrow> Node \<times> action list" where
  "initialize_shm env self =
     (if nd_transport_mode self = MODE_AUTO \<or> nd_transport_mode self = MODE_LOCK_FREE_SHM then
        if \<not> ie_shm_initialize env then (self, [])
        else
          let self1 = self\<lparr>nd_shm_ready := True\<rparr> in
          (self1, map (\<lambda>n. SHM_SEND n []) (filter (\<lambda>n. n \<noteq> nd_node_id self1) (ie_shm_nodes env)) @
                  queryRemoteServices (nd_node_id self1) (nd_shm_ready self1) @
                  broadcastNodeEvent (nd_node_id self1) (getUdpPort self1) (nd_shm_ready self1) True)
      else (self, []))"

definition initialize_udp :: "init_env \<Rightarrow> u16 \<Rightarrow> u16 \<times> Node \<Rightarrow> bool \<times> (u16 \<times> Node) \<times> action list" where
  "initialize_udp env udp_port = (\<lambda>(next_port, self).
     if \<not> nd_use_udp self then (True, (next_port, self), [])
     else case bind_port (ie_udp env) (ie_clock env) udp_port (next_port, UdpTransport_init) of (bound, next_port1, u) \<Rightarrow>
       let self1 = self\<lparr>nd_udp := Some u\<rparr> in
       if \<not> bound then (False, (next_port1, self1), [])
       else (True, (next_port1, self1),
             queryExistingSubscriptions (nd_node_id self1) (getUdpPort self1) (udp_ready self1)))"

text \<open>The result tells whether the clean-up thread was started: not when UDP could not be bound.\<close>

definition Node_initialize ::
    "init_env \<Rightarrow> u16 \<Rightarrow> node_ref \<Rightarrow> u16 \<times> Process \<Rightarrow> (bool \<times> (u16 \<times> Process) \<times> action list) option" where
  "Node_initialize env udp_port me = (\<lambda>(next_port, p).
     case pr_nodes p me of
       None \<Rightarrow> None
     | Some self \<Rightarrow>
         (case registerNode me self p of (p1, acts1) \<Rightarrow>
          case initialize_shm env self of (self1, acts2) \<Rightarrow>
          case initialize_udp env udp_port (next_port, self1) of (cleanup_running, (next_port1, self2), acts3) \<Rightarrow>
            Some (cleanup_running, (next_port1, set_node me self2 p1), acts1 @ acts2 @ acts3)))"

text \<open>\<open>createNode\<close>: a new object under a fresh name, without UDP.\<close>

definition createNode ::
    "init_env \<Rightarrow> nat \<Rightarrow> string \<Rightarrow> TransportMode \<Rightarrow> node_ref \<Rightarrow> u16 \<times> Process \<Rightarrow>
     (bool \<times> (u16 \<times> Process) \<times> action list) option" where
  "createNode env pid node_id mode me = (\<lambda>(next_port, p).
     let unique_node_id = node_id @ ''_'' @ show_nat pid
     in Node_initialize env 0 me (next_port, set_node me (NodeImpl (ie_epoch_ms env) unique_node_id False mode) p))"

text \<open>
  The end of the destructor and the members after it, last declared first: UDP is shut down (a second
  \<open>shutdown\<close> by the destructor of \<open>UdpTransport\<close> does nothing), the shared pointers to the large-data
  channels are given up, the shared-memory transport is destroyed.
\<close>

definition node_teardown :: "Node \<Rightarrow> action list" where
  "node_teardown self =
     (if nd_use_udp self \<and> nd_udp self \<noteq> None then [UDP_SHUTDOWN] else []) @
     map (\<lambda>e. CHANNEL_RELEASE (fst e)) (nd_large_channels self) @
     (if nd_shm_ready self then [SHM_DESTROY] else [])"

text \<open>
  The destructor runs after the last reference is gone: the registry no longer finds the object, so
  it is not among the nodes that are notified.  It leaves the registry and announces this while the
  transports still work, then stops the threads and tears down.
\<close>

definition Node_destroy :: "node_ref \<Rightarrow> Process \<Rightarrow> (Process \<times> action list) option" where
  "Node_destroy me p =
     (case pr_nodes p me of
        None \<Rightarrow> None
      | Some self \<Rightarrow>
          let self1 = self\<lparr>nd_running := False\<rparr>
          in case unregisterNode me self1 (p\<lparr>pr_nodes := (pr_nodes p)(me := None)\<rparr>) of (p1, acts) \<Rightarrow>
               Some (p1, acts @ node_teardown self1))"

subsection \<open>Large data\<close>

text \<open>
  \<open>lw_names\<close> is the directory \<open>/dev/shm\<close>, \<open>lw_objects\<close> gives size and content at an address; the flag of
  the start-up scan and the time of the last reader clean-up are static variables of the process.
\<close>

record large_world =
  lw_names :: "string \<Rightarrow> nat option"
  lw_objects :: "nat \<Rightarrow> nat \<times> LargeShm"
  lw_next :: nat
  lw_cleanup_done :: bool
  lw_last_cleanup :: u64

record large_env =
  le_ld :: ld_env
  le_os :: channel_os
  le_scan :: "shm_object list"

text \<open>\<open>shm_open\<close> ignores leading slashes.\<close>

definition shm_path :: "string \<Rightarrow> string" where
  "shm_path name = dropWhile (\<lambda>c. c = CHR ''/'') name"

text \<open>The directory entries with the size and control block of the object at their name.\<close>

definition shm_directory :: "large_world \<Rightarrow> shm_object list \<Rightarrow> shm_object list" where
  "shm_directory w scan =
     map (\<lambda>obj. case lw_names w (so_name obj) of
                  None \<Rightarrow> obj
                | Some a \<Rightarrow> obj\<lparr>so_size := fst (lw_objects w a), so_control := ls_control (snd (lw_objects w a))\<rparr>) scan"

text \<open>Names of the listing that the scan removed lead nowhere afterwards.\<close>

definition unlink_missing :: "shm_object list \<Rightarrow> shm_object list \<Rightarrow> large_world \<Rightarrow> large_world" where
  "unlink_missing before after w =
     w\<lparr>lw_names := (\<lambda>n. if n \<in> so_name ` set before \<and> n \<notin> so_name ` set after then None else lw_names w n)\<rparr>"

definition find_channel :: "string \<Rightarrow> large_world \<Rightarrow> channel_file" where
  "find_channel name w =
     (case lw_names w (shm_path name) of
        None \<Rightarrow> CF_ABSENT
      | Some a \<Rightarrow> CF_FILE (fst (lw_objects w a)) (snd (lw_objects w a)))"

text \<open>The effect of the open: an existing object is changed in place, a new one gets an address.\<close>

definition store_channel :: "string \<Rightarrow> channel_file \<Rightarrow> large_world \<Rightarrow> nat \<times> large_world" where
  "store_channel name file w =
     (case file of
        CF_ABSENT \<Rightarrow> (lw_next w, w)
      | CF_FILE n sh \<Rightarrow>
          (case lw_names w (shm_path name) of
             Some a \<Rightarrow> (a, w\<lparr>lw_objects := (lw_objects w)(a := (n, sh))\<rparr>)
           | None \<Rightarrow> (lw_next w, w\<lparr>lw_names := (lw_names w)(shm_path name \<mapsto> lw_next w),
                                lw_objects := (lw_objects w)(lw_next w := (n, sh)), lw_next := Suc (lw_next w)\<rparr>)))"

definition node_channel_config :: LargeDataChannelConfig where
  "node_channel_config = LargeDataChannelConfig_default
     \<lparr>ldc_buffer_size := 64 * 1024 * 1024, ldc_max_block_size := 8 * 1024 * 1024\<rparr>"

definition getLargeDataChannel ::
    "large_env \<Rightarrow> string \<Rightarrow> Node \<times> large_world \<Rightarrow> (LargeDataChannel \<times> nat) option \<times> Node \<times> large_world" where
  "getLargeDataChannel env channel_name = (\<lambda>(self, w).
     if channel_name = [] then (None, self, w)
     else case om_lookup (nd_large_channels self) channel_name of
       Some chan \<Rightarrow> (Some chan, self, w)
     | None \<Rightarrow>
         let dir = shm_directory w (le_scan env) in
         case LargeDataChannel_create (le_ld env) (le_os env) node_channel_config (lw_cleanup_done w, dir)
                (\<lambda>left. find_channel channel_name (unlink_missing dir left w)) of (created, (cleanup_done, left), file) \<Rightarrow>
           (case store_channel channel_name file ((unlink_missing dir left w)\<lparr>lw_cleanup_done := cleanup_done\<rparr>) of (a, w1) \<Rightarrow>
              (case created of
                 None \<Rightarrow> (None, self, w1)
               | Some ch \<Rightarrow>
                   (Some (ch, a), self\<lparr>nd_large_channels := om_insert channel_name (ch, a) (nd_large_channels self)\<rparr>, w1))))"

definition sizeof_LargeDataNotification :: nat where "sizeof_LargeDataNotification = 128"

record LargeDataNotification =
  ln_sequence :: u64
  ln_size :: u32
  ln_channel_name :: string
  ln_topic :: string

text \<open>
  The bytes of the notification, little-endian as on the platforms the code is built for, and what
  a receiver reads from them.
\<close>

definition notification_bytes :: "u64 \<Rightarrow> nat \<Rightarrow> string \<Rightarrow> string \<Rightarrow> bytes" where
  "notification_bytes seq data_size channel_name topic =
     word_to_le 8 seq @ word_to_le 4 (word_of_nat data_size :: u32) @ word_to_le 4 (0 :: u32) @
     cstr_field 32 channel_name @ cstr_field 64 topic @ replicate 16 0"

definition notification_of :: "bytes \<Rightarrow> LargeDataNotification" where
  "notification_of bs =
     \<lparr>ln_sequence = le_to_word (mem_read bs 0 8), ln_size = le_to_word (mem_read bs 8 4),
      ln_channel_name = cstr_read (mem_read bs 16 32), ln_topic = cstr_read (mem_read bs 48 64)\<rparr>"

text \<open>
  \<open>sendLargeData\<close>; \<open>data\<close> is \<open>None\<close> for a null pointer.  The channel object and the shared memory change
  in place.
\<close>

definition sendLargeData ::
    "node_env \<Rightarrow> large_env \<Rightarrow> node_ref \<Rightarrow> string \<Rightarrow> string \<Rightarrow> string \<Rightarrow> bytes option \<Rightarrow> Process \<times> large_world \<Rightarrow>
     (Error \<times> (Process \<times> large_world) \<times> action list) option" where
  "sendLargeData nenv env me msg_group channel_name topic data = (\<lambda>(p, w).
     case pr_nodes p me of
       None \<Rightarrow> None
     | Some self \<Rightarrow>
         if msg_group = [] \<or> channel_name = [] \<or> topic = [] \<or> data = None \<or> data = Some [] then Some (INVALID_ARG, (p, w), [])
         else if \<not> nd_running self then Some (NOT_INITIALIZED, (p, w), [])
         else
           let bytes = the data in
           case getLargeDataChannel env channel_name (self, w) of
             (None, self1, w1) \<Rightarrow> Some (UNEXPECTED_ERROR, (set_node me self1 p, w1), [])
           | (Some (ch, a), self1, w1) \<Rightarrow>
               let (n, sh) = lw_objects w1 a in
               if \<not> canWrite (sizeof_LargeDataHeader + length bytes) sh
               then Some (TIMEOUT, (set_node me self1 p, w1), [])
               else case LargeData_write (le_ld env) topic bytes (lw_last_cleanup w1, ch, sh) of (seq, last_cleanup, ch1, sh1) \<Rightarrow>
                 let self2 = self1\<lparr>nd_large_channels := om_insert channel_name (ch1, a) (nd_large_channels self1)\<rparr>;
                     w2 = w1\<lparr>lw_objects := (lw_objects w1)(a := (n, sh1)), lw_last_cleanup := last_cleanup\<rparr>;
                     p1 = set_node me self2 p
                 in if seq < 0 then Some (UNEXPECTED_ERROR, (p1, w2), [])
                    else
                      let notif = notification_bytes (word_of_int seq) (length bytes) channel_name topic
                      in map_option (\<lambda>(err, p2, acts). (err, (p2, w2), acts))
                           (publish nenv me msg_group topic (bytes_str notif) p1))"

subsection \<open>Clean-up\<close>

text \<open>
  A temporary registry object: it joins the region, a question is asked, and its destructor leaves
  the region again.  \<open>None\<close> inside is a failed initialisation, \<open>None\<close> outside a fault.
\<close>

record temp_env =
  te_open :: open_env
  te_observe :: "nat \<Rightarrow> attempt"
  te_sys :: sys_env
  te_lock :: lock_answer
  te_cleanup :: cleanup_env

definition temp_registry :: "temp_env \<Rightarrow> (RegistryRegion \<Rightarrow> 'a) \<Rightarrow> shm_file \<Rightarrow> ('a option \<times> shm_file) option" where
  "temp_registry env query file =
     (case ShmRegistry_initialize False (te_open env) (te_observe env) file of
        (True, SHM_FILE st_size rr) \<Rightarrow>
          map_option (\<lambda>(ok, file'). (Some (query rr), file'))
            (ShmRegistry_destroy True (os_pid (te_open env)) (te_lock env) (te_cleanup env) st_size rr)
      | (ok, file') \<Rightarrow> Some (None, file'))"

definition Transport_getActiveNodeCount :: "temp_env \<Rightarrow> shm_file \<Rightarrow> (int \<times> shm_file) option" where
  "Transport_getActiveNodeCount env file =
     map_option (\<lambda>(r, file'). (case r of None \<Rightarrow> -1 | Some n \<Rightarrow> sint n, file'))
       (temp_registry env (ShmRegistry_getActiveNodeCount True) file)"

definition i_am_cleanup_master :: "temp_env \<Rightarrow> temp_env \<Rightarrow> bool \<Rightarrow> shm_file \<Rightarrow> (bool \<times> shm_file) option" where
  "i_am_cleanup_master env1 env2 shm_ready file =
     (if \<not> shm_ready then Some (False, file)
      else case Transport_getActiveNodeCount env1 file of
        None \<Rightarrow> None
      | Some (active_count, file1) \<Rightarrow>
          if active_count > 0
          then map_option (\<lambda>(r, file2). (case r of None \<Rightarrow> False | Some b \<Rightarrow> b, file2))
                 (temp_registry env2 (ShmRegistry_amICleanupMaster True (te_sys env2)) file1)
          else Some (True, file1))"

definition CLEANUP_ORPHAN_TIMEOUT_SECONDS :: u32 where "CLEANUP_ORPHAN_TIMEOUT_SECONDS = 60"

definition Node_cleanupOrphanedChannels ::
    "temp_env \<Rightarrow> temp_env \<Rightarrow> ld_env \<Rightarrow> bool \<Rightarrow> cleanup_env \<Rightarrow> Node \<Rightarrow>
     shm_object list \<times> node_object list \<times> shm_file \<Rightarrow> (nat \<times> shm_object list \<times> node_object list \<times> shm_file) option" where
  "Node_cleanupOrphanedChannels env1 env2 ld opendir_ok cenv self = (\<lambda>(channels, nodes, file).
     case i_am_cleanup_master env1 env2 (nd_shm_ready self) file of
       None \<Rightarrow> None
     | Some (False, file1) \<Rightarrow> Some (0, channels, nodes, file1)
     | Some (True, file1) \<Rightarrow>
         let (channel_cleaned, channels1) =
               (if opendir_ok then cleanupOrphanedChannels ld CLEANUP_ORPHAN_TIMEOUT_SECONDS channels else (0, channels))
         in map_option (\<lambda>(ok, nodes1, file2). (channel_cleaned, channels1, nodes1, file2))
              (cleanupOrphanedMemory opendir_ok (ld_kill ld) cenv nodes file1))"

text \<open>
  The election before a clean-up: when the registry cannot be opened, the number of nodes is -1 and
  the node takes itself for the only one.
\<close>

lemma cleanup_without_registry:
  "\<not> os_open (te_open env1) \<Longrightarrow> i_am_cleanup_master env1 env2 True file = Some (True, file)"
  by (simp add: i_am_cleanup_master_def Transport_getActiveNodeCount_def temp_registry_def ShmRegistry_initialize_def)

end
