(* ===== verification/Nexus_Process.thy ===== *)
theory Nexus_Process
  imports Nexus_NodeLife
begin

section \<open>A process with its nodes\<close>

text \<open>
  What the operations of \<open>NodeImpl\<close> do to a process as a whole.  \<open>process_ok\<close> is the invariant: a well
  formed registry, every registered object under its own identifier, four queues per node.  The
  process is a transition system whose steps are the calls of the public interface, the arrival of
  packets and the rounds of the worker threads in any order.

  Shown: the invariant holds in every reachable process; \<open>publish\<close> puts the message exactly once into
  every other subscribed node and sends exactly one packet per remote subscriber; \<open>subscribe\<close> and
  \<open>unsubscribe\<close> change the subscriptions and the announced services together; the destructor removes
  the node and its services.
\<close>

subsection \<open>Nodes of a process\<close>

text \<open>
  A process is consistent when its registry is well formed, every registered object has the
  identifier it is registered under, and every node has its four queues.
\<close>

definition process_ok :: "Process \<Rightarrow> bool" where
  "process_ok p \<longleftrightarrow>
     registry_ok (pr_registry p) \<and>
     (\<forall>(nid, ref) \<in> set (gr_nodes (pr_registry p)). \<forall>node. pr_nodes p ref = Some node \<longrightarrow> nd_node_id node = nid) \<and>
     (\<forall>ref node. pr_nodes p ref = Some node \<longrightarrow>
        length (nd_message_queues node) = NUM_PROCESSING_THREADS \<and> om_wf (nd_subscriptions node))"

definition registered :: "Process \<Rightarrow> node_ref \<Rightarrow> bool" where
  "registered p ref \<longleftrightarrow> ref \<in> set (map snd (gr_nodes (pr_registry p)))"

definition forget_dead :: "Process \<Rightarrow> Process" where
  "forget_dead p = set_registry ((pr_registry p)\<lparr>gr_nodes := filter (\<lambda>e. alive p (snd e)) (gr_nodes (pr_registry p))\<rparr>) p"

lemma forget_dead_simps [simp]:
  "pr_nodes (forget_dead p) = pr_nodes p"
  "gr_services (pr_registry (forget_dead p)) = gr_services (pr_registry p)"
  "GlobalRegistry_findServices grp (pr_registry (forget_dead p)) = GlobalRegistry_findServices grp (pr_registry p)"
  by (simp_all add: forget_dead_def set_registry_def GlobalRegistry_findServices_def)

lemma set_node_simps [simp]:
  "pr_registry (set_node ref node p) = pr_registry p"
  "pr_nodes (set_node ref node p) = (pr_nodes p)(ref \<mapsto> node)"
  by (simp_all add: set_node_def)

lemma set_registry_simps [simp]:
  "pr_registry (set_registry g p) = g"
  "pr_nodes (set_registry g p) = pr_nodes p"
  by (simp_all add: set_registry_def)

lemma getAllNodes_eq:
  "getAllNodes p =
     (List.map_filter (\<lambda>ref. map_option (Pair ref) (pr_nodes p ref)) (map snd (gr_nodes (pr_registry p))), forget_dead p)"
proof -
  have "List.map_filter (\<lambda>ref. map_option (Pair ref) (pr_nodes p ref)) (map snd (filter (\<lambda>e. alive p (snd e)) m)) =
        List.map_filter (\<lambda>ref. map_option (Pair ref) (pr_nodes p ref)) (map snd m)" for m
    by (induction m) (auto simp: map_filter_simps alive_def split: option.splits)
  then show ?thesis
    by (simp add: getAllNodes_def GlobalRegistry_getAllNodes_def getAllNodes_loop_filter forget_dead_def set_registry_def)
qed

lemma process_ok_forget_dead: "process_ok p \<Longrightarrow> process_ok (forget_dead p)"
  unfolding process_ok_def forget_dead_simps
  by (auto simp: registry_ok_def om_wf_filter forget_dead_def)

lemma process_ok_set_registry:
  assumes "process_ok p" "registry_ok g" "gr_nodes g = gr_nodes (pr_registry p)"
  shows "process_ok (set_registry g p)"
  using assms by (simp add: process_ok_def)

lemma process_ok_set_node:
  assumes "process_ok p" "pr_nodes p ref = Some node" "nd_node_id node' = nd_node_id node"
    "length (nd_message_queues node') = NUM_PROCESSING_THREADS" "om_wf (nd_subscriptions node')"
  shows "process_ok (set_node ref node' p)"
  using assms unfolding process_ok_def set_node_simps by (auto split: if_splits)

text \<open>The listed nodes are the live registered ones, each once.\<close>

lemma listed_nodes:
  "set (List.map_filter (\<lambda>ref. map_option (Pair ref) (pr_nodes p ref)) refs) =
     {(ref, node). ref \<in> set refs \<and> pr_nodes p ref = Some node}"
  by (induction refs) (auto simp: map_filter_simps split: option.splits)

lemma distinct_map_filter_refs:
  "distinct (filter (\<lambda>r. pr_nodes p r \<noteq> None) refs) \<Longrightarrow>
   distinct (map fst (List.map_filter (\<lambda>ref. map_option (Pair ref) (pr_nodes p ref)) refs))"
proof -
  have "map fst (List.map_filter (\<lambda>ref. map_option (Pair ref) (pr_nodes p ref)) refs) = filter (\<lambda>r. pr_nodes p r \<noteq> None) refs"
    by (induction refs) (auto simp: map_filter_simps split: option.splits)
  then show "distinct (filter (\<lambda>r. pr_nodes p r \<noteq> None) refs) \<Longrightarrow> ?thesis" by simp
qed

lemma distinct_live_refs:
  "\<forall>e \<in> set m. \<forall>node. f (snd e) = Some node \<longrightarrow> nd_node_id node = fst e \<Longrightarrow> distinct (map fst m) \<Longrightarrow>
   distinct (filter (\<lambda>r. f r \<noteq> None) (map snd m))"
proof (induction m)
  case (Cons e m)
  have "snd e \<notin> set (filter (\<lambda>r. f r \<noteq> None) (map snd m))"
  proof
    assume "snd e \<in> set (filter (\<lambda>r. f r \<noteq> None) (map snd m))"
    then obtain e' node where e': "e' \<in> set m" "snd e' = snd e" "f (snd e) = Some node" by auto
    then have "fst e' = fst e" using Cons.prems(1) by (metis list.set_intros)
    then show False using e'(1) Cons.prems(2) by (metis distinct.simps(2) image_eqI list.set_map list.simps(9))
  qed
  then show ?case using Cons.IH Cons.prems by (cases "f (snd e)") (simp_all del: not_None_eq)
qed simp

lemma live_refs_distinct:
  "process_ok p \<Longrightarrow> distinct (filter (\<lambda>r. pr_nodes p r \<noteq> None) (map snd (gr_nodes (pr_registry p))))"
  by (rule distinct_live_refs) (auto simp: process_ok_def registry_ok_def om_wf_distinct)

lemma getAllNodes_cases:
  assumes "process_ok p" "getAllNodes p = (nodes, p1)"
  shows "p1 = forget_dead p" "distinct (map fst nodes)"
    "(ref, node) \<in> set nodes \<longleftrightarrow> registered p ref \<and> pr_nodes p ref = Some node"
  using assms distinct_map_filter_refs [OF live_refs_distinct [OF assms(1)]]
  by (auto simp: getAllNodes_eq listed_nodes registered_def simp del: set_map)

subsection \<open>Publishing in the process\<close>

lemma enqueueMessage_keeps:
  assumes "enqueueMessage env source grp topic payload node = Some (node', acts)"
  shows "nd_node_id node' = nd_node_id node" "length (nd_message_queues node') = length (nd_message_queues node)"
    "nd_subscriptions node' = nd_subscriptions node"
  using assms by (auto simp: enqueueMessage_def Let_def split: if_splits option.splits prod.splits)

text \<open>
  Enqueueing at a list of different nodes: each gets the message once, the others are not touched.
\<close>

lemma deliver_to_nodes_defined:
  "deliver_to_nodes env source grp topic payload nodes p \<noteq> None \<longleftrightarrow>
     (\<forall>e \<in> set nodes. enqueueMessage env source grp topic payload (snd e) \<noteq> None)"
proof (induction nodes arbitrary: p)
  case (Cons e nodes)
  obtain r node where e: "e = (r, node)" by (cases e)
  show ?case
  proof (cases "enqueueMessage env source grp topic payload node")
    case (Some x)
    then show ?thesis using Cons [of "set_node r (fst x) p"] by (cases x) (simp add: e del: not_None_eq)
  qed (simp add: e)
qed simp

lemma deliver_to_nodes_exact:
  assumes "distinct (map fst nodes)" "deliver_to_nodes env source grp topic payload nodes p = Some (p', acts)"
  shows "pr_registry p' = pr_registry p \<and>
    pr_nodes p' ref = (case map_of nodes ref of
        None \<Rightarrow> pr_nodes p ref
      | Some node \<Rightarrow> map_option fst (enqueueMessage env source grp topic payload node))"
  using assms
proof (induction nodes arbitrary: p p' acts)
  case (Cons e nodes)
  obtain r node where e: "e = (r, node)" by (cases e)
  obtain node' acts1 where n: "enqueueMessage env source grp topic payload node = Some (node', acts1)"
    using Cons.prems(2) by (auto simp: e split: option.splits)
  obtain acts2 where d: "deliver_to_nodes env source grp topic payload nodes (set_node r node' p) = Some (p', acts2)"
    using Cons.prems(2) n by (auto simp: e)
  have m: "map_of nodes r = None" using Cons.prems(1) by (simp add: e map_of_eq_None_iff)
  show ?case using Cons.IH [OF _ d] Cons.prems(1) m n by (auto simp: e split: option.split)
qed auto

text \<open>What a node gets from a message published by another node of the process.\<close>

definition receives :: "Process \<Rightarrow> node_ref \<Rightarrow> node_ref \<Rightarrow> bool" where
  "receives p me ref \<longleftrightarrow> registered p ref \<and> ref \<noteq> me"

lemma map_of_unique:
  assumes "distinct (map fst m)" "\<And>k v. (k, v) \<in> set m \<longleftrightarrow> P k \<and> f k = Some v"
  shows "map_of m k = (if P k then f k else None)"
proof (cases "map_of m k")
  case None
  then have "(k, v) \<notin> set m" for v by (force simp: map_of_eq_None_iff)
  then show ?thesis using None assms(2) [of k] by (cases "f k") auto
next
  case (Some v)
  then show ?thesis using assms(2) [of k v] map_of_SomeD [OF Some] by simp
qed

lemma deliverInProcess_exact:
  assumes "process_ok p"
  shows "deliverInProcess env me self grp topic payload p \<noteq> None \<longleftrightarrow>
      (\<forall>ref node. receives p me ref \<longrightarrow> pr_nodes p ref = Some node \<longrightarrow>
         enqueueMessage env (nd_node_id self) grp topic payload node \<noteq> None)"
    and "deliverInProcess env me self grp topic payload p = Some (p', acts) \<Longrightarrow>
      pr_registry p' = pr_registry (forget_dead p) \<and>
      pr_nodes p' ref =
        (if receives p me ref
         then Option.bind (pr_nodes p ref) (\<lambda>node. map_option fst (enqueueMessage env (nd_node_id self) grp topic payload node))
         else pr_nodes p ref)"
proof -
  obtain nodes p1 where g: "getAllNodes p = (nodes, p1)" by (cases "getAllNodes p")
  note nodes = getAllNodes_cases [OF assms g]
  let ?others = "filter (\<lambda>(ref, node). ref \<noteq> me) nodes"
  have d: "distinct (map fst ?others)" using nodes(2) by (simp add: distinct_map_filter)
  have mem: "(ref, node) \<in> set ?others \<longleftrightarrow> receives p me ref \<and> pr_nodes p ref = Some node" for ref node
    using nodes(3) by (auto simp: receives_def)
  show "deliverInProcess env me self grp topic payload p \<noteq> None \<longleftrightarrow>
      (\<forall>ref node. receives p me ref \<longrightarrow> pr_nodes p ref = Some node \<longrightarrow>
         enqueueMessage env (nd_node_id self) grp topic payload node \<noteq> None)"
    unfolding deliverInProcess_def g prod.case deliver_to_nodes_defined using mem by force
  show "deliverInProcess env me self grp topic payload p = Some (p', acts) \<Longrightarrow>
      pr_registry p' = pr_registry (forget_dead p) \<and>
      pr_nodes p' ref =
        (if receives p me ref
         then Option.bind (pr_nodes p ref) (\<lambda>node. map_option fst (enqueueMessage env (nd_node_id self) grp topic payload node))
         else pr_nodes p ref)"
    unfolding deliverInProcess_def g prod.case
    using deliver_to_nodes_exact [OF d] map_of_unique [OF d mem, of ref]
    by (simp add: nodes(1) split: option.splits)
qed

definition put_message :: "node_env \<Rightarrow> string \<Rightarrow> string \<Rightarrow> string \<Rightarrow> bytes \<Rightarrow> Node \<Rightarrow> Node" where
  "put_message env source grp topic payload node =
     (let thread_id = routing_thread (ne_hash env) grp topic
      in node\<lparr>nd_message_queues := (nd_message_queues node)[thread_id := nd_message_queues node ! thread_id @
           [\<lparr>pm_source_node_id = source, pm_group = grp, pm_topic = topic, pm_payload = payload\<rparr>]]\<rparr>)"

lemma routing_thread_bound: "routing_thread h grp topic < NUM_PROCESSING_THREADS"
  by (simp add: routing_thread_def NUM_PROCESSING_THREADS_def)

definition has_room :: "node_env \<Rightarrow> Node \<Rightarrow> bool" where
  "has_room env node \<longleftrightarrow> (\<forall>q \<in> set (nd_message_queues node). length q < ne_max_queue_size env)"

lemma enqueueMessage_room:
  assumes "has_room env node" "length (nd_message_queues node) = NUM_PROCESSING_THREADS"
  shows "enqueueMessage env source grp topic payload node =
    Some (if isSubscribed grp topic node then put_message env source grp topic payload node else node, [])"
proof -
  have "length (nd_message_queues node ! routing_thread (ne_hash env) grp topic) < ne_max_queue_size env"
    using assms routing_thread_bound [of "ne_hash env" grp topic] by (simp add: has_room_def)
  then show ?thesis
    by (simp add: enqueueMessage_def put_message_def push_message_def Let_def)
qed

lemma put_message_keeps [simp]:
  "nd_node_id (put_message env source grp topic payload node) = nd_node_id node"
  "length (nd_message_queues (put_message env source grp topic payload node)) = length (nd_message_queues node)"
  "nd_subscriptions (put_message env source grp topic payload node) = nd_subscriptions node"
  by (simp_all add: put_message_def Let_def)

lemma deliverInterProcess_process:
  "fst (deliverInterProcess env self packet grp topic p) = p \<or>
   fst (deliverInterProcess env self packet grp topic p) = forget_dead p"
  by (simp add: deliverInterProcess_def Let_def getAllNodes_eq split: prod.splits)

lemma process_ok_update_nodes:
  assumes "process_ok p" "pr_registry p' = pr_registry p"
    "\<And>ref node'. pr_nodes p' ref = Some node' \<Longrightarrow> \<exists>node. pr_nodes p ref = Some node \<and> nd_node_id node' = nd_node_id node \<and>
       length (nd_message_queues node') = length (nd_message_queues node) \<and> om_wf (nd_subscriptions node')"
  shows "process_ok p'"
  using assms unfolding process_ok_def by (fastforce dest: assms(3))

text \<open>
  The sends of a published message: one per remote node that wants the topic, over the transport it
  is registered with.
\<close>

definition remote_sends :: "node_env \<Rightarrow> Node \<Rightarrow> string list \<Rightarrow> string \<Rightarrow> bytes \<Rightarrow> ServiceDescriptor list \<Rightarrow> action list" where
  "remote_sends env self loc topic packet svcs =
     (if nd_shm_ready self
      then map (\<lambda>s. SHM_SEND (svc_node_id s) packet) (filter (shm_target (nd_node_id self) loc (ne_shm_nodes env) topic) svcs)
      else []) @
     (if udp_ready self
      then map (\<lambda>s. case the (parse_endpoint (svc_udp_address s)) of (ip, port) \<Rightarrow> UDP_SEND packet ip port)
             (filter (udp_target (nd_node_id self) loc topic) svcs)
      else [])"

definition local_ids :: "Process \<Rightarrow> string list" where
  "local_ids p = map fst (filter (\<lambda>e. alive p (snd e)) (gr_nodes (pr_registry p)))"

lemma listed_node_ids:
  assumes "process_ok p"
  shows "map (\<lambda>(ref, node). nd_node_id node) (fst (getAllNodes p)) = local_ids p"
proof -
  have "\<forall>e \<in> set m. \<forall>node. f (snd e) = Some node \<longrightarrow> nd_node_id node = fst e \<Longrightarrow>
      map (\<lambda>(ref, node). nd_node_id node) (List.map_filter (\<lambda>ref. map_option (Pair ref) (f ref)) (map snd m)) =
      map fst (filter (\<lambda>e. f (snd e) \<noteq> None) m)" for f :: "node_ref \<Rightarrow> Node option" and m
    by (induction m) (auto simp: map_filter_simps split: option.splits)
  note ids = this
  have "\<forall>e \<in> set (gr_nodes (pr_registry p)). \<forall>node. pr_nodes p (snd e) = Some node \<longrightarrow> nd_node_id node = fst e"
    using assms by (auto simp: process_ok_def)
  from ids [OF this] show ?thesis unfolding getAllNodes_eq local_ids_def alive_def fst_conv .
qed

lemma local_ids_cong:
  assumes "pr_registry p' = pr_registry (forget_dead p)" "\<And>ref. pr_nodes p' ref = None \<longleftrightarrow> pr_nodes p ref = None"
  shows "local_ids p' = local_ids p"
  using assms by (simp add: local_ids_def alive_def forget_dead_def)

lemma deliverInterProcess_sends:
  assumes "process_ok p" "grp \<noteq> []"
  shows "snd (deliverInterProcess env self packet grp topic p) =
    remote_sends env self (local_ids p) topic packet (GlobalRegistry_findServices grp (pr_registry p))"
proof -
  let ?svcs = "GlobalRegistry_findServices grp (pr_registry p)"
  have reg: "registry_ok (pr_registry p)" using assms(1) by (simp add: process_ok_def)
  have "select_targets (nd_node_id self) (local_ids p) shm topic ?svcs [] =
      (map svc_node_id (filter (shm_target (nd_node_id self) (local_ids p) shm topic) ?svcs),
       map (\<lambda>s. the (parse_endpoint (svc_udp_address s))) (filter (udp_target (nd_node_id self) (local_ids p) topic) ?svcs))" for shm
    by (rule select_targets_exact [OF findServices_group [OF reg assms(2)]]) simp
  moreover obtain nodes p1 where g: "getAllNodes p = (nodes, p1)" by fastforce
  moreover have "map (\<lambda>(ref, node). nd_node_id node) nodes = local_ids p" using listed_node_ids [OF assms(1)] g by simp
  ultimately show ?thesis
    by (simp add: deliverInterProcess_def remote_sends_def Let_def comp_def case_prod_unfold)
qed

lemma deliver_to_nodes_quiet:
  "\<forall>e \<in> set nodes. \<exists>node'. enqueueMessage env source grp topic payload (snd e) = Some (node', []) \<Longrightarrow>
   \<exists>p'. deliver_to_nodes env source grp topic payload nodes p = Some (p', [])"
proof (induction nodes arbitrary: p)
  case (Cons e nodes)
  obtain node' where "enqueueMessage env source grp topic payload (snd e) = Some (node', [])" using Cons.prems by auto
  then show ?case using Cons.IH [of "set_node (fst e) node' p"] Cons.prems by (cases e) auto
qed simp

lemma deliverInProcess_room:
  assumes "process_ok p" "\<forall>ref node. receives p me ref \<longrightarrow> pr_nodes p ref = Some node \<longrightarrow> has_room env node"
  shows "\<exists>p1. deliverInProcess env me self grp topic payload p = Some (p1, []) \<and> process_ok p1 \<and>
    pr_registry p1 = pr_registry (forget_dead p) \<and>
    (\<forall>ref. pr_nodes p1 ref = map_option (\<lambda>node.
        if receives p me ref \<and> isSubscribed grp topic node
        then put_message env (nd_node_id self) grp topic payload node else node) (pr_nodes p ref))"
proof -
  have queues: "length (nd_message_queues node) = NUM_PROCESSING_THREADS" "om_wf (nd_subscriptions node)"
    if "pr_nodes p ref = Some node" for ref node
    using assms(1) that by (auto simp: process_ok_def)
  have enq: "enqueueMessage env (nd_node_id self) grp topic payload node =
      Some (if isSubscribed grp topic node then put_message env (nd_node_id self) grp topic payload node else node, [])"
    if "receives p me ref" "pr_nodes p ref = Some node" for ref node
    using enqueueMessage_room assms(2) queues(1) that by blast
  obtain nodes p0 where g: "getAllNodes p = (nodes, p0)" by fastforce
  have "\<forall>e \<in> set (filter (\<lambda>(ref, node). ref \<noteq> me) nodes). \<exists>node'. enqueueMessage env (nd_node_id self) grp topic payload (snd e) = Some (node', [])"
    using getAllNodes_cases(3) [OF assms(1) g] enq by (auto simp: receives_def)
  from deliver_to_nodes_quiet [OF this, of p0] obtain p1 where d: "deliverInProcess env me self grp topic payload p = Some (p1, [])"
    by (auto simp: deliverInProcess_def g)
  have reg: "pr_registry p1 = pr_registry (forget_dead p)"
    using deliverInProcess_exact(2) [OF assms(1) d] by simp
  have nodes: "pr_nodes p1 ref = map_option (\<lambda>node.
        if receives p me ref \<and> isSubscribed grp topic node
        then put_message env (nd_node_id self) grp topic payload node else node) (pr_nodes p ref)" for ref
    using deliverInProcess_exact(2) [OF assms(1) d, of ref] enq [of ref]
    by (cases "pr_nodes p ref") auto
  have "process_ok p1"
    by (rule process_ok_update_nodes [OF process_ok_forget_dead [OF assms(1)] reg])
      (use nodes queues in \<open>auto split: if_splits\<close>)
  then show ?thesis using d reg nodes by blast
qed

text \<open>A publish with room in all queues.\<close>

lemma publish_room:
  assumes "process_ok p" "pr_nodes p me = Some self" "nd_running self" "grp \<noteq> []" "topic \<noteq> []"
    "\<forall>ref node. receives p me ref \<longrightarrow> pr_nodes p ref = Some node \<longrightarrow> has_room env node"
  shows "\<exists>p'. publish env me grp topic payload p = Some (NO_ERROR, p',
      remote_sends env self (local_ids p) topic
        (MessageBuilder_build_string (nd_node_id self) grp topic payload (getUdpPort self) DATA)
        (GlobalRegistry_findServices grp (pr_registry p))) \<and> process_ok p' \<and>
    (\<forall>ref. pr_nodes p' ref = map_option (\<lambda>node.
        if receives p me ref \<and> isSubscribed grp topic node
        then put_message env (nd_node_id self) grp topic (str_bytes payload) node else node) (pr_nodes p ref))"
proof -
  from deliverInProcess_room [OF assms(1,6), of self grp topic "str_bytes payload"]
  obtain p1 where d: "deliverInProcess env me self grp topic (str_bytes payload) p = Some (p1, [])" and ok: "process_ok p1"
    and reg: "pr_registry p1 = pr_registry (forget_dead p)"
    and nodes: "pr_nodes p1 ref = map_option (\<lambda>node. if receives p me ref \<and> isSubscribed grp topic node
        then put_message env (nd_node_id self) grp topic (str_bytes payload) node else node) (pr_nodes p ref)" for ref
    by blast
  let ?packet = "MessageBuilder_build_string (nd_node_id self) grp topic payload (getUdpPort self) DATA"
  obtain p2 acts2 where i: "deliverInterProcess env self ?packet grp topic p1 = (p2, acts2)" by fastforce
  have p2: "p2 = p1 \<or> p2 = forget_dead p1" using deliverInterProcess_process [of env self ?packet grp topic p1] i by simp
  have "local_ids p1 = local_ids p" by (rule local_ids_cong [OF reg]) (simp add: nodes)
  then have "acts2 = remote_sends env self (local_ids p) topic ?packet (GlobalRegistry_findServices grp (pr_registry p))"
    using deliverInterProcess_sends [OF ok assms(4), of env self ?packet topic] i by (simp add: reg)
  then show ?thesis
    using assms(2-5) d i p2 ok process_ok_forget_dead nodes by (auto simp: publish_def)
qed

text \<open>C2: \<open>publish\<close>, exactly: when the queues have room it returns \<open>NO_ERROR\<close>; every other live registered
  node of the process that is subscribed to the group and topic gets the message once, at the end of
  the queue its routing key selects; no other node changes, in particular not the publisher; and the
  packets sent are one per node of another process that offers the topic, over the transport it is
  registered with, never two to the same node.\<close>

theorem publish_exact:
  assumes "process_ok p" "pr_nodes p me = Some self" "nd_running self" "grp \<noteq> []" "topic \<noteq> []"
    "\<forall>ref node. receives p me ref \<longrightarrow> pr_nodes p ref = Some node \<longrightarrow> has_room env node"
  shows "\<exists>p'. publish env me grp topic payload p = Some (NO_ERROR, p',
      remote_sends env self (local_ids p) topic
        (MessageBuilder_build_string (nd_node_id self) grp topic payload (getUdpPort self) DATA)
        (GlobalRegistry_findServices grp (pr_registry p))) \<and> process_ok p' \<and>
    (\<forall>ref. pr_nodes p' ref = map_option (\<lambda>node.
        if receives p me ref \<and> isSubscribed grp topic node
        then put_message env (nd_node_id self) grp topic (str_bytes payload) node else node) (pr_nodes p ref))"
  using assms by (rule publish_room)

subsection \<open>Subscriptions\<close>

lemma update_service_process:
  "fst (update_service is_add me self svc p) = forget_dead (set_registry
     ((if is_add then GlobalRegistry_registerService else GlobalRegistry_unregisterService) (svc_group svc) svc (pr_registry p)) p)"
  by (simp add: update_service_def Let_def notify_others_def getAllNodes_eq)

lemma gr_nodes_service_ops [simp]:
  "gr_nodes (GlobalRegistry_registerService grp svc g) = gr_nodes g"
  "gr_nodes (GlobalRegistry_unregisterService grp svc g) = gr_nodes g"
  by (simp_all add: GlobalRegistry_registerService_def GlobalRegistry_unregisterService_def Let_def split: option.split)

lemma process_ok_update_service: "process_ok p \<Longrightarrow> process_ok (fst (update_service is_add me self svc p))"
  unfolding update_service_process
  by (intro process_ok_forget_dead process_ok_set_registry)
    (auto simp: registry_ok_registerService registry_ok_unregisterService process_ok_def)

text \<open>A sequence of registrations or removals changes the services only, one after the other.\<close>

definition service_op :: "bool \<Rightarrow> ServiceDescriptor \<Rightarrow> GlobalRegistry \<Rightarrow> GlobalRegistry" where
  "service_op is_add svc g =
     (if is_add then GlobalRegistry_registerService else GlobalRegistry_unregisterService) (svc_group svc) svc g"

lemma gr_services_cong:
  "gr_services g = gr_services g' \<Longrightarrow> gr_services (service_op is_add svc g) = gr_services (service_op is_add svc g')"
  by (simp add: service_op_def GlobalRegistry_registerService_def GlobalRegistry_unregisterService_def Let_def
      split: option.split)

lemma gr_services_fold_cong:
  "gr_services g = gr_services g' \<Longrightarrow> gr_services (fold (service_op is_add) svcs g) = gr_services (fold (service_op is_add) svcs g')"
proof (induction svcs arbitrary: g g')
  case (Cons svc svcs)
  then show ?case by (metis fold_simps(2) gr_services_cong)
qed simp

lemma update_services_process:
  assumes "process_ok p"
  shows "process_ok (fst (update_services (update_service is_add me self) svcs p)) \<and>
    pr_nodes (fst (update_services (update_service is_add me self) svcs p)) = pr_nodes p \<and>
    gr_services (pr_registry (fst (update_services (update_service is_add me self) svcs p))) =
      gr_services (fold (service_op is_add) svcs (pr_registry p))"
  using assms
proof (induction svcs arbitrary: p)
  case (Cons svc svcs)
  obtain p1 acts where u: "update_service is_add me self svc p = (p1, acts)" by fastforce
  have p1: "p1 = forget_dead (set_registry (service_op is_add svc (pr_registry p)) p)"
    using update_service_process [of is_add me self svc p] u by (simp add: service_op_def)
  have "process_ok p1" using process_ok_update_service [OF Cons.prems, of is_add me self svc] u by simp
  moreover have "gr_services (fold (service_op is_add) svcs (pr_registry p1)) =
      gr_services (fold (service_op is_add) svcs (service_op is_add svc (pr_registry p)))"
    by (rule gr_services_fold_cong) (simp add: p1)
  moreover have "fst (update_services (update_service is_add me self) (svc # svcs) p) =
      fst (update_services (update_service is_add me self) svcs p1)"
    by (simp add: u split: prod.split)
  moreover have "pr_nodes p1 = pr_nodes p" by (simp add: p1)
  ultimately show ?case using Cons.IH [of p1] by simp
qed simp

lemma findServices_services_cong:
  "gr_services g = gr_services g' \<Longrightarrow> GlobalRegistry_findServices grp g = GlobalRegistry_findServices grp g'"
  by (simp add: GlobalRegistry_findServices_def)

lemma own_services_parts:
  "svc \<in> set (own_services self grp topic) \<Longrightarrow>
     svc_node_id svc = nd_node_id self \<and> svc_group svc = grp \<and> svc_topic svc = topic \<and> svc_type svc = NORMAL_MESSAGE"
  by (auto simp: own_services_def Let_def split: if_splits)

lemma own_services_nonempty: "own_services self grp topic \<noteq> [] \<longleftrightarrow> nd_shm_ready self \<or> udp_ready self"
  by (auto simp: own_services_def Let_def)

text \<open>A node offers a topic by shared memory when the registry lists such a descriptor.\<close>

definition offers_shm :: "GlobalRegistry \<Rightarrow> string \<Rightarrow> string \<Rightarrow> string \<Rightarrow> bool" where
  "offers_shm g nid grp topic \<longleftrightarrow>
     (\<exists>s \<in> set (GlobalRegistry_findServices grp g). svc_node_id s = nid \<and> getCapability s = grp @ ''/'' @ topic \<and>
        svc_transport s = SHARED_MEMORY)"

lemma registerService_loop_keeps_shm:
  "s \<in> set vec \<Longrightarrow> svc_transport s = SHARED_MEMORY \<Longrightarrow> s \<in> set (registerService_loop svc vec)"
  by (induction svc vec rule: registerService_loop.induct) auto

lemma registerService_loop_adds_shm:
  "svc_transport svc = SHARED_MEMORY \<Longrightarrow>
   \<exists>s \<in> set (registerService_loop svc vec). svc_transport s = SHARED_MEMORY \<and> same_service s svc"
  by (induction svc vec rule: registerService_loop.induct) (auto simp: same_service_def)

lemma offers_shm_kept:
  assumes "registry_ok g" "grp \<noteq> []" "svc_group svc = grp" "offers_shm g nid grp topic"
  shows "offers_shm (service_op True svc g) nid grp topic"
  using assms registerService_loop_keeps_shm
  by (auto simp: offers_shm_def service_op_def findServices_registerService)

lemma offers_shm_added:
  assumes "registry_ok g" "grp \<noteq> []" "svc_group svc = grp" "svc_transport svc = SHARED_MEMORY" "svc_type svc = NORMAL_MESSAGE"
  shows "offers_shm (service_op True svc g) (svc_node_id svc) grp (svc_topic svc)"
  using assms registerService_loop_adds_shm [OF assms(4), of "GlobalRegistry_findServices grp g"]
  by (auto simp: offers_shm_def service_op_def findServices_registerService same_service_def getCapability_def [of svc])

lemma offers_shm_fold:
  assumes "registry_ok g" "grp \<noteq> []" "\<forall>s \<in> set svcs. svc_group s = grp"
    "offers_shm g nid grp topic \<or>
     (\<exists>s \<in> set svcs. svc_node_id s = nid \<and> svc_topic s = topic \<and> svc_transport s = SHARED_MEMORY \<and> svc_type s = NORMAL_MESSAGE)"
  shows "offers_shm (fold (service_op True) svcs g) nid grp topic"
  using assms
proof (induction svcs arbitrary: g)
  case (Cons svc svcs)
  have "registry_ok (service_op True svc g)"
    using Cons.prems(1) by (simp add: service_op_def registry_ok_registerService)
  then show ?case
    using Cons.IH [of "service_op True svc g"] Cons.prems offers_shm_kept [of g grp svc nid topic] offers_shm_added [of g grp svc]
    by auto
qed simp

lemma set_insort_topics:
  "set (foldl (\<lambda>acc t. if t \<noteq> [] then insort_insert t acc else acc) old topics) = set old \<union> (set topics - {[]})"
  by (induction topics arbitrary: old) (auto simp: set_insort_insert)

lemma udp_ready_subscriptions [simp]:
  "udp_ready (self\<lparr>nd_subscriptions := subs\<rparr>) = udp_ready self"
  "getUdpPort (self\<lparr>nd_subscriptions := subs\<rparr>) = getUdpPort self"
  by (simp_all add: udp_ready_def getUdpPort_def split: option.split)

lemma process_ok_set_subscriptions:
  assumes "process_ok p" "pr_nodes p me = Some self" "om_wf subs"
  shows "process_ok (set_node me (self\<lparr>nd_subscriptions := subs\<rparr>) p)"
  using assms by (intro process_ok_set_node) (auto simp: process_ok_def)

text \<open>C16: \<open>subscribe\<close> adds exactly the non-empty topics to the subscriptions of the node and leaves all
  other nodes alone; with shared memory ready the registry afterwards lists the node as offering each
  of these topics by shared memory.\<close>

theorem subscribe_effect:
  assumes "process_ok p" "pr_nodes p me = Some self" "nd_running self" "grp \<noteq> []" "topics \<noteq> []"
  shows "\<exists>p' acts self'. subscribe me grp topics (Some f) p = Some (NO_ERROR, p', acts) \<and> process_ok p' \<and>
    pr_nodes p' = (pr_nodes p)(me \<mapsto> self') \<and>
    (\<forall>g t. isSubscribed g t self' \<longleftrightarrow> isSubscribed g t self \<or> (g = grp \<and> t \<in> set topics \<and> t \<noteq> [])) \<and>
    (nd_shm_ready self \<longrightarrow> (\<forall>t \<in> set topics. t \<noteq> [] \<longrightarrow> offers_shm (pr_registry p') (nd_node_id self) grp t))"
proof -
  define old where "old = (case om_lookup (nd_subscriptions self) grp of Some info \<Rightarrow> si_topics info | None \<Rightarrow> [])"
  define new where "new = foldl (\<lambda>acc t. if t \<noteq> [] then insort_insert t acc else acc) old topics"
  define self1 where "self1 = self\<lparr>nd_subscriptions := om_insert grp \<lparr>si_topics = new, si_callback = f\<rparr> (nd_subscriptions self)\<rparr>"
  define svcs where "svcs = concat (map (own_services self1 grp) (filter (\<lambda>t. t \<noteq> []) topics))"
  obtain p' acts where u: "update_services (registerService me self1) svcs (set_node me self1 p) = (p', acts)" by fastforce
  have wf: "om_wf (nd_subscriptions self)" using assms(1,2) by (auto simp: process_ok_def)
  have ok1: "process_ok (set_node me self1 p)"
    unfolding self1_def using assms(1,2) wf by (intro process_ok_set_subscriptions om_wf_insert)
  note eff = update_services_process [OF ok1, of True me self1 svcs, folded registerService_def, unfolded u fst_conv]
  have sub: "subscribe me grp topics (Some f) p = Some (NO_ERROR, p', acts)"
    using assms(2-5) u unfolding old_def new_def self1_def svcs_def by (simp add: subscribe_def Let_def)
  have set_new: "set new = set old \<union> (set topics - {[]})" unfolding new_def by (rule set_insort_topics)
  have is_sub: "isSubscribed g t self1 \<longleftrightarrow> isSubscribed g t self \<or> (g = grp \<and> t \<in> set topics \<and> t \<noteq> [])" for g t
    using wf set_new by (auto simp: isSubscribed_def self1_def om_lookup_insert old_def split: option.splits)
  have offered: "offers_shm (pr_registry p') (nd_node_id self) grp t"
    if "nd_shm_ready self" "t \<in> set topics" "t \<noteq> []" for t
  proof -
    have "offers_shm (fold (service_op True) svcs (pr_registry p)) (nd_node_id self) grp t"
    proof (rule offers_shm_fold [OF _ assms(4)])
      show "registry_ok (pr_registry p)" using assms(1) by (simp add: process_ok_def)
      show "\<forall>s \<in> set svcs. svc_group s = grp" using own_services_parts by (fastforce simp: svcs_def)
      have "\<exists>s \<in> set (own_services self1 grp t). svc_node_id s = nd_node_id self \<and> svc_topic s = t \<and>
          svc_transport s = SHARED_MEMORY \<and> svc_type s = NORMAL_MESSAGE"
        using that(1) by (simp add: own_services_def self1_def Let_def)
      then show "offers_shm (pr_registry p) (nd_node_id self) grp t \<or> (\<exists>s \<in> set svcs. svc_node_id s = nd_node_id self \<and>
          svc_topic s = t \<and> svc_transport s = SHARED_MEMORY \<and> svc_type s = NORMAL_MESSAGE)"
        using that(2,3) by (auto simp: svcs_def)
    qed
    moreover have "GlobalRegistry_findServices grp (pr_registry p') =
        GlobalRegistry_findServices grp (fold (service_op True) svcs (pr_registry p))"
      using eff by (intro findServices_services_cong) simp
    ultimately show ?thesis by (simp add: offers_shm_def)
  qed
  show ?thesis
    using sub eff is_sub offered by (intro exI [of _ p'] exI [of _ acts] exI [of _ self1]) simp
qed

lemma erase_topics_eq:
  "erase_topics topics ts = (found, rest) \<Longrightarrow>
     set found = set topics \<inter> set ts \<and> rest = filter (\<lambda>t. t \<notin> set topics) ts"
proof (induction topics ts arbitrary: found rest rule: erase_topics.induct)
  case (2 topic topics ts)
  show ?case
  proof (cases "topic \<in> set ts")
    case True
    obtain f r where fr: "erase_topics topics (removeAll topic ts) = (f, r)" by fastforce
    then have "found = topic # f" "rest = r" using 2(3) True by simp_all
    then show ?thesis using 2(1) [OF True fr] True by (auto simp: removeAll_filter_not_eq intro: filter_cong)
  next
    case False
    then have "filter (\<lambda>t. t \<notin> set topics) ts = filter (\<lambda>t. t \<notin> set (topic # topics)) ts"
      by (intro filter_cong) auto
    then show ?thesis using 2(2) [OF False] 2(3) False by simp
  qed
qed simp

lemma service_op_remove: "service_op False = (\<lambda>s. GlobalRegistry_unregisterService (svc_group s) s)"
  by (simp add: fun_eq_iff service_op_def)

text \<open>Services of a node for a group and some topics.\<close>

definition node_topic_service :: "string \<Rightarrow> string \<Rightarrow> (string \<Rightarrow> bool) \<Rightarrow> ServiceDescriptor \<Rightarrow> bool" where
  "node_topic_service nid grp removed s \<longleftrightarrow> svc_node_id s = nid \<and> svc_group s = grp \<and> removed (svc_topic s)"

lemma remove_own_services:
  assumes "registry_ok g" "nd_shm_ready self \<or> udp_ready self" "set found = {t. removed t}"
  shows "GlobalRegistry_findServices [] (fold (service_op False) (concat (map (own_services self grp) found)) g) =
    filter (\<lambda>s. \<not> node_topic_service (nd_node_id self) grp removed s) (GlobalRegistry_findServices [] g)"
proof -
  let ?svcs = "concat (map (own_services self grp) found)"
  have same: "(\<exists>svc \<in> set ?svcs. same_subscription s svc) \<longleftrightarrow> node_topic_service (nd_node_id self) grp removed s" for s
  proof
    assume s: "node_topic_service (nd_node_id self) grp removed s"
    obtain svc where "svc \<in> set (own_services self grp (svc_topic s))"
      using own_services_nonempty [of self grp "svc_topic s"] assms(2) by (meson list.set_sel(1))
    moreover have "same_subscription s svc"
      using own_services_parts [OF calculation] s by (simp add: node_topic_service_def same_subscription_def)
    moreover have "svc_topic s \<in> set found" using s assms(3) by (simp add: node_topic_service_def)
    ultimately show "\<exists>svc \<in> set ?svcs. same_subscription s svc" by auto
  next
    assume "\<exists>svc \<in> set ?svcs. same_subscription s svc"
    then show "node_topic_service (nd_node_id self) grp removed s"
      using own_services_parts assms(3) by (fastforce simp: same_subscription_def node_topic_service_def)
  qed
  show ?thesis
    unfolding service_op_remove svc_dir.listing_remove_all [OF assms(1)] by (rule filter_cong) (simp_all flip: same)
qed

text \<open>C17: \<open>unsubscribe\<close> removes exactly the given topics of the group (all of them for an empty list), and
  with a transport ready it removes from the registry exactly the services of this node for the
  topics that were subscribed.\<close>

theorem unsubscribe_effect:
  fixes topics :: "string list"
  assumes "process_ok p" "pr_nodes p me = Some self" "nd_running self" "grp \<noteq> []"
    "om_lookup (nd_subscriptions self) grp \<noteq> None"
  defines "removed \<equiv> \<lambda>t. isSubscribed grp t self \<and> (topics = [] \<or> t \<in> set topics)"
  shows "\<exists>p' acts self'. unsubscribe me grp topics p = Some (NO_ERROR, p', acts) \<and> process_ok p' \<and>
    pr_nodes p' = (pr_nodes p)(me \<mapsto> self') \<and>
    (\<forall>g t. isSubscribed g t self' \<longleftrightarrow> isSubscribed g t self \<and> \<not> (g = grp \<and> removed t)) \<and>
    (nd_shm_ready self \<or> udp_ready self \<longrightarrow>
       GlobalRegistry_findServices [] (pr_registry p') =
       filter (\<lambda>s. \<not> node_topic_service (nd_node_id self) grp removed s) (GlobalRegistry_findServices [] (pr_registry p)))"
proof -
  obtain info where info: "om_lookup (nd_subscriptions self) grp = Some info" using assms(5) by auto
  obtain found rest where er: "(if topics = [] then (si_topics info, []) else erase_topics topics (si_topics info)) = (found, rest)"
    by fastforce
  have fr: "set found = {t. removed t}" "set rest = {t \<in> set (si_topics info). \<not> removed t}"
    using er erase_topics_eq [of topics "si_topics info" found rest] info
    by (auto simp: removed_def isSubscribed_def split: if_splits)
  define subs where "subs = (if rest = [] then om_delete grp (nd_subscriptions self)
      else om_insert grp (info\<lparr>si_topics := rest\<rparr>) (nd_subscriptions self))"
  define self1 where "self1 = self\<lparr>nd_subscriptions := subs\<rparr>"
  define svcs where "svcs = concat (map (own_services self1 grp) found)"
  obtain p' acts where u: "update_services (unregisterService me self1) svcs (set_node me self1 p) = (p', acts)" by fastforce
  have wf: "om_wf (nd_subscriptions self)" using assms(1,2) by (auto simp: process_ok_def)
  then have "om_wf subs" by (simp add: subs_def om_wf_insert om_wf_delete)
  then have ok1: "process_ok (set_node me self1 p)"
    unfolding self1_def using assms(1,2) by (intro process_ok_set_subscriptions)
  note eff = update_services_process [OF ok1, of False me self1 svcs, folded unregisterService_def, unfolded u fst_conv]
  have unsub: "unsubscribe me grp topics p = Some (NO_ERROR, p', acts)"
    using assms(2-4) info u er unfolding subs_def self1_def svcs_def by (simp add: unsubscribe_def Let_def)
  have is_sub: "isSubscribed g t self1 \<longleftrightarrow> isSubscribed g t self \<and> \<not> (g = grp \<and> removed t)" for g t
  proof (cases "g = grp")
    case True
    have "isSubscribed grp t self1 \<longleftrightarrow> t \<in> set rest"
      using wf by (simp add: isSubscribed_def self1_def subs_def om_lookup_insert om_lookup_delete)
    then show ?thesis using True fr(2) info by (simp add: isSubscribed_def)
  next
    case False
    then show ?thesis
      using wf by (simp add: isSubscribed_def self1_def subs_def om_lookup_insert om_lookup_delete)
  qed
  have gone: "GlobalRegistry_findServices [] (pr_registry p') =
      filter (\<lambda>s. \<not> node_topic_service (nd_node_id self) grp removed s) (GlobalRegistry_findServices [] (pr_registry p))"
    if "nd_shm_ready self \<or> udp_ready self"
    using remove_own_services [of "pr_registry p" self1 found removed grp] that assms(1) eff fr(1)
    by (subst findServices_services_cong [of _ "fold (service_op False) svcs (pr_registry p)"])
      (simp_all add: process_ok_def svcs_def self1_def)
  show ?thesis
    using unsub eff is_sub gone by (intro exI [of _ p'] exI [of _ acts] exI [of _ self1]) simp
qed

subsection \<open>The process as a transition system\<close>

definition keeps_identity :: "Node \<Rightarrow> Node \<Rightarrow> bool" where
  "keeps_identity node node' \<longleftrightarrow>
     nd_node_id node' = nd_node_id node \<and> length (nd_message_queues node') = length (nd_message_queues node) \<and>
     nd_subscriptions node' = nd_subscriptions node"

lemma process_ok_keeps_identity:
  "process_ok p \<Longrightarrow> pr_nodes p me = Some node \<Longrightarrow> keeps_identity node node' \<Longrightarrow> process_ok (set_node me node' p)"
  by (rule process_ok_set_node) (auto simp: keeps_identity_def process_ok_def)

lemma enqueueMessage_identity:
  "enqueueMessage env source grp topic payload node = Some (node', acts) \<Longrightarrow> keeps_identity node node'"
  using enqueueMessage_keeps by (simp add: keeps_identity_def)

lemma enqueueSystemMessage_identity: "keeps_identity node (enqueueSystemMessage type source grp topic payload node)"
  by (simp add: keeps_identity_def enqueueSystemMessage_def)

lemma keeps_identity_refl [simp]: "keeps_identity node node"
  by (simp add: keeps_identity_def)

lemma dispatch_common_identity:
  "dispatch_common env t source packet node = Some (node', acts) \<Longrightarrow> keeps_identity node node'"
  by (auto simp: dispatch_common_def Let_def enqueueSystemMessage_identity split: option.splits MessageType.splits
      dest: enqueueMessage_identity)

lemma processPacket_identity: "processPacket env data node = Some (node', acts) \<Longrightarrow> keeps_identity node node'"
  by (auto simp: processPacket_def Let_def split: if_splits option.splits bool.splits dest: dispatch_common_identity)

lemma handleUdpHeartbeat_identity: "keeps_identity node (handleUdpHeartbeat now from_node addr port node)"
  by (simp add: keeps_identity_def handleUdpHeartbeat_def Let_def)

lemma receiveUdpPacket_identity: "receiveUdpPacket env now g data addr node = Some (node', acts) \<Longrightarrow> keeps_identity node node'"
  by (auto simp: receiveUdpPacket_def Let_def handleUdpHeartbeat_identity
      split: if_splits option.splits bool.splits MessageType.splits dest: dispatch_common_identity)

lemma process_batch_identity: "process_batch k node = (node', acts) \<Longrightarrow> keeps_identity node node'"
  by (auto simp: process_batch_def keeps_identity_def split: if_splits prod.splits)

lemma deserialize_group: "deserialize_service from_node grp topic payload = Some svc \<Longrightarrow> svc_group svc = grp"
  by (auto simp: deserialize_service_def Let_def split: if_splits)

lemma gr_nodes_fold_remove: "gr_nodes (fold remove_service svcs g) = gr_nodes g"
  by (induction svcs arbitrary: g) (simp_all add: remove_service_def)

lemma process_system_message_registry:
  assumes "registry_ok g" "process_system_message msg self g = (g', acts)"
  shows "registry_ok g' \<and> gr_nodes g' = gr_nodes g"
  using assms
  by (auto simp: process_system_message_def handleServiceMessage_def handleNodeEvent_def Let_def purge_node_services_def
      gr_nodes_fold_remove registry_ok_remove_services registry_ok_registerService registry_ok_unregisterService
      split: SystemMessageType.splits if_splits option.splits)

lemma system_step_ok:
  assumes "system_step (node, g) = ((node', g'), acts)" "registry_ok g"
  shows "keeps_identity node node'" "registry_ok g'" "gr_nodes g' = gr_nodes g"
  using assms process_system_message_registry
  by (auto simp: system_step_def keeps_identity_def split: list.splits prod.splits)

lemma purge_udp_nodes_nodes: "purge_udp_nodes cb nids g = (g', acts) \<Longrightarrow> registry_ok g \<Longrightarrow> registry_ok g' \<and> gr_nodes g' = gr_nodes g"
proof (induction nids arbitrary: g acts)
  case (Cons nid nids)
  obtain g1 acts1 where p: "purge_udp_services cb nid g = (g1, acts1)" by fastforce
  then have "registry_ok g1" "gr_nodes g1 = gr_nodes g"
    using Cons.prems(2) by (auto simp: purge_udp_services_def Let_def registry_ok_remove_services gr_nodes_fold_remove)
  then show ?case using Cons p by (auto split: prod.splits)
qed simp

lemma checkUdpTimeouts_ok:
  assumes "checkUdpTimeouts now (node, g) = ((node', g'), acts)" "registry_ok g"
  shows "keeps_identity node node'" "registry_ok g'" "gr_nodes g' = gr_nodes g"
  using assms purge_udp_nodes_nodes
  by (auto simp: checkUdpTimeouts_def Let_def keeps_identity_def split: prod.splits)

lemma udpHeartbeatRound_ok:
  assumes "udpHeartbeatRound now (node, g) = ((node', g'), acts)" "registry_ok g"
  shows "keeps_identity node node'" "registry_ok g'" "gr_nodes g' = gr_nodes g"
  using assms checkUdpTimeouts_ok by (auto simp: udpHeartbeatRound_def Let_def split: prod.splits)

lemma process_ok_thread_step:
  assumes "process_ok p" "pr_nodes p me = Some node" "keeps_identity node node'" "registry_ok g'"
    "gr_nodes g' = gr_nodes (pr_registry p)"
  shows "process_ok (set_registry g' (set_node me node' p))"
  using assms by (intro process_ok_set_registry process_ok_keeps_identity) auto

lemma notify_others_process: "fst (notify_others me f p) = forget_dead p"
  by (cases me) (simp add: notify_others_def getAllNodes_eq)

lemma process_ok_publish:
  assumes "process_ok p" "publish env me grp topic payload p = Some (err, p', acts)"
  shows "process_ok p'"
proof (cases "err = NO_ERROR")
  case True
  obtain self p1 acts1 where self: "deliverInProcess env me self grp topic (str_bytes payload) p = Some (p1, acts1)"
    "p' = fst (deliverInterProcess env self (MessageBuilder_build_string (nd_node_id self) grp topic payload (getUdpPort self) DATA) grp topic p1)"
    using assms(2) True by (auto simp: publish_def Let_def split: option.splits if_splits prod.splits)
  have "process_ok p1"
  proof (rule process_ok_update_nodes [OF process_ok_forget_dead [OF assms(1)]])
    show "pr_registry p1 = pr_registry (forget_dead p)" using deliverInProcess_exact(2) [OF assms(1) self(1)] by simp
    fix ref node' assume "pr_nodes p1 ref = Some node'"
    then obtain node where "pr_nodes p ref = Some node" "keeps_identity node node'"
      using deliverInProcess_exact(2) [OF assms(1) self(1), of ref] enqueueMessage_identity
      by (auto split: if_splits bind_splits)
    then show "\<exists>node. pr_nodes (forget_dead p) ref = Some node \<and> nd_node_id node' = nd_node_id node \<and>
        length (nd_message_queues node') = length (nd_message_queues node) \<and> om_wf (nd_subscriptions node')"
      using assms(1) by (auto simp: keeps_identity_def process_ok_def)
  qed
  then show ?thesis using self(2) deliverInterProcess_process process_ok_forget_dead by metis
next
  case False
  then show ?thesis using assms by (auto simp: publish_def Let_def split: option.splits if_splits prod.splits)
qed

lemma process_ok_update_services:
  assumes "process_ok p" "pr_nodes p me = Some self" "om_wf subs"
    "update_services (update_service is_add me (self\<lparr>nd_subscriptions := subs\<rparr>)) svcs (set_node me (self\<lparr>nd_subscriptions := subs\<rparr>) p) = (p', acts)"
  shows "process_ok p'"
  using update_services_process [OF process_ok_set_subscriptions [OF assms(1-3)], of is_add me "self\<lparr>nd_subscriptions := subs\<rparr>" svcs]
  unfolding assms(4) by simp

lemma process_ok_subscribe:
  assumes "process_ok p" "subscribe me grp topics cb p = Some (err, p', acts)"
  shows "process_ok p'"
proof (cases "p' = p")
  case False
  obtain self where self: "pr_nodes p me = Some self" using assms(2) by (auto simp: subscribe_def split: option.splits)
  then have wf: "om_wf (nd_subscriptions self)" using assms(1) by (simp add: process_ok_def)
  obtain info svcs where "update_services (registerService me (self\<lparr>nd_subscriptions := om_insert grp info (nd_subscriptions self)\<rparr>)) svcs
      (set_node me (self\<lparr>nd_subscriptions := om_insert grp info (nd_subscriptions self)\<rparr>) p) = (p', acts)"
    using assms(2) self False by (auto simp: subscribe_def Let_def split: option.splits if_splits prod.splits)
  then show ?thesis
    using process_ok_update_services [OF assms(1) self om_wf_insert [OF wf]] by (metis registerService_def)
qed (use assms in simp)

lemma process_ok_unsubscribe:
  assumes "process_ok p" "unsubscribe me grp topics p = Some (err, p', acts)"
  shows "process_ok p'"
proof (cases "p' = p")
  case False
  obtain self where self: "pr_nodes p me = Some self" using assms(2) by (auto simp: unsubscribe_def split: option.splits)
  then have wf: "om_wf (nd_subscriptions self)" using assms(1) by (simp add: process_ok_def)
  obtain subs svcs where subs: "subs = om_delete grp (nd_subscriptions self) \<or> (\<exists>info. subs = om_insert grp info (nd_subscriptions self))"
    and u: "update_services (unregisterService me (self\<lparr>nd_subscriptions := subs\<rparr>)) svcs (set_node me (self\<lparr>nd_subscriptions := subs\<rparr>) p) = (p', acts)"
    using assms(2) self False
    by (simp add: unsubscribe_def Let_def split: option.splits if_splits prod.splits) blast+
  have "om_wf subs" using subs wf by (auto simp: om_wf_insert om_wf_delete)
  then show ?thesis
    using process_ok_update_services [OF assms(1) self] u by (metis unregisterService_def)
qed (use assms in simp)

lemma gr_nodes_unregisterNode: "gr_nodes (GlobalRegistry_unregisterNode nid g) = om_delete nid (gr_nodes g)"
  by (simp add: GlobalRegistry_unregisterNode_def)

lemma process_ok_destroy:
  assumes "process_ok p" "Node_destroy me p = Some (p', acts)"
  shows "process_ok p'"
proof -
  let ?p = "p\<lparr>pr_nodes := (pr_nodes p)(me := None)\<rparr>"
  obtain nid where p': "p' = set_registry (GlobalRegistry_unregisterNode nid (pr_registry (forget_dead ?p))) (forget_dead ?p)"
    using assms(2) notify_others_process
    by (auto simp: Node_destroy_def unregisterNode_def Let_def split: option.splits prod.splits) (metis fst_conv)
  have "process_ok ?p" using assms(1) by (auto simp: process_ok_def split: if_splits)
  then have "process_ok (forget_dead ?p)" by (rule process_ok_forget_dead)
  then show ?thesis
    unfolding p' process_ok_def set_registry_simps
    by (auto simp: registry_ok_unregisterNode gr_nodes_unregisterNode om_delete_def)
qed

text \<open>A new object is not known to the registry yet.\<close>

lemma process_ok_register:
  assumes "process_ok p" "pr_nodes p me = None" "\<not> registered p me" "nd_node_id node = nid"
    "length (nd_message_queues node) = NUM_PROCESSING_THREADS" "om_wf (nd_subscriptions node)"
  shows "process_ok (set_registry (GlobalRegistry_registerNode nid me (pr_registry p)) (set_node me node p))"
proof -
  have reg: "registry_ok (GlobalRegistry_registerNode nid me (pr_registry p))"
    using assms(1) by (simp add: process_ok_def registry_ok_def GlobalRegistry_registerNode_def om_wf_insert)
  have entry: "n = nid \<and> r = me \<or> (n, r) \<in> set (gr_nodes (pr_registry p)) \<and> n \<noteq> nid"
    if "(n, r) \<in> set (om_insert nid me (gr_nodes (pr_registry p)))" for n r
    using that assms(1) om_lookup_insert [of "gr_nodes (pr_registry p)" nid me n] om_wf_insert [of "gr_nodes (pr_registry p)" nid me]
    by (auto simp: process_ok_def registry_ok_def simp flip: om_lookup_eq_mem split: if_splits)
  have ids: "nd_node_id x = n" if e: "(n, r) \<in> set (om_insert nid me (gr_nodes (pr_registry p)))"
    and x: "((pr_nodes p)(me \<mapsto> node)) r = Some x" for n r x
  proof (cases "r = me")
    case True
    then have "(n, r) \<notin> set (gr_nodes (pr_registry p))" using assms(3) by (force simp: registered_def)
    then show ?thesis using entry [OF e] x True assms(4) by simp
  next
    case False
    then have "(n, r) \<in> set (gr_nodes (pr_registry p))" using entry [OF e] by simp
    then show ?thesis using assms(1) x False by (auto simp: process_ok_def)
  qed
  have shape: "\<forall>r x. ((pr_nodes p)(me \<mapsto> node)) r = Some x \<longrightarrow>
      length (nd_message_queues x) = NUM_PROCESSING_THREADS \<and> om_wf (nd_subscriptions x)"
    using assms(1,5,6) by (auto simp: process_ok_def)
  have "\<forall>(n, r) \<in> set (gr_nodes (GlobalRegistry_registerNode nid me (pr_registry p))). \<forall>x.
      ((pr_nodes p)(me \<mapsto> node)) r = Some x \<longrightarrow> nd_node_id x = n"
    using ids unfolding GlobalRegistry_registerNode_def by (simp del: fun_upd_apply) blast
  with reg shape show ?thesis
    unfolding process_ok_def set_registry_simps set_node_simps by blast
qed

lemma initialize_identity:
  "initialize_shm env node = (node', acts) \<Longrightarrow> keeps_identity node node'"
  "initialize_udp env port (np, node) = (b, (np', node'), acts') \<Longrightarrow> keeps_identity node node'"
  by (auto simp: initialize_shm_def initialize_udp_def Let_def keeps_identity_def split: if_splits prod.splits)

lemma registerNode_process:
  assumes "registerNode me self p = (p', acts)"
  shows "p' = set_registry (GlobalRegistry_registerNode (nd_node_id self) me (pr_registry p)) p \<or>
    p' = forget_dead (set_registry (GlobalRegistry_registerNode (nd_node_id self) me (pr_registry p)) p)"
  using assms notify_others_process by (auto simp: registerNode_def Let_def split: if_splits) (metis fst_conv)+

lemma process_ok_create:
  assumes "process_ok p" "pr_nodes p me = None" "\<not> registered p me"
    "createNode env pid nid mode me (np, p) = Some (b, (np', p'), acts)"
  shows "process_ok p'"
proof -
  define node where "node = NodeImpl (ie_epoch_ms env) (nid @ ''_'' @ show_nat pid) False mode"
  define p0 where "p0 = set_node me node p"
  obtain p1 acts1 node1 acts2 node2 acts3 where r: "registerNode me node p0 = (p1, acts1)"
    and s: "initialize_shm env node = (node1, acts2)" and u: "initialize_udp env 0 (np, node1) = (b, (np', node2), acts3)"
    and p': "p' = set_node me node2 p1"
    using assms(4) unfolding createNode_def Node_initialize_def node_def p0_def
    by (auto simp: Let_def split: prod.splits)
  have "process_ok (set_registry (GlobalRegistry_registerNode (nd_node_id node) me (pr_registry p)) (set_node me node p))"
    using assms(1-3) by (intro process_ok_register) (simp_all add: node_def NodeImpl_def om_wf_def)
  then have ok: "process_ok p1" and me: "pr_nodes p1 me = Some node"
    using registerNode_process [OF r] process_ok_forget_dead by (auto simp: p0_def)
  have "keeps_identity node node2" using initialize_identity(1) [OF s] initialize_identity(2) [OF u] by (simp add: keeps_identity_def)
  then show ?thesis unfolding p' using process_ok_keeps_identity [OF ok me] by blast
qed

lemma getLargeDataChannel_identity:
  "getLargeDataChannel env chn (node, w) = (chan, node', w') \<Longrightarrow> keeps_identity node node'"
  by (auto simp: getLargeDataChannel_def keeps_identity_def Let_def split: if_splits option.splits prod.splits)

lemma process_ok_sendLargeData:
  assumes "process_ok p" "sendLargeData nenv env me grp chn topic data (p, w) = Some (err, (p', w'), acts)"
  shows "process_ok p'"
proof -
  obtain self where self: "pr_nodes p me = Some self" using assms(2) by (auto simp: sendLargeData_def split: option.splits)
  obtain chan self1 w1 where g: "getLargeDataChannel env chn (self, w) = (chan, self1, w1)" by (metis prod_cases3)
  have id: "keeps_identity self self1" by (rule getLargeDataChannel_identity [OF g])
  then have ok: "process_ok (set_node me (self1\<lparr>nd_large_channels := x\<rparr>) p)" "process_ok (set_node me self1 p)" for x
    using process_ok_keeps_identity [OF assms(1) self] by (simp_all add: keeps_identity_def)
  have pub: "process_ok p2" if "publish nenv me grp topic pl (set_node me (self1\<lparr>nd_large_channels := x\<rparr>) p) = Some (e, p2, as)" for pl x e p2 as
    using process_ok_publish [OF ok(1) that] .
  show ?thesis
    using assms self g ok
    by (auto simp: sendLargeData_def Let_def split: if_splits option.splits prod.splits dest: pub)
qed

lemma setters_identity:
  "keeps_identity node (setQueueOverflowPolicy policy node)" "keeps_identity node (setQueueOverflowCallback cb node)"
  "keeps_identity node (setServiceDiscoveryCallback cb node)"
  by (simp_all add: keeps_identity_def setQueueOverflowPolicy_def setQueueOverflowCallback_def setServiceDiscoveryCallback_def)

lemma handleNodeEvent_registry:
  assumes "handleNodeEvent nid joined node g = (g', acts)" "registry_ok g"
  shows "registry_ok g'" "gr_nodes g' = gr_nodes g"
  using assms
  by (auto simp: handleNodeEvent_def Let_def purge_node_services_def gr_nodes_fold_remove registry_ok_remove_services split: if_splits)

text \<open>
  The steps of a process: calls of the public interface that can change it, packets that arrive,
  rounds of the worker threads and \<open>NODE_LEFT\<close> events of the transport's heartbeat, in any order.
  Whatever the shared memory holds at a call (\<open>w\<close>, \<open>files\<close>) is arbitrary, because other processes
  change it too.  The remaining functions of the interface only read.
\<close>

inductive process_step :: "Process \<Rightarrow> Process \<Rightarrow> bool" where
  create: "pr_nodes p me = None \<Longrightarrow> \<not> registered p me \<Longrightarrow> createNode env pid nid mode me (np, p) = Some (b, (np', p'), acts) \<Longrightarrow>
    process_step p p'"
| destroy: "Node_destroy me p = Some (p', acts) \<Longrightarrow> process_step p p'"
| call_subscribe: "subscribe me grp topics cb p = Some (err, p', acts) \<Longrightarrow> process_step p p'"
| call_unsubscribe: "unsubscribe me grp topics p = Some (err, p', acts) \<Longrightarrow> process_step p p'"
| call_publish: "publish nenv me grp topic payload p = Some (err, p', acts) \<Longrightarrow> process_step p p'"
| call_sendLargeData: "sendLargeData nenv lenv me grp chn topic data (p, w) = Some (err, (p', w'), acts) \<Longrightarrow> process_step p p'"
| call_getLargeDataChannel: "pr_nodes p me = Some node \<Longrightarrow> getLargeDataChannel lenv chn (node, w) = (chan, node', w') \<Longrightarrow>
    process_step p (set_node me node' p)"
| call_setQueueOverflowPolicy: "pr_nodes p me = Some node \<Longrightarrow> process_step p (set_node me (setQueueOverflowPolicy policy node) p)"
| call_setQueueOverflowCallback: "pr_nodes p me = Some node \<Longrightarrow> process_step p (set_node me (setQueueOverflowCallback fn node) p)"
| call_setServiceDiscoveryCallback: "pr_nodes p me = Some node \<Longrightarrow> process_step p (set_node me (setServiceDiscoveryCallback fn node) p)"
| call_cleanupOrphanedChannels: "pr_nodes p me = Some node \<Longrightarrow>
    Node_cleanupOrphanedChannels env1 env2 ld opendir_ok cenv node files = Some res \<Longrightarrow> process_step p p"
| shm_packet: "pr_nodes p me = Some node \<Longrightarrow> processPacket nenv data node = Some (node', acts) \<Longrightarrow> process_step p (set_node me node' p)"
| udp_packet: "pr_nodes p me = Some node \<Longrightarrow> receiveUdpPacket nenv now (pr_registry p) data addr node = Some (node', acts) \<Longrightarrow>
    process_step p (set_node me node' p)"
| batch: "pr_nodes p me = Some node \<Longrightarrow> process_batch k node = (node', acts) \<Longrightarrow> process_step p (set_node me node' p)"
| system: "pr_nodes p me = Some node \<Longrightarrow> system_step (node, pr_registry p) = ((node', g'), acts) \<Longrightarrow>
    process_step p (set_registry g' (set_node me node' p))"
| heartbeat: "pr_nodes p me = Some node \<Longrightarrow> udpHeartbeatRound now (node, pr_registry p) = ((node', g'), acts) \<Longrightarrow>
    process_step p (set_registry g' (set_node me node' p))"
| node_left: "pr_nodes p me = Some node \<Longrightarrow> handleNodeEvent nid False node (pr_registry p) = (g', acts) \<Longrightarrow>
    process_step p (set_registry g' p)"

definition Process_init :: Process where
  "Process_init = \<lparr>pr_registry = GlobalRegistry_init, pr_nodes = (\<lambda>_. None)\<rparr>"

lemma process_step_ok: "process_step p p' \<Longrightarrow> process_ok p \<Longrightarrow> process_ok p'"
proof (induction rule: process_step.induct)
  case create
  then show ?case by (metis process_ok_create)
next
  case system
  then show ?case using system_step_ok process_ok_thread_step by (metis process_ok_def)
next
  case heartbeat
  then show ?case using udpHeartbeatRound_ok process_ok_thread_step by (metis process_ok_def)
next
  case (node_left p me node nid g' acts)
  have "registry_ok (pr_registry p)" using node_left(3) by (simp add: process_ok_def)
  then show ?case using process_ok_set_registry [OF node_left(3)] handleNodeEvent_registry [OF node_left(2)] by blast
next
  case call_sendLargeData
  then show ?case using process_ok_sendLargeData by blast
next
  case call_getLargeDataChannel
  then show ?case using process_ok_keeps_identity getLargeDataChannel_identity by blast
qed (auto intro: setters_identity process_ok_destroy process_ok_subscribe process_ok_unsubscribe process_ok_publish
    process_ok_keeps_identity processPacket_identity receiveUdpPacket_identity process_batch_identity)

text \<open>C4: The invariant of a process: in every process reachable by creating and destroying nodes, calls of
  the public interface (publishing, subscribing, large data, the setters, clean-up), packets, worker
  rounds and time-outs that the transport reports, the registry is well formed, every registered live object
  is registered under its own identifier, so that no object is listed twice, and every node has its
  queues.\<close>

theorem process_invariant:
  assumes "process_step\<^sup>*\<^sup>* Process_init p"
  shows "process_ok p"
  using assms
proof (induction rule: rtranclp_induct)
  case base
  show ?case by (simp add: process_ok_def Process_init_def registry_ok_init)
qed (rule process_step_ok)

subsection \<open>Leaving a process\<close>

definition is_left_callback :: "action \<Rightarrow> bool" where
  "is_left_callback act = (case act of DISCOVERY_CALLBACK cb e svc \<Rightarrow> e = NODE_LEFT | _ \<Rightarrow> False)"

definition leave_broadcast :: "Node \<Rightarrow> action list" where
  "leave_broadcast self =
     (if nd_shm_ready self
      then [SHM_BROADCAST (MessageBuilder_build (nd_node_id self) [] [] [] (getUdpPort self) NODE_LEAVE)] else [])"

lemma notify_others_actions:
  assumes "notify_others (me, nid) f p = (p', acts)" "act \<in> set acts"
  shows "\<exists>node. act \<in> set (f node)"
  using assms by (auto simp: notify_others_def split: prod.splits)

lemma notifyNodeEvent_left: "act \<in> set (notifyNodeEvent cb NODE_LEFT nid) \<Longrightarrow> is_left_callback act"
  by (auto simp: notifyNodeEvent_def is_left_callback_def split: option.splits if_splits)

lemma stopped_node:
  "node_teardown (self\<lparr>nd_running := False\<rparr>) = node_teardown self"
  "broadcastNodeEvent (nd_node_id self) (getUdpPort (self\<lparr>nd_running := False\<rparr>)) (nd_shm_ready self) False =
     leave_broadcast self"
  by (simp_all add: node_teardown_def leave_broadcast_def broadcastNodeEvent_def getUdpPort_def split: option.split)

lemma destroy_actions:
  assumes "pr_nodes p me = Some self" "Node_destroy me p = Some (p', acts)"
  shows "\<exists>callbacks. (\<forall>act \<in> set callbacks. is_left_callback act) \<and>
    acts = callbacks @ leave_broadcast self @ node_teardown self"
proof -
  obtain p1 callbacks where n: "notify_others (me, nd_node_id self)
      (\<lambda>node. notifyNodeEvent (nd_discovery_callback node) NODE_LEFT (nd_node_id self))
      (p\<lparr>pr_nodes := (pr_nodes p)(me := None)\<rparr>) = (p1, callbacks)" by (rule prod.exhaust)
  have "\<forall>act \<in> set callbacks. is_left_callback act"
    using notify_others_actions [OF n] notifyNodeEvent_left by blast
  moreover have "acts = callbacks @ leave_broadcast self @ node_teardown self"
    using assms n by (auto simp: Node_destroy_def unregisterNode_def Let_def stopped_node)
  ultimately show ?thesis by blast
qed

text \<open>C20: Destroying a node takes away the object, all services under its identifier and the registration
  of its identifier, and keeps everything else.  A second live node with the same identifier (two
  calls of \<open>createNode\<close> with one name in one process) loses its registration and services with it.
  With shared memory, the leave message is broadcast, once, before any transport or channel is given up.\<close>

theorem node_destroy_exact:
  assumes "process_ok p" "pr_nodes p me = Some self" "Node_destroy me p = Some (p', acts)"
  shows "process_ok p' \<and> pr_nodes p' = (pr_nodes p)(me := None) \<and>
    (\<forall>ref node. pr_nodes p' ref = Some node \<longrightarrow> (registered p' ref \<longleftrightarrow> registered p ref \<and> nd_node_id node \<noteq> nd_node_id self)) \<and>
    GlobalRegistry_findServices [] (pr_registry p') =
      filter (\<lambda>s. svc_node_id s \<noteq> nd_node_id self) (GlobalRegistry_findServices [] (pr_registry p)) \<and>
    (\<exists>callbacks. (\<forall>act \<in> set callbacks. is_left_callback act) \<and>
       acts = callbacks @ leave_broadcast self @ node_teardown self)"
proof -
  let ?p = "p\<lparr>pr_nodes := (pr_nodes p)(me := None)\<rparr>"
  have p': "p' = set_registry (GlobalRegistry_unregisterNode (nd_node_id self) (pr_registry (forget_dead ?p))) (forget_dead ?p)"
    using assms(2,3) notify_others_process
    by (auto simp: Node_destroy_def unregisterNode_def Let_def split: prod.splits) (metis fst_conv)
  have nodes: "gr_nodes (pr_registry p') = filter (\<lambda>e. fst e \<noteq> nd_node_id self \<and> alive ?p (snd e)) (gr_nodes (pr_registry p))"
    by (simp add: p' gr_nodes_unregisterNode om_delete_def forget_dead_def conj_commute)
  have ids: "nd_node_id node = nid" if "(nid, ref) \<in> set (gr_nodes (pr_registry p))" "pr_nodes p ref = Some node" for nid ref node
    using assms(1) that by (auto simp: process_ok_def)
  have "registered p' ref \<longleftrightarrow> registered p ref \<and> nd_node_id node \<noteq> nd_node_id self" if "pr_nodes p' ref = Some node" for ref node
  proof -
    have ref: "pr_nodes p ref = Some node" "ref \<noteq> me" using that by (auto simp: p' split: if_splits)
    have "registered p' ref \<longleftrightarrow> (\<exists>nid. (nid, ref) \<in> set (gr_nodes (pr_registry p)) \<and> nid \<noteq> nd_node_id self)"
      using ref by (force simp: registered_def nodes alive_def)
    also have "\<dots> \<longleftrightarrow> registered p ref \<and> nd_node_id node \<noteq> nd_node_id self"
      using ids [OF _ ref(1)] by (force simp: registered_def)
    finally show ?thesis .
  qed
  moreover have "GlobalRegistry_findServices [] (pr_registry p') =
      filter (\<lambda>s. svc_node_id s \<noteq> nd_node_id self) (GlobalRegistry_findServices [] (pr_registry p))"
    by (simp add: p' findServices_all GlobalRegistry_unregisterNode_def remove_node_services_concat)
  ultimately show ?thesis
    using process_ok_destroy [OF assms(1,3)] destroy_actions [OF assms(2,3)] by (simp add: p')
qed


subsection \<open>Examples\<close>

text \<open>A process with two nodes; the second one is subscribed.\<close>

definition example_process :: Process where
  "example_process = \<lparr>pr_registry = \<lparr>gr_nodes = [(''a'', 0), (''b'', 2)], gr_services = []\<rparr>,
     pr_nodes = [0 \<mapsto> NodeImpl 0 ''a'' False MODE_AUTO, 2 \<mapsto> example_subscriber]\<rparr>"


lemma example_subscriber_facts:
  "length (nd_message_queues example_subscriber) = NUM_PROCESSING_THREADS" "nd_running example_subscriber"
  "isSubscribed ''g'' ''t'' example_subscriber" "nd_node_id example_subscriber = ''b''" "has_room example_node_env example_subscriber"
  by (simp_all add: example_subscriber_def NodeImpl_def isSubscribed_def om_lookup_def has_room_def example_node_env_def
      NUM_PROCESSING_THREADS_def)

lemma example_process_ok: "process_ok example_process"
  by (auto simp: process_ok_def example_process_def registry_ok_def om_wf_def NodeImpl_def example_subscriber_def
      list_less_def split: if_splits)

lemma example_process_facts:
  "pr_nodes example_process 0 = Some (NodeImpl 0 ''a'' False MODE_AUTO)" "pr_nodes example_process 2 = Some example_subscriber"
  "receives example_process 0 ref \<longleftrightarrow> ref = 2"
  by (auto simp: example_process_def receives_def registered_def)

theorem publish_exact_witness:
  "\<exists>p'. publish example_node_env 0 ''g'' ''t'' ''x'' example_process = Some (NO_ERROR, p', []) \<and>
     pr_nodes p' 2 = Some (put_message example_node_env ''a'' ''g'' ''t'' (str_bytes ''x'') example_subscriber)"
proof -
  have svcs: "GlobalRegistry_findServices ''g'' (pr_registry example_process) = []"
    by (simp add: GlobalRegistry_findServices_def example_process_def om_lookup_def)
  have room: "\<forall>ref node. receives example_process 0 ref \<longrightarrow> pr_nodes example_process ref = Some node \<longrightarrow> has_room example_node_env node"
    using example_process_facts example_subscriber_facts(5) by simp
  have "nd_running (NodeImpl 0 ''a'' False MODE_AUTO)" "nd_node_id (NodeImpl 0 ''a'' False MODE_AUTO) = ''a''"
    by (simp_all add: NodeImpl_def)
  then show ?thesis
    using publish_exact [OF example_process_ok example_process_facts(1) _ _ _ room, of "''g''" "''t''" "''x''"]
    by (auto simp: svcs remote_sends_def example_process_facts example_subscriber_facts(3))
qed

theorem subscribe_effect_witness:
  "\<exists>p' acts self'. subscribe 2 ''g'' [''u''] (Some 3) example_process = Some (NO_ERROR, p', acts) \<and> pr_nodes p' 2 = Some self' \<and>
     isSubscribed ''g'' ''u'' self' \<and> isSubscribed ''g'' ''t'' self' \<and> offers_shm (pr_registry p') ''b'' ''g'' ''u''"
proof -
  have "nd_shm_ready example_subscriber" by (simp add: example_subscriber_def)
  then show ?thesis
    using subscribe_effect [OF example_process_ok example_process_facts(2) example_subscriber_facts(2), of "''g''" "[''u'']" 3]
      example_subscriber_facts(3,4) by (auto simp: fun_upd_apply)
qed

theorem unsubscribe_effect_witness:
  "\<exists>p' acts self'. unsubscribe 2 ''g'' [] example_process = Some (NO_ERROR, p', acts) \<and> pr_nodes p' 2 = Some self' \<and>
     \<not> isSubscribed ''g'' ''t'' self'"
  using unsubscribe_effect [OF example_process_ok example_process_facts(2) example_subscriber_facts(2), of "''g''" "[]"]
    example_subscriber_facts(3) by (auto simp: isSubscribed_def split: option.splits)

theorem process_invariant_witness:
  "\<exists>b np p' acts. createNode \<lparr>ie_shm_initialize = False, ie_shm_nodes = [], ie_udp = \<lparr>uo_socket = False, uo_setsockopt = False, uo_bind = (\<lambda>_. False), uo_getsockname = None\<rparr>, ie_clock = 0, ie_epoch_ms = 0\<rparr>
      7 ''a'' MODE_AUTO 0 (0, Process_init) = Some (b, (np, p'), acts) \<and> process_ok p'"
proof -
  let ?env = "\<lparr>ie_shm_initialize = False, ie_shm_nodes = [], ie_udp = \<lparr>uo_socket = False, uo_setsockopt = False, uo_bind = (\<lambda>_. False), uo_getsockname = None\<rparr>, ie_clock = 0, ie_epoch_ms = 0\<rparr>"
  have "createNode ?env 7 ''a'' MODE_AUTO 0 (0, Process_init) \<noteq> None"
    by (simp add: createNode_def Node_initialize_def Let_def del: not_None_eq split: prod.split)
  then obtain b np p' acts where c: "createNode ?env 7 ''a'' MODE_AUTO 0 (0, Process_init) = Some (b, (np, p'), acts)" by auto
  have "process_step Process_init p'"
    by (rule process_step.create [OF _ _ c]) (simp_all add: Process_init_def registered_def GlobalRegistry_init_def)
  then have "process_ok p'" by (intro process_invariant) simp
  then show ?thesis using c by blast
qed

theorem node_destroy_exact_witness:
  "case Node_destroy 0 example_process of None \<Rightarrow> False | Some (p', acts) \<Rightarrow>
     pr_nodes p' 0 = None \<and> registered p' 2 \<and> process_ok p' \<and> (\<forall>act \<in> set acts. is_left_callback act)"
proof -
  have "Node_destroy 0 example_process \<noteq> None"
    by (simp add: Node_destroy_def example_process_facts Let_def del: not_None_eq split: prod.split)
  then obtain p' acts where d: "Node_destroy 0 example_process = Some (p', acts)" by auto
  have "registered example_process 2" by (simp add: registered_def example_process_def)
  moreover have "nd_node_id (NodeImpl 0 ''a'' False MODE_AUTO) = ''a''"
    "leave_broadcast (NodeImpl 0 ''a'' False MODE_AUTO) @ node_teardown (NodeImpl 0 ''a'' False MODE_AUTO) = []"
    by (simp_all add: NodeImpl_def leave_broadcast_def node_teardown_def)
  ultimately have "pr_nodes p' 0 = None \<and> registered p' 2 \<and> process_ok p' \<and> (\<forall>act \<in> set acts. is_left_callback act)"
    using node_destroy_exact [OF example_process_ok example_process_facts(1) d] example_process_facts(2) example_subscriber_facts(4)
    by (auto simp: fun_upd_apply)
  then show ?thesis by (simp add: d)
qed

end
