(* ===== verification/Nexus_Delivery.thy ===== *)
theory Nexus_Delivery
  imports Nexus_Process "HOL-Library.Sublist"
begin

section \<open>Order of delivery in a node\<close>

text \<open>
  The receiving threads and the four processing threads of a node as one sequence of events.  A group
  and topic select one queue by a hash (a parameter), so whatever the threads interleave, the callback
  gets the messages of a topic in the order in which they arrived.

  Shown: no message is doubled or reordered, whatever overflows; what is lost is counted (unless the
  policy is \<open>BLOCK\<close>); with room in the queues nothing is lost, and enough batches of the selected
  thread deliver what is waiting.
\<close>

subsection \<open>Order of messages\<close>

text \<open>
  The receiving threads and the processing threads of a node as one sequence of events: a message
  arrives, or a processing thread handles a batch.
\<close>

datatype worker_event = EV_MESSAGE string string string bytes | EV_BATCH nat

fun run_event :: "node_env \<Rightarrow> worker_event \<Rightarrow> Node \<Rightarrow> (Node \<times> action list) option" where
  "run_event env (EV_MESSAGE source grp topic payload) node = enqueueMessage env source grp topic payload node"
| "run_event env (EV_BATCH thread_id) node = Some (process_batch thread_id node)"

fun run_events :: "node_env \<Rightarrow> worker_event list \<Rightarrow> Node \<Rightarrow> (Node \<times> action list) option" where
  "run_events env [] node = Some (node, [])"
| "run_events env (ev # evs) node =
     (case run_event env ev node of
        None \<Rightarrow> None
      | Some (node1, acts1) \<Rightarrow> map_option (\<lambda>(node2, acts2). (node2, acts1 @ acts2)) (run_events env evs node1))"

fun topic_payloads :: "string \<Rightarrow> string \<Rightarrow> worker_event list \<Rightarrow> bytes list" where
  "topic_payloads grp topic [] = []"
| "topic_payloads grp topic (EV_MESSAGE source g t payload # evs) =
     (if g = grp \<and> t = topic then payload # topic_payloads grp topic evs else topic_payloads grp topic evs)"
| "topic_payloads grp topic (EV_BATCH k # evs) = topic_payloads grp topic evs"

definition is_callback_for :: "string \<Rightarrow> string \<Rightarrow> action \<Rightarrow> bool" where
  "is_callback_for grp topic a = (case a of MESSAGE_CALLBACK f g t payload \<Rightarrow> g = grp \<and> t = topic | _ \<Rightarrow> False)"

definition is_message_for :: "string \<Rightarrow> string \<Rightarrow> PendingMessage \<Rightarrow> bool" where
  "is_message_for grp topic m \<longleftrightarrow> pm_group m = grp \<and> pm_topic m = topic"

text \<open>Every queued message is in the queue of the thread that its group and topic select.\<close>

definition queues_ok :: "node_env \<Rightarrow> Node \<Rightarrow> bool" where
  "queues_ok env node \<longleftrightarrow>
     length (nd_message_queues node) = NUM_PROCESSING_THREADS \<and>
     (\<forall>k < NUM_PROCESSING_THREADS. \<forall>m \<in> set (nd_message_queues node ! k).
        routing_thread (ne_hash env) (pm_group m) (pm_topic m) = k)"

definition topic_queue :: "node_env \<Rightarrow> string \<Rightarrow> string \<Rightarrow> Node \<Rightarrow> bytes list" where
  "topic_queue env grp topic node =
     map pm_payload (filter (is_message_for grp topic) (nd_message_queues node ! routing_thread (ne_hash env) grp topic))"

definition room_for :: "node_env \<Rightarrow> nat \<Rightarrow> Node \<Rightarrow> bool" where
  "room_for env n node \<longleftrightarrow> (\<forall>q \<in> set (nd_message_queues node). length q + n \<le> ne_max_queue_size env)"

lemma invoke_callback_for:
  assumes "om_lookup (nd_subscriptions node) grp = Some info"
  shows "filter (is_callback_for grp topic) (invoke_callback node m) =
    (if is_message_for grp topic m then [MESSAGE_CALLBACK (si_callback info) grp topic (pm_payload m)] else [])"
  using assms by (auto simp: invoke_callback_def is_callback_for_def is_message_for_def split: option.split)

lemma batch_callbacks:
  assumes "om_lookup (nd_subscriptions node) grp = Some info"
  shows "filter (is_callback_for grp topic) (concat (map (invoke_callback node) batch)) =
    map (MESSAGE_CALLBACK (si_callback info) grp topic) (map pm_payload (filter (is_message_for grp topic) batch))"
  by (induction batch) (simp_all add: invoke_callback_for [OF assms])

lemma process_batch_topic:
  assumes "queues_ok env node" "nd_running node" "om_lookup (nd_subscriptions node) grp = Some info"
    "thread_id < NUM_PROCESSING_THREADS" "process_batch thread_id node = (node', acts)"
  shows "queues_ok env node'" "nd_subscriptions node' = nd_subscriptions node" "nd_running node'"
    "nd_message_queues node' = (nd_message_queues node)[thread_id := drop MAX_MESSAGE_BATCH_SIZE (nd_message_queues node ! thread_id)]"
    "filter (is_callback_for grp topic) acts @ map (MESSAGE_CALLBACK (si_callback info) grp topic) (topic_queue env grp topic node') =
       map (MESSAGE_CALLBACK (si_callback info) grp topic) (topic_queue env grp topic node)"
proof -
  let ?q = "nd_message_queues node ! thread_id" and ?b = MAX_MESSAGE_BATCH_SIZE
  have node': "node' = node\<lparr>nd_message_queues := (nd_message_queues node)[thread_id := drop ?b ?q]\<rparr>"
    and acts: "acts = concat (map (invoke_callback node) (take ?b ?q))"
    using assms(2,5) by (auto simp: process_batch_def take_batch_def)
  note len = assms(1) [unfolded queues_ok_def]
  show "nd_message_queues node' = (nd_message_queues node)[thread_id := drop ?b ?q]"
    "nd_subscriptions node' = nd_subscriptions node" "nd_running node'" using assms(2) by (simp_all add: node')
  show "queues_ok env node'"
    using len assms(4) by (auto simp: queues_ok_def node' nth_list_update dest: in_set_dropD)
  have cb: "filter (is_callback_for grp topic) acts =
      map (MESSAGE_CALLBACK (si_callback info) grp topic) (map pm_payload (filter (is_message_for grp topic) (take ?b ?q)))"
    unfolding acts by (rule batch_callbacks [OF assms(3)])
  show "filter (is_callback_for grp topic) acts @ map (MESSAGE_CALLBACK (si_callback info) grp topic) (topic_queue env grp topic node') =
       map (MESSAGE_CALLBACK (si_callback info) grp topic) (topic_queue env grp topic node)"
  proof (cases "thread_id = routing_thread (ne_hash env) grp topic")
    case True
    have "topic_queue env grp topic node' = map pm_payload (filter (is_message_for grp topic) (drop ?b ?q))"
      using True len assms(4) by (simp add: topic_queue_def node')
    then show ?thesis
      unfolding cb using True by (simp add: topic_queue_def flip: map_append filter_append)
  next
    case False
    then have "filter (is_message_for grp topic) (take ?b ?q) = []"
      using len assms(4) by (auto simp: filter_empty_conv is_message_for_def dest!: in_set_takeD)
    then show ?thesis unfolding cb using False by (simp add: topic_queue_def node')
  qed
qed

lemma enqueue_topic:
  assumes "queues_ok env node" "room_for env (Suc n) node" "isSubscribed grp topic node"
    "enqueueMessage env source g t payload node = r"
  obtains node' where "r = Some (node', [])" "queues_ok env node'" "room_for env n node'"
    "nd_subscriptions node' = nd_subscriptions node" "nd_running node' = nd_running node"
    "topic_queue env grp topic node' = topic_queue env grp topic node @ (if g = grp \<and> t = topic then [payload] else [])"
proof -
  let ?node = "if isSubscribed g t node then put_message env source g t payload node else node"
  have len: "length (nd_message_queues node) = NUM_PROCESSING_THREADS" using assms(1) by (simp add: queues_ok_def)
  have "has_room env node" using assms(2) by (auto simp: has_room_def room_for_def)
  then have r: "r = Some (?node, [])" using enqueueMessage_room len assms(4) by metis
  let ?k = "routing_thread (ne_hash env) g t"
  have k: "?k < length (nd_message_queues node)" using routing_thread_bound len by simp
  have "queues_ok env ?node"
    using assms(1) k by (auto simp: queues_ok_def put_message_def Let_def nth_list_update)
  moreover have "room_for env n ?node"
    using assms(2) k by (auto simp: room_for_def put_message_def Let_def dest!: subsetD [OF set_update_subset_insert] intro: Suc_leD)
  moreover have "topic_queue env grp topic ?node = topic_queue env grp topic node @ (if g = grp \<and> t = topic then [payload] else [])"
    using assms(3) k
    by (cases "?k = routing_thread (ne_hash env) grp topic")
      (auto simp: topic_queue_def put_message_def Let_def is_message_for_def)
  moreover have "nd_subscriptions ?node = nd_subscriptions node" "nd_running ?node = nd_running node"
    by (simp_all add: put_message_def Let_def)
  ultimately show thesis using that r by blast
qed

fun messages_in :: "worker_event list \<Rightarrow> nat" where
  "messages_in [] = 0"
| "messages_in (EV_MESSAGE source g t payload # evs) = Suc (messages_in evs)"
| "messages_in (EV_BATCH k # evs) = messages_in evs"

definition threads_ok :: "worker_event list \<Rightarrow> bool" where
  "threads_ok evs \<longleftrightarrow> (\<forall>k. EV_BATCH k \<in> set evs \<longrightarrow> k < NUM_PROCESSING_THREADS)"

definition topic_callback :: "Node \<Rightarrow> string \<Rightarrow> string \<Rightarrow> bytes \<Rightarrow> action" where
  "topic_callback node grp topic payload =
     MESSAGE_CALLBACK (si_callback (the (om_lookup (nd_subscriptions node) grp))) grp topic payload"

lemma room_for_batch:
  "room_for env n node \<Longrightarrow> nd_message_queues node' = (nd_message_queues node)[k := drop j (nd_message_queues node ! k)] \<Longrightarrow>
   k < length (nd_message_queues node) \<Longrightarrow> room_for env n node'"
  by (simp add: room_for_def all_set_conv_all_nth nth_list_update) (meson add_le_mono1 diff_le_self le_trans)

lemma run_events_topic:
  assumes "queues_ok env node" "nd_running node" "isSubscribed grp topic node" "threads_ok evs" "room_for env (messages_in evs) node"
  shows "\<exists>node' acts. run_events env evs node = Some (node', acts) \<and> queues_ok env node' \<and> nd_running node' \<and>
    nd_subscriptions node' = nd_subscriptions node \<and> room_for env 0 node' \<and>
    filter (is_callback_for grp topic) acts @ map (topic_callback node grp topic) (topic_queue env grp topic node') =
      map (topic_callback node grp topic) (topic_queue env grp topic node @ topic_payloads grp topic evs)"
  using assms
proof (induction evs arbitrary: node)
  case (Cons ev evs)
  have tail: "threads_ok evs" using Cons.prems(4) by (simp add: threads_ok_def)
  obtain info where info: "om_lookup (nd_subscriptions node) grp = Some info"
    using Cons.prems(3) by (auto simp: isSubscribed_def split: option.splits)
  show ?case
  proof (cases ev)
    case (EV_MESSAGE source g t payload)
    then have "room_for env (Suc (messages_in evs)) node" using Cons.prems(5) by simp
    from enqueue_topic [OF Cons.prems(1) this Cons.prems(3) refl] obtain node1 where n1:
      "enqueueMessage env source g t payload node = Some (node1, [])" "queues_ok env node1" "room_for env (messages_in evs) node1"
      "nd_subscriptions node1 = nd_subscriptions node" "nd_running node1 = nd_running node"
      "topic_queue env grp topic node1 = topic_queue env grp topic node @ (if g = grp \<and> t = topic then [payload] else [])"
      by metis
    have "isSubscribed grp topic node1" using Cons.prems(3) n1(4) by (simp add: isSubscribed_def)
    from Cons.IH [OF n1(2) _ this tail n1(3)] Cons.prems(2) n1(5) obtain node' acts where
      "run_events env evs node1 = Some (node', acts)" "queues_ok env node'" "nd_running node'"
      "nd_subscriptions node' = nd_subscriptions node1" "room_for env 0 node'"
      "filter (is_callback_for grp topic) acts @ map (topic_callback node1 grp topic) (topic_queue env grp topic node') =
         map (topic_callback node1 grp topic) (topic_queue env grp topic node1 @ topic_payloads grp topic evs)"
      by auto
    moreover have "topic_callback node1 grp topic = topic_callback node grp topic"
      using n1(4) by (simp add: fun_eq_iff topic_callback_def)
    ultimately show ?thesis using n1 by (auto simp: EV_MESSAGE)
  next
    case (EV_BATCH k)
    then have k: "k < NUM_PROCESSING_THREADS" using Cons.prems(4) by (simp add: threads_ok_def)
    obtain node1 acts1 where b: "process_batch k node = (node1, acts1)" by fastforce
    note n1 = process_batch_topic [OF Cons.prems(1,2) info k b]
    have room: "room_for env (messages_in evs) node1"
      using room_for_batch [OF _ n1(4)] Cons.prems(1,5) k by (simp add: EV_BATCH queues_ok_def)
    have "isSubscribed grp topic node1" using Cons.prems(3) n1(2) by (simp add: isSubscribed_def)
    from Cons.IH [OF n1(1,3) this tail room] obtain node' acts where
      "run_events env evs node1 = Some (node', acts)" "queues_ok env node'" "nd_running node'"
      "nd_subscriptions node' = nd_subscriptions node1" "room_for env 0 node'"
      "filter (is_callback_for grp topic) acts @ map (topic_callback node1 grp topic) (topic_queue env grp topic node') =
         map (topic_callback node1 grp topic) (topic_queue env grp topic node1 @ topic_payloads grp topic evs)"
      by blast
    moreover have cb: "topic_callback node grp topic = MESSAGE_CALLBACK (si_callback info) grp topic"
      "topic_callback node1 grp topic = MESSAGE_CALLBACK (si_callback info) grp topic"
      using info n1(2) by (auto simp: topic_callback_def)
    ultimately show ?thesis using b n1(2) n1(5) [of topic] by (auto simp: EV_BATCH)
  qed
qed simp

lemma run_events_append:
  "run_events env (evs @ evs') node =
     (case run_events env evs node of
        None \<Rightarrow> None
      | Some (node1, acts1) \<Rightarrow> map_option (\<lambda>(node2, acts2). (node2, acts1 @ acts2)) (run_events env evs' node1))"
  by (induction evs arbitrary: node) (auto simp: option.map_comp comp_def option.map_ident case_prod_unfold split: option.split)

text \<open>Enough batches of one thread empty its queue.\<close>

lemma run_batches:
  assumes "nd_running node" "k < length (nd_message_queues node)"
  shows "\<exists>node' acts. run_events env (replicate n (EV_BATCH k)) node = Some (node', acts) \<and>
    nd_message_queues node' ! k = drop (n * MAX_MESSAGE_BATCH_SIZE) (nd_message_queues node ! k)"
  using assms
proof (induction n arbitrary: node)
  case (Suc n)
  obtain node1 acts1 where b: "process_batch k node = (node1, acts1)" by fastforce
  then have "nd_message_queues node1 = (nd_message_queues node)[k := drop MAX_MESSAGE_BATCH_SIZE (nd_message_queues node ! k)]"
    "nd_running node1" using Suc.prems(1) by (auto simp: process_batch_def take_batch_def)
  then show ?case using Suc.IH [of node1] Suc.prems(2) b by (auto simp: add.commute)
qed simp

lemma messages_in_batches: "messages_in (evs @ replicate n (EV_BATCH k)) = messages_in evs"
  by (induction evs rule: messages_in.induct) (induction n; simp)+

lemma topic_payloads_batches: "topic_payloads grp topic (evs @ replicate n (EV_BATCH k)) = topic_payloads grp topic evs"
  by (induction evs rule: messages_in.induct) (induction n; simp)+

lemma callbacks_in_order:
  assumes "queues_ok env node" "nd_running node" "isSubscribed grp topic node" "threads_ok evs"
    "room_for env (messages_in evs) node" "topic_queue env grp topic node = []"
    "ne_max_queue_size env \<le> n * MAX_MESSAGE_BATCH_SIZE"
  shows "\<exists>node' acts. run_events env (evs @ replicate n (EV_BATCH (routing_thread (ne_hash env) grp topic))) node = Some (node', acts) \<and>
    filter (is_callback_for grp topic) acts = map (topic_callback node grp topic) (topic_payloads grp topic evs)"
proof -
  let ?r = "routing_thread (ne_hash env) grp topic"
  let ?evs = "evs @ replicate n (EV_BATCH ?r)"
  have r: "?r < NUM_PROCESSING_THREADS" by (rule routing_thread_bound)
  from run_events_topic [OF assms(1-5)] obtain node1 acts1 where one: "run_events env evs node = Some (node1, acts1)"
    "queues_ok env node1" "nd_running node1" "room_for env 0 node1" by blast
  from run_batches [OF one(3), of ?r env n] r one(2) obtain node2 acts2 where two:
    "run_events env (replicate n (EV_BATCH ?r)) node1 = Some (node2, acts2)"
    "nd_message_queues node2 ! ?r = drop (n * MAX_MESSAGE_BATCH_SIZE) (nd_message_queues node1 ! ?r)"
    by (auto simp: queues_ok_def)
  have "length (nd_message_queues node1 ! ?r) \<le> ne_max_queue_size env"
    using one(2,4) r by (simp add: queues_ok_def room_for_def)
  then have "topic_queue env grp topic node2 = []" using two(2) assms(7) by (simp add: topic_queue_def)
  moreover have "run_events env ?evs node = Some (node2, acts1 @ acts2)"
    using one(1) two(1) by (simp add: run_events_append)
  moreover have "threads_ok ?evs" "room_for env (messages_in ?evs) node" "topic_payloads grp topic ?evs = topic_payloads grp topic evs"
    using assms(4,5) r messages_in_batches [of evs n ?r] topic_payloads_batches [of grp topic evs n ?r]
    by (auto simp: threads_ok_def)
  ultimately show ?thesis
    using run_events_topic [OF assms(1-3), of ?evs] assms(6) by fastforce
qed

subsection \<open>Overflow\<close>

text \<open>Enqueueing is defined: the limit is positive, and \<open>DROP_OLDEST\<close> has no overflow callback.\<close>

definition overflow_safe :: "node_env \<Rightarrow> Node \<Rightarrow> bool" where
  "overflow_safe env node \<longleftrightarrow>
     0 < ne_max_queue_size env \<and> (nd_overflow_policy node = POLICY_DROP_OLDEST \<longrightarrow> nd_overflow_callback node = None)"

text \<open>What every event keeps of a node.\<close>

definition same_setup :: "Node \<Rightarrow> Node \<Rightarrow> bool" where
  "same_setup node node' \<longleftrightarrow>
     nd_node_id node' = nd_node_id node \<and> nd_subscriptions node' = nd_subscriptions node \<and> nd_running node' = nd_running node \<and>
     nd_overflow_policy node' = nd_overflow_policy node \<and> nd_overflow_callback node' = nd_overflow_callback node"

lemma same_setup_refl [simp]: "same_setup node node"
  by (simp add: same_setup_def)

lemma same_setupD:
  assumes "same_setup node node'"
  shows "isSubscribed g t node' = isSubscribed g t node" "topic_callback node' g t = topic_callback node g t"
    "overflow_safe env node' = overflow_safe env node" "nd_running node' = nd_running node"
    "same_setup node' node'' = same_setup node node''" "nd_node_id node' = nd_node_id node"
  using assms by (auto simp: same_setup_def isSubscribed_def topic_callback_def overflow_safe_def fun_eq_iff)

definition is_message_callback :: "action \<Rightarrow> bool" where
  "is_message_callback a = (case a of MESSAGE_CALLBACK f g t payload \<Rightarrow> True | _ \<Rightarrow> False)"

definition callbacks_made :: "action list \<Rightarrow> nat" where
  "callbacks_made acts = length (filter is_message_callback acts)"

definition total_queued :: "Node \<Rightarrow> nat" where
  "total_queued node = sum_list (map length (nd_message_queues node))"

text \<open>How many messages of a sequence of events the node wants.\<close>

fun wanted_messages :: "Node \<Rightarrow> worker_event list \<Rightarrow> nat" where
  "wanted_messages node [] = 0"
| "wanted_messages node (EV_MESSAGE source g t payload # evs) =
     (if isSubscribed g t node then 1 else 0) + wanted_messages node evs"
| "wanted_messages node (EV_BATCH k # evs) = wanted_messages node evs"

text \<open>Every waiting message belongs to a subscribed group.\<close>

definition queued_wanted :: "Node \<Rightarrow> bool" where
  "queued_wanted node \<longleftrightarrow> (\<forall>q \<in> set (nd_message_queues node). \<forall>m \<in> set q. om_lookup (nd_subscriptions node) (pm_group m) \<noteq> None)"

lemma subseq_set_mono: "subseq xs ys \<Longrightarrow> set xs \<subseteq> set ys"
  by (induction rule: list_emb.induct) auto

text \<open>What \<open>push_message\<close> does to a queue within its limit.\<close>

lemma push_message_cases:
  assumes "0 < cap" "policy = POLICY_DROP_OLDEST \<longrightarrow> \<not> cb" "length q \<le> cap"
  obtains args q' where "push_message cap policy cb m (q, d) = Some (args, q', d + word_of_nat (Suc (length q) - length q'))"
      "policy \<noteq> POLICY_BLOCK" "subseq q' (q @ [m])" "length q' \<le> cap"
  | q' where "push_message cap policy cb m (q, d) = Some (None, q', d)" "policy = POLICY_BLOCK" "subseq q' (q @ [m])" "length q' \<le> cap"
proof -
  have tl: "subseq (tl q @ [m]) (q @ [m])" by (cases q) auto
  show thesis
  proof (cases "length q < cap")
    case True
    then have p: "push_message cap policy cb m (q, d) = Some (None, q @ [m], d)" by (simp add: push_message_def)
    show ?thesis
    proof (cases "policy = POLICY_BLOCK")
      case True
      show ?thesis by (rule that(2) [OF p True]) (use \<open>length q < cap\<close> in simp_all)
    next
      case False
      show ?thesis by (rule that(1) [of None "q @ [m]"]) (use p False \<open>length q < cap\<close> in simp_all)
    qed
  next
    case False
    then have full: "length q = cap" "q \<noteq> []" using assms by auto
    show ?thesis
    proof (cases policy)
      case POLICY_DROP_OLDEST
      show ?thesis by (rule that(1) [of None "tl q @ [m]"])
        (use full assms tl POLICY_DROP_OLDEST in \<open>auto simp: push_message_def Suc_diff_le\<close>)
    next
      case POLICY_DROP_NEWEST
      show ?thesis by (rule that(1) [of "if cb then Some (pm_group m, pm_topic m, d + 1) else None" q])
        (use full POLICY_DROP_NEWEST in \<open>auto simp: push_message_def\<close>)
    next
      case POLICY_BLOCK
      show ?thesis by (rule that(2) [of "tl q @ [m]"]) (use full assms tl POLICY_BLOCK in \<open>auto simp: push_message_def\<close>)
    qed
  qed
qed

lemma sum_length_update:
  "k < length qs \<Longrightarrow> sum_list (map length (qs[k := q])) + length (qs ! k) = sum_list (map length qs) + length q"
proof (induction qs arbitrary: k)
  case (Cons x qs)
  then show ?case by (cases k) auto
qed simp

text \<open>One arriving message, with or without overflow.\<close>

lemma enqueue_overflow:
  assumes "queues_ok env node" "room_for env 0 node" "overflow_safe env node"
  shows "\<exists>node' acts. enqueueMessage env source g t payload node = Some (node', acts) \<and> same_setup node node' \<and>
    queues_ok env node' \<and> room_for env 0 node' \<and> filter is_message_callback acts = [] \<and>
    subseq (topic_queue env grp topic node') (topic_queue env grp topic node @ (if g = grp \<and> t = topic then [payload] else [])) \<and>
    (queued_wanted node \<longrightarrow> queued_wanted node') \<and>
    (nd_overflow_policy node \<noteq> POLICY_BLOCK \<longrightarrow>
       nd_dropped_messages node' + word_of_nat (total_queued node') =
       nd_dropped_messages node + word_of_nat (total_queued node + (if isSubscribed g t node then 1 else 0)))"
proof (cases "isSubscribed g t node")
  case False
  then show ?thesis using assms by (auto simp: enqueueMessage_def)
next
  case True
  let ?k = "routing_thread (ne_hash env) g t" and ?cap = "ne_max_queue_size env" and ?qs = "nd_message_queues node"
  let ?m = "\<lparr>pm_source_node_id = source, pm_group = g, pm_topic = t, pm_payload = payload\<rparr>" and ?q = "nd_message_queues node ! routing_thread (ne_hash env) g t"
  have k: "?k < length ?qs" using assms(1) routing_thread_bound by (simp add: queues_ok_def)
  have bound: "length ?q \<le> ?cap" using assms(2) k by (simp add: room_for_def)
  have safe: "nd_overflow_policy node = POLICY_DROP_OLDEST \<longrightarrow> \<not> nd_overflow_callback node \<noteq> None" "0 < ?cap"
    using assms(3) by (auto simp: overflow_safe_def)
  obtain args q' d' where p: "push_message ?cap (nd_overflow_policy node) (nd_overflow_callback node \<noteq> None) ?m (?q, nd_dropped_messages node) = Some (args, q', d')"
    and q': "subseq q' (?q @ [?m])" "length q' \<le> ?cap"
    and d': "nd_overflow_policy node \<noteq> POLICY_BLOCK \<longrightarrow> d' = nd_dropped_messages node + word_of_nat (Suc (length ?q) - length q')"
    by (rule push_message_cases [OF safe(2,1) bound]) blast+
  let ?node = "node\<lparr>nd_message_queues := ?qs[?k := q'], nd_dropped_messages := d'\<rparr>"
  let ?acts = "case (args, nd_overflow_callback node) of (Some (g, t, n), Some f) \<Rightarrow> [OVERFLOW_CALLBACK f g t n] | _ \<Rightarrow> []"
  have e: "enqueueMessage env source g t payload node = Some (?node, ?acts)"
    by (simp only: enqueueMessage_def Let_def True p not_True_eq_False if_False option.case prod.case)
  have quiet: "filter is_message_callback ?acts = []" by (simp add: is_message_callback_def split: option.split prod.split)
  have mem: "set q' \<subseteq> insert ?m (set ?q)" using subseq_set_mono [OF q'(1)] by simp
  have "queues_ok env ?node" using assms(1) k mem by (auto simp: queues_ok_def nth_list_update)
  moreover have "room_for env 0 ?node"
    using assms(2) q'(2) by (auto simp: room_for_def dest!: subsetD [OF set_update_subset_insert])
  moreover have "subseq (topic_queue env grp topic ?node) (topic_queue env grp topic node @ (if g = grp \<and> t = topic then [payload] else []))"
  proof (cases "?k = routing_thread (ne_hash env) grp topic")
    case True
    have "subseq (map pm_payload (filter (is_message_for grp topic) q')) (map pm_payload (filter (is_message_for grp topic) (?q @ [?m])))"
      using q'(1) by (intro subseq_map subseq_filter)
    then show ?thesis using True k by (auto simp: topic_queue_def is_message_for_def)
  next
    case False
    then show ?thesis by (auto simp: topic_queue_def)
  qed
  moreover have "queued_wanted ?node" if "queued_wanted node"
  proof -
    have "\<forall>m \<in> set q'. om_lookup (nd_subscriptions node) (pm_group m) \<noteq> None"
      using mem that True nth_mem [OF k] by (auto simp: queued_wanted_def isSubscribed_def split: option.splits)
    then show ?thesis using that by (auto simp: queued_wanted_def dest!: subsetD [OF set_update_subset_insert])
  qed
  moreover have "nd_dropped_messages ?node + word_of_nat (total_queued ?node) = nd_dropped_messages node + word_of_nat (total_queued node + 1)"
    if "nd_overflow_policy node \<noteq> POLICY_BLOCK"
  proof -
    have "length q' \<le> Suc (length ?q)" using list_emb_length [OF q'(1)] by simp
    then have "Suc (length ?q) - length q' + total_queued ?node = total_queued node + 1"
      using sum_length_update [OF k, of q'] by (simp add: total_queued_def)
    then have "(word_of_nat (Suc (length ?q) - length q') :: u64) + word_of_nat (total_queued ?node) = word_of_nat (total_queued node + 1)"
      by (metis of_nat_add)
    then show ?thesis using d' that by (simp add: add.assoc)
  qed
  moreover have "same_setup node ?node" by (simp add: same_setup_def)
  ultimately show ?thesis using e quiet True by (intro exI [of _ ?node] exI [of _ ?acts]) simp
qed


lemma invoke_callback_count:
  "om_lookup (nd_subscriptions node) (pm_group m) \<noteq> None \<Longrightarrow> length (filter is_message_callback (invoke_callback node m)) = 1"
  by (auto simp: invoke_callback_def is_message_callback_def split: option.split)

lemma callbacks_made_batch:
  "\<forall>m \<in> set batch. om_lookup (nd_subscriptions node) (pm_group m) \<noteq> None \<Longrightarrow>
   callbacks_made (concat (map (invoke_callback node) batch)) = length batch"
  by (induction batch) (simp_all add: callbacks_made_def invoke_callback_count del: not_None_eq)

lemma callbacks_made_append [simp]: "callbacks_made (xs @ ys) = callbacks_made xs + callbacks_made ys"
  by (simp add: callbacks_made_def)

text \<open>One batch.\<close>

lemma batch_overflow:
  assumes "queues_ok env node" "room_for env 0 node" "nd_running node" "isSubscribed grp topic node" "k < NUM_PROCESSING_THREADS"
    "process_batch k node = (node', acts)"
  shows "same_setup node node' \<and> queues_ok env node' \<and> room_for env 0 node' \<and>
    (\<exists>batch. filter (is_callback_for grp topic) acts = map (topic_callback node grp topic) batch \<and>
       topic_queue env grp topic node = batch @ topic_queue env grp topic node') \<and>
    (queued_wanted node \<longrightarrow> queued_wanted node') \<and> nd_dropped_messages node' = nd_dropped_messages node \<and>
    (queued_wanted node \<longrightarrow> total_queued node = callbacks_made acts + total_queued node')"
proof -
  let ?q = "nd_message_queues node ! k" and ?b = MAX_MESSAGE_BATCH_SIZE
  have node': "node' = node\<lparr>nd_message_queues := (nd_message_queues node)[k := drop ?b ?q]\<rparr>"
    and acts: "acts = concat (map (invoke_callback node) (take ?b ?q))"
    using assms(3,6) by (auto simp: process_batch_def take_batch_def)
  have k: "k < length (nd_message_queues node)" using assms(1,5) by (simp add: queues_ok_def)
  obtain info where info: "om_lookup (nd_subscriptions node) grp = Some info"
    using assms(4) by (auto simp: isSubscribed_def split: option.splits)
  note pb = process_batch_topic [OF assms(1,3) info assms(5,6)]
  have cb: "topic_callback node grp topic = MESSAGE_CALLBACK (si_callback info) grp topic"
    using info by (simp add: topic_callback_def fun_eq_iff)
  have "\<exists>batch. filter (is_callback_for grp topic) acts = map (topic_callback node grp topic) batch \<and>
       topic_queue env grp topic node = batch @ topic_queue env grp topic node'"
  proof -
    have "map (MESSAGE_CALLBACK (si_callback info) grp topic) (topic_queue env grp topic node) =
        filter (is_callback_for grp topic) acts @ map (MESSAGE_CALLBACK (si_callback info) grp topic) (topic_queue env grp topic node')"
      using pb(5) [of topic] by simp
    then obtain xs ys where xy: "topic_queue env grp topic node = xs @ ys"
      "filter (is_callback_for grp topic) acts = map (MESSAGE_CALLBACK (si_callback info) grp topic) xs"
      "map (MESSAGE_CALLBACK (si_callback info) grp topic) (topic_queue env grp topic node') = map (MESSAGE_CALLBACK (si_callback info) grp topic) ys"
      by (auto simp: map_eq_append_conv)
    have "topic_queue env grp topic node' = ys" using xy(3) by (simp add: inj_def inj_map_eq_map)
    then show ?thesis using xy by (auto simp: cb)
  qed
  moreover have "queued_wanted node'" if "queued_wanted node"
    using that k by (auto simp: queued_wanted_def node' dest!: subsetD [OF set_update_subset_insert] in_set_dropD)
  moreover have "total_queued node = callbacks_made acts + total_queued node'" if "queued_wanted node"
  proof -
    have "\<forall>m \<in> set (take ?b ?q). om_lookup (nd_subscriptions node) (pm_group m) \<noteq> None"
      using that nth_mem [OF k] by (auto simp: queued_wanted_def dest: in_set_takeD)
    then have "callbacks_made acts = length (take ?b ?q)" unfolding acts by (rule callbacks_made_batch)
    then show ?thesis using sum_length_update [OF k, of "drop ?b ?q"] by (auto simp: total_queued_def node')
  qed
  moreover have "room_for env 0 node'" by (rule room_for_batch [OF assms(2) pb(4) k])
  ultimately show ?thesis using pb(1) by (simp add: same_setup_def node')
qed

text \<open>
  What a sequence of events does, with or without overflow: the callbacks of a topic and what is
  left of it in the queues, in this order, are a subsequence of what was waiting and what arrived; and
  unless the policy is \<open>BLOCK\<close>, every message that was wanted is delivered, waiting or counted as dropped.
\<close>

definition events_effect :: "node_env \<Rightarrow> string \<Rightarrow> string \<Rightarrow> worker_event list \<Rightarrow> Node \<Rightarrow> Node \<Rightarrow> action list \<Rightarrow> bool" where
  "events_effect env grp topic evs node node' acts \<longleftrightarrow>
     same_setup node node' \<and> queues_ok env node' \<and> room_for env 0 node' \<and>
     (\<exists>delivered. filter (is_callback_for grp topic) acts = map (topic_callback node grp topic) delivered \<and>
        subseq (delivered @ topic_queue env grp topic node') (topic_queue env grp topic node @ topic_payloads grp topic evs)) \<and>
     (queued_wanted node \<longrightarrow> queued_wanted node') \<and>
     (queued_wanted node \<longrightarrow> nd_overflow_policy node \<noteq> POLICY_BLOCK \<longrightarrow>
        nd_dropped_messages node' + word_of_nat (callbacks_made acts + total_queued node') =
        nd_dropped_messages node + word_of_nat (total_queued node + wanted_messages node evs))"

lemma event_overflow:
  assumes "queues_ok env node" "room_for env 0 node" "overflow_safe env node" "nd_running node" "isSubscribed grp topic node" "threads_ok [ev]"
  shows "\<exists>node' acts. run_event env ev node = Some (node', acts) \<and> events_effect env grp topic [ev] node node' acts"
proof (cases ev)
  case (EV_MESSAGE source g t payload)
  from enqueue_overflow [OF assms(1-3), of source g t payload grp topic] obtain node' acts where
    e: "enqueueMessage env source g t payload node = Some (node', acts)" "same_setup node node'" "queues_ok env node'" "room_for env 0 node'"
    "filter is_message_callback acts = []" "queued_wanted node \<longrightarrow> queued_wanted node'"
    "subseq (topic_queue env grp topic node') (topic_queue env grp topic node @ (if g = grp \<and> t = topic then [payload] else []))"
    "nd_overflow_policy node \<noteq> POLICY_BLOCK \<longrightarrow>
       nd_dropped_messages node' + word_of_nat (total_queued node') =
       nd_dropped_messages node + word_of_nat (total_queued node + (if isSubscribed g t node then 1 else 0))" by blast
  have quiet: "filter (is_callback_for grp topic) acts = []" "callbacks_made acts = 0"
    using e(5) by (auto simp: filter_empty_conv is_message_callback_def is_callback_for_def callbacks_made_def split: action.splits)
  have "events_effect env grp topic [ev] node node' acts"
    unfolding events_effect_def using e(2-4,6-8) quiet by (cases "g = grp \<and> t = topic") (auto simp: EV_MESSAGE)
  then show ?thesis using e(1) by (auto simp: EV_MESSAGE)
next
  case (EV_BATCH k)
  then have k: "k < NUM_PROCESSING_THREADS" using assms(6) by (simp add: threads_ok_def)
  obtain node' acts where b: "process_batch k node = (node', acts)" by fastforce
  have "events_effect env grp topic [ev] node node' acts"
    unfolding events_effect_def using batch_overflow [OF assms(1,2,4,5) k b] by (auto simp: EV_BATCH)
  then show ?thesis using b by (auto simp: EV_BATCH)
qed

lemma topic_payloads_Cons: "topic_payloads grp topic (ev # evs) = topic_payloads grp topic [ev] @ topic_payloads grp topic evs"
  by (cases ev) simp_all

lemma wanted_messages_Cons: "wanted_messages node (ev # evs) = wanted_messages node [ev] + wanted_messages node evs"
  by (cases ev) simp_all

lemma wanted_messages_same: "same_setup node node' \<Longrightarrow> wanted_messages node' evs = wanted_messages node evs"
  by (induction evs rule: messages_in.induct) (simp_all add: same_setupD)

lemma account_trans:
  fixes d :: u64
  assumes "d1 + (c1 + t1) = d + (t + w1)" "d' + (c2 + t') = d1 + (t1 + w2)"
  shows "d' + (c1 + c2 + t') = d + (t + (w1 + w2))"
proof -
  have "d' + (c1 + c2 + t') = c1 + (d1 + (t1 + w2))" by (simp add: assms(2) [symmetric] algebra_simps)
  also have "\<dots> = d1 + (c1 + t1) + w2" by (simp add: algebra_simps)
  also have "\<dots> = d + (t + (w1 + w2))" unfolding assms(1) by (simp add: algebra_simps)
  finally show ?thesis .
qed

lemma events_effect_Cons:
  assumes "events_effect env grp topic [ev] node node1 acts1" "events_effect env grp topic evs node1 node' acts2"
  shows "events_effect env grp topic (ev # evs) node node' (acts1 @ acts2)"
proof -
  have same: "same_setup node node1" using assms(1) by (simp add: events_effect_def)
  note sim = same_setupD [OF same] wanted_messages_same [OF same]
  obtain d1 d2 where d: "filter (is_callback_for grp topic) acts1 = map (topic_callback node grp topic) d1"
    "subseq (d1 @ topic_queue env grp topic node1) (topic_queue env grp topic node @ topic_payloads grp topic [ev])"
    "filter (is_callback_for grp topic) acts2 = map (topic_callback node grp topic) d2"
    "subseq (d2 @ topic_queue env grp topic node') (topic_queue env grp topic node1 @ topic_payloads grp topic evs)"
    using assms by (auto simp: events_effect_def sim)
  have "subseq (d1 @ d2 @ topic_queue env grp topic node') (d1 @ topic_queue env grp topic node1 @ topic_payloads grp topic evs)"
    using list_emb_append_mono [OF subseq_order.order_refl [of d1] d(4)] by simp
  also have "subseq \<dots> ((topic_queue env grp topic node @ topic_payloads grp topic [ev]) @ topic_payloads grp topic evs)"
    using list_emb_append_mono [OF d(2) subseq_order.order_refl [of "topic_payloads grp topic evs"]] by simp
  finally have "subseq ((d1 @ d2) @ topic_queue env grp topic node') (topic_queue env grp topic node @ topic_payloads grp topic (ev # evs))"
    by (subst topic_payloads_Cons) simp
  moreover have "nd_dropped_messages node' + word_of_nat (callbacks_made (acts1 @ acts2) + total_queued node') =
        nd_dropped_messages node + word_of_nat (total_queued node + wanted_messages node (ev # evs))"
    if "queued_wanted node" "nd_overflow_policy node \<noteq> POLICY_BLOCK"
  proof -
    have "nd_overflow_policy node1 \<noteq> POLICY_BLOCK" using that same by (simp add: same_setup_def)
    then have "nd_dropped_messages node1 + word_of_nat (callbacks_made acts1 + total_queued node1) =
        nd_dropped_messages node + word_of_nat (total_queued node + wanted_messages node [ev])"
      "nd_dropped_messages node' + word_of_nat (callbacks_made acts2 + total_queued node') =
        nd_dropped_messages node1 + word_of_nat (total_queued node1 + wanted_messages node evs)"
      using assms that unfolding events_effect_def sim by blast+
    then show ?thesis unfolding wanted_messages_Cons [of node ev evs] of_nat_add callbacks_made_append by (rule account_trans)
  qed
  moreover have "queued_wanted node \<longrightarrow> queued_wanted node'" "same_setup node node'" "queues_ok env node'" "room_for env 0 node'"
    using assms unfolding events_effect_def sim by blast+
  ultimately show ?thesis
    unfolding events_effect_def using d(1,3) by (intro conjI exI [of _ "d1 @ d2"]) simp_all
qed

lemma run_events_overflow:
  assumes "queues_ok env node" "room_for env 0 node" "overflow_safe env node" "nd_running node" "isSubscribed grp topic node" "threads_ok evs"
  shows "\<exists>node' acts. run_events env evs node = Some (node', acts) \<and> events_effect env grp topic evs node node' acts"
  using assms
proof (induction evs arbitrary: node)
  case Nil
  then show ?case by (auto simp: events_effect_def callbacks_made_def)
next
  case (Cons ev evs)
  have th: "threads_ok [ev]" "threads_ok evs" using Cons.prems(6) by (auto simp: threads_ok_def)
  from event_overflow [OF Cons.prems(1-5) th(1)] obtain node1 acts1 where
    one: "run_event env ev node = Some (node1, acts1)" "events_effect env grp topic [ev] node node1 acts1" by blast
  then have n1: "queues_ok env node1" "room_for env 0 node1" "same_setup node node1" by (auto simp: events_effect_def)
  from Cons.IH [OF n1(1,2) _ _ _ th(2)] Cons.prems(3-5) same_setupD [OF n1(3)] obtain node' acts2 where
    "run_events env evs node1 = Some (node', acts2)" "events_effect env grp topic evs node1 node' acts2" by auto
  then show ?case using one events_effect_Cons by fastforce
qed


text \<open>Enough batches of the thread that the topic selects leave nothing of the topic behind.\<close>

lemma run_batches_topic:
  assumes "queues_ok env node" "room_for env 0 node" "nd_running node" "ne_max_queue_size env \<le> n * MAX_MESSAGE_BATCH_SIZE"
    "run_events env (replicate n (EV_BATCH (routing_thread (ne_hash env) grp topic))) node = Some (node', acts)"
  shows "topic_queue env grp topic node' = []"
proof -
  let ?r = "routing_thread (ne_hash env) grp topic"
  have r: "?r < length (nd_message_queues node)" using assms(1) routing_thread_bound by (simp add: queues_ok_def)
  then have "length (nd_message_queues node ! ?r) \<le> n * MAX_MESSAGE_BATCH_SIZE"
    using assms(2,4) nth_mem [OF r] unfolding room_for_def by (metis le_trans add_0_right)
  then show ?thesis using run_batches [OF assms(3) r, of env n] assms(5) by (auto simp: topic_queue_def)
qed

lemma topic_callback_inj: "map (topic_callback node grp topic) xs = map (topic_callback node grp topic) ys \<longleftrightarrow> xs = ys"
  by (rule inj_map_eq_map) (simp add: inj_def topic_callback_def)

lemma deliver_topic:
  assumes "queues_ok env node" "room_for env 0 node" "overflow_safe env node" "nd_running node" "isSubscribed grp topic node" "threads_ok evs"
    "topic_queue env grp topic node = []" "ne_max_queue_size env \<le> n * MAX_MESSAGE_BATCH_SIZE"
  shows "\<exists>node' acts delivered.
    run_events env (evs @ replicate n (EV_BATCH (routing_thread (ne_hash env) grp topic))) node = Some (node', acts) \<and>
    filter (is_callback_for grp topic) acts = map (topic_callback node grp topic) delivered \<and>
    subseq delivered (topic_payloads grp topic evs) \<and>
    (room_for env (messages_in evs) node \<longrightarrow> delivered = topic_payloads grp topic evs) \<and>
    (queued_wanted node \<longrightarrow> nd_overflow_policy node \<noteq> POLICY_BLOCK \<longrightarrow>
       nd_dropped_messages node' + word_of_nat (callbacks_made acts + total_queued node') =
       nd_dropped_messages node + word_of_nat (total_queued node + wanted_messages node evs))"
proof -
  let ?r = "routing_thread (ne_hash env) grp topic" let ?evs = "evs @ replicate n (EV_BATCH ?r)"
  have th: "threads_ok ?evs" using assms(6) routing_thread_bound by (auto simp: threads_ok_def)
  from run_events_overflow [OF assms(1-5) assms(6)] obtain node1 acts1 where one: "run_events env evs node = Some (node1, acts1)"
    "queues_ok env node1" "room_for env 0 node1" "same_setup node node1" by (auto simp: events_effect_def)
  from run_events_overflow [OF assms(1-5) th] obtain node' acts where all: "run_events env ?evs node = Some (node', acts)"
    "events_effect env grp topic ?evs node node' acts" by blast
  then obtain acts2 where two: "run_events env (replicate n (EV_BATCH ?r)) node1 = Some (node', acts2)"
    using one(1) by (auto simp: run_events_append)
  have left: "topic_queue env grp topic node' = []"
    using run_batches_topic [OF one(2,3) _ assms(8) two] assms(4) same_setupD(4) [OF one(4)] by simp
  have pls: "topic_payloads grp topic ?evs = topic_payloads grp topic evs" by (rule topic_payloads_batches)
  have wanted: "wanted_messages node ?evs = wanted_messages node evs"
    by (induction evs rule: messages_in.induct) (induction n; simp)+
  obtain delivered where d: "filter (is_callback_for grp topic) acts = map (topic_callback node grp topic) delivered"
    "subseq delivered (topic_payloads grp topic evs)"
    using all(2) left assms(7) pls by (auto simp: events_effect_def)
  have "delivered = topic_payloads grp topic evs" if "room_for env (messages_in evs) node"
    using callbacks_in_order [OF assms(1,4,5,6) that assms(7,8)] all(1) d(1) topic_callback_inj by auto
  then show ?thesis using all d wanted unfolding events_effect_def by metis
qed

subsection \<open>Properties\<close>

text \<open>C5: Messages of a topic reach the callback in the order of their arrival, for any sequence of arriving
  messages (of any topics) and batches of any threads, followed by enough batches of the thread that
  the topic selects, and whatever the overflow policy does (where enqueueing is defined): the callback
  of the group has been called with a subsequence of the payloads that arrived for the topic, so none
  twice, none changed and none out of order; if every queue has room for all arriving messages, with
  all of them.  If only messages of subscribed groups were waiting before and the policy is not
  \<open>BLOCK\<close>, every wanted message has been delivered, is still waiting or was counted as dropped.\<close>

theorem topic_order:
  assumes "queues_ok env node" "room_for env 0 node" "overflow_safe env node" "nd_running node" "isSubscribed grp topic node" "threads_ok evs"
    "topic_queue env grp topic node = []" "ne_max_queue_size env \<le> n * MAX_MESSAGE_BATCH_SIZE"
  shows "\<exists>node' acts delivered.
    run_events env (evs @ replicate n (EV_BATCH (routing_thread (ne_hash env) grp topic))) node = Some (node', acts) \<and>
    filter (is_callback_for grp topic) acts = map (topic_callback node grp topic) delivered \<and>
    subseq delivered (topic_payloads grp topic evs) \<and>
    (room_for env (messages_in evs) node \<longrightarrow> delivered = topic_payloads grp topic evs) \<and>
    (queued_wanted node \<longrightarrow> nd_overflow_policy node \<noteq> POLICY_BLOCK \<longrightarrow>
       nd_dropped_messages node' + word_of_nat (callbacks_made acts + total_queued node') =
       nd_dropped_messages node + word_of_nat (total_queued node + wanted_messages node evs))"
  using assms by (rule deliver_topic)

lemma example_subscriber_queues:
  "queues_ok example_node_env example_subscriber" "topic_queue example_node_env ''g'' ''t'' example_subscriber = []"
  by (simp_all add: example_subscriber_def NodeImpl_def example_node_env_def
      queues_ok_def topic_queue_def routing_thread_def NUM_PROCESSING_THREADS_def)

theorem topic_order_witness:
  "\<exists>node' acts. run_events example_node_env ([EV_MESSAGE ''a'' ''g'' ''t'' [1], EV_BATCH 2, EV_MESSAGE ''a'' ''g'' ''t'' [2]] @
      replicate 1 (EV_BATCH 0)) example_subscriber = Some (node', acts) \<and>
    filter (is_callback_for ''g'' ''t'') acts = [MESSAGE_CALLBACK 7 ''g'' ''t'' [1], MESSAGE_CALLBACK 7 ''g'' ''t'' [2]] \<and>
    nd_dropped_messages node' + word_of_nat (callbacks_made acts + total_queued node') = 2"
proof -
  let ?evs = "[EV_MESSAGE ''a'' ''g'' ''t'' [1], EV_BATCH 2, EV_MESSAGE ''a'' ''g'' ''t'' [2]]"
  have room: "room_for example_node_env (messages_in ?evs) example_subscriber" "room_for example_node_env 0 example_subscriber"
    by (simp_all add: room_for_def example_subscriber_def NodeImpl_def example_node_env_def)
  have threads: "threads_ok ?evs" by (auto simp: threads_ok_def NUM_PROCESSING_THREADS_def)
  have safe: "overflow_safe example_node_env example_subscriber"
    by (simp add: overflow_safe_def example_subscriber_def NodeImpl_def example_node_env_def)
  have cap: "ne_max_queue_size example_node_env \<le> 1 * MAX_MESSAGE_BATCH_SIZE"
    by (simp add: example_node_env_def MAX_MESSAGE_BATCH_SIZE_def)
  have route: "routing_thread (ne_hash example_node_env) ''g'' ''t'' = 0" by (simp add: routing_thread_def example_node_env_def)
  have cb: "topic_callback example_subscriber ''g'' ''t'' = MESSAGE_CALLBACK 7 ''g'' ''t''"
    by (simp add: fun_eq_iff topic_callback_def example_subscriber_def om_lookup_def)
  have empty: "queued_wanted example_subscriber" "total_queued example_subscriber = 0" "nd_dropped_messages example_subscriber = 0"
    "nd_overflow_policy example_subscriber \<noteq> POLICY_BLOCK"
    by (simp_all add: queued_wanted_def total_queued_def example_subscriber_def NodeImpl_def)
  have pls: "topic_payloads ''g'' ''t'' ?evs = [[1], [2]]" "wanted_messages example_subscriber ?evs = 2"
    using example_subscriber_facts(3) by simp_all
  from topic_order [OF example_subscriber_queues(1) room(2) safe example_subscriber_facts(2,3) threads example_subscriber_queues(2) cap]
  show ?thesis using room(1) empty unfolding route cb pls by (auto simp del: run_events.simps messages_in.simps)
qed

end
