(* ===== verification/Nexus_EndToEnd.thy ===== *)
theory Nexus_EndToEnd
  imports Nexus_Delivery "HOL-Library.Sublist"
begin

text \<open>
  The path of a message from \<open>publish\<close> in one process to the callback of a node in another: the actions
  of a publisher performed on \<open>SharedMemoryTransportV3\<close>, the receive loop that hands packets to
  \<open>processPacket\<close>, and the processing threads of the receiver, in any order of their steps.
\<close>

subsection \<open>Actions on the shared-memory transport\<close>

text \<open>
  A node reaches its transport through its actions; here they are performed.  The environment has,
  for each destination, what \<open>connectToNode\<close> meets, and the registry that a broadcast lists.  The
  result has the sends that the transport accepted.
\<close>

record shm_env =
  se_connect :: "string \<Rightarrow> connect_env"
  se_sys :: sys_env
  se_region :: RegistryRegion
  se_pid :: int

fun perform_action :: "shm_env \<Rightarrow> action \<Rightarrow> Transport \<times> segments \<Rightarrow> (string \<times> bytes) list \<times> (Transport \<times> segments)" where
  "perform_action env (SHM_SEND dest data) st =
     (case Transport_send (se_connect env dest) dest data st of (ok, st1, w) \<Rightarrow> (if ok then [(dest, data)] else [], st1))"
| "perform_action env (SHM_BROADCAST data) st =
     ([], snd (Transport_broadcast (se_sys env) (se_region env) (se_connect env) data st))"
| "perform_action env (SHM_DISCONNECT n) st = ([], disconnectFromNode (se_pid env) n st)"
| "perform_action env _ st = ([], st)"

fun perform_actions :: "shm_env \<Rightarrow> action list \<Rightarrow> Transport \<times> segments \<Rightarrow> (string \<times> bytes) list \<times> (Transport \<times> segments)" where
  "perform_actions env [] st = ([], st)"
| "perform_actions env (act # acts) st =
     (case perform_action env act st of (sent, st1) \<Rightarrow>
        case perform_actions env acts st1 of (sent', st2) \<Rightarrow> (sent @ sent', st2))"

text \<open>Actions that leave the shared-memory transport alone.\<close>

definition no_shm :: "action \<Rightarrow> bool" where
  "no_shm act = (case act of SHM_SEND d m \<Rightarrow> False | SHM_BROADCAST m \<Rightarrow> False | SHM_DISCONNECT n \<Rightarrow> False | _ \<Rightarrow> True)"

lemma perform_actions_append:
  "perform_actions env (xs @ ys) st =
     (case perform_actions env xs st of (sent, st1) \<Rightarrow>
        case perform_actions env ys st1 of (sent', st2) \<Rightarrow> (sent @ sent', st2))"
  by (induction xs arbitrary: st) (auto split: prod.splits)

lemma perform_actions_no_shm: "\<forall>act \<in> set acts. no_shm act \<Longrightarrow> perform_actions env acts st = ([], st)"
proof (induction acts)
  case (Cons act acts)
  then show ?case by (cases act) (simp_all add: no_shm_def)
qed simp

subsection \<open>The publisher\<close>

text \<open>
  The nodes that a publisher reaches by shared memory; the publisher's process is such that publishing
  is defined.
\<close>

definition shm_destinations :: "node_env \<Rightarrow> Node \<Rightarrow> string \<Rightarrow> string \<Rightarrow> Process \<Rightarrow> string list" where
  "shm_destinations env self grp topic p =
     map svc_node_id (filter (shm_target (nd_node_id self) (local_ids p) (ne_shm_nodes env) topic)
       (GlobalRegistry_findServices grp (pr_registry p)))"

definition publisher_ok :: "node_env \<Rightarrow> node_ref \<Rightarrow> Node \<Rightarrow> Process \<Rightarrow> bool" where
  "publisher_ok env me self p \<longleftrightarrow>
     process_ok p \<and> pr_nodes p me = Some self \<and> nd_running self \<and> nd_shm_ready self \<and>
     (\<forall>ref node. pr_nodes p ref = Some node \<longrightarrow> overflow_safe env node)"

lemma enqueueMessage_defined:
  assumes "overflow_safe env node"
  shows "\<exists>node' acts. enqueueMessage env source grp topic payload node = Some (node', acts) \<and>
    (\<forall>act \<in> set acts. no_shm act) \<and> overflow_safe env node'"
proof (cases "isSubscribed grp topic node")
  case True
  let ?m = "\<lparr>pm_source_node_id = source, pm_group = grp, pm_topic = topic, pm_payload = payload\<rparr>"
  let ?q = "nd_message_queues node ! routing_thread (ne_hash env) grp topic"
  have "push_message (ne_max_queue_size env) (nd_overflow_policy node) (nd_overflow_callback node \<noteq> None) ?m (?q, nd_dropped_messages node) \<noteq> None"
    using assms unfolding push_message_def overflow_safe_def by (cases "nd_overflow_policy node") auto
  then obtain args q' d' where p: "push_message (ne_max_queue_size env) (nd_overflow_policy node) (nd_overflow_callback node \<noteq> None) ?m (?q, nd_dropped_messages node) = Some (args, q', d')"
    by (metis not_None_eq prod_cases3)
  let ?node = "node\<lparr>nd_message_queues := (nd_message_queues node)[routing_thread (ne_hash env) grp topic := q'], nd_dropped_messages := d'\<rparr>"
  let ?acts = "case (args, nd_overflow_callback node) of (Some (g, t, n), Some f) \<Rightarrow> [OVERFLOW_CALLBACK f g t n] | _ \<Rightarrow> []"
  have "enqueueMessage env source grp topic payload node = Some (?node, ?acts)"
    by (simp only: enqueueMessage_def Let_def True p not_True_eq_False if_False option.case prod.case)
  moreover have "\<forall>act \<in> set ?acts. no_shm act"
    by (cases args; cases "nd_overflow_callback node") (auto simp: no_shm_def)
  moreover have "overflow_safe env ?node" using assms by (simp add: overflow_safe_def)
  ultimately show ?thesis by blast
qed (use assms in \<open>simp add: enqueueMessage_def\<close>)

lemma deliver_to_nodes_no_shm:
  "\<forall>e \<in> set nodes. overflow_safe env (snd e) \<Longrightarrow> deliver_to_nodes env source grp topic payload nodes p = Some (p', acts) \<Longrightarrow>
   \<forall>act \<in> set acts. no_shm act"
proof (induction nodes arbitrary: p acts)
  case (Cons e nodes)
  obtain node' acts1 where e: "enqueueMessage env source grp topic payload (snd e) = Some (node', acts1)" "\<forall>act \<in> set acts1. no_shm act"
    using enqueueMessage_defined Cons.prems(1) by (metis list.set_intros(1))
  then show ?case using Cons.IH [of "set_node (fst e) node' p"] Cons.prems by (cases e) (auto split: option.splits)
qed simp

lemma deliverInProcess_publisher:
  assumes "publisher_ok env me self p"
  shows "\<exists>p1 acts. deliverInProcess env me self grp topic payload p = Some (p1, acts) \<and> (\<forall>act \<in> set acts. no_shm act) \<and>
    publisher_ok env me self p1 \<and> pr_registry p1 = pr_registry (forget_dead p) \<and> (\<forall>ref. pr_nodes p1 ref = None \<longleftrightarrow> pr_nodes p ref = None)"
proof -
  note ok = assms [unfolded publisher_ok_def]
  have enq: "\<exists>node' acts. enqueueMessage env source grp topic payload node = Some (node', acts) \<and> overflow_safe env node' \<and> keeps_identity node node'"
    if "pr_nodes p ref = Some node" for ref node source
    using enqueueMessage_defined [of env node] that ok enqueueMessage_identity by metis
  have "deliverInProcess env me self grp topic payload p \<noteq> None"
    using deliverInProcess_exact(1) [of p env me self grp topic payload] ok enq by (metis not_None_eq)
  then obtain p1 acts where d: "deliverInProcess env me self grp topic payload p = Some (p1, acts)" by auto
  note ex = deliverInProcess_exact(2) [OF _ d]
  have reg: "pr_registry p1 = pr_registry (forget_dead p)" using ex ok by blast
  have nodes: "\<exists>node. pr_nodes p ref = Some node \<and> overflow_safe env node' \<and> keeps_identity node node'" if "pr_nodes p1 ref = Some node'" for ref node'
    using ex [of ref] ok that enq [of ref _ "nd_node_id self"] by (cases "pr_nodes p ref") (fastforce split: if_splits)+
  have none: "pr_nodes p1 ref = None \<longleftrightarrow> pr_nodes p ref = None" for ref
    using ex [of ref] ok enq [of ref _ "nd_node_id self"] by (cases "pr_nodes p ref") auto
  obtain others where o: "deliver_to_nodes env (nd_node_id self) grp topic payload others (snd (getAllNodes p)) = Some (p1, acts)"
    "set others \<subseteq> set (fst (getAllNodes p))"
    using d by (auto simp: deliverInProcess_def split: prod.splits)
  have "\<forall>e \<in> set others. overflow_safe env (snd e)"
    using o(2) ok getAllNodes_cases(3) [of p "fst (getAllNodes p)" "snd (getAllNodes p)"] by fastforce
  then have quiet: "\<forall>act \<in> set acts. no_shm act" using deliver_to_nodes_no_shm o(1) by blast
  have "process_ok (forget_dead p)" using ok process_ok_forget_dead by blast
  then have "process_ok p1"
  proof (rule process_ok_update_nodes [OF _ reg])
    fix ref node' assume "pr_nodes p1 ref = Some node'"
    then obtain node where "pr_nodes p ref = Some node" "keeps_identity node node'" using nodes by blast
    then show "\<exists>node. pr_nodes (forget_dead p) ref = Some node \<and> nd_node_id node' = nd_node_id node \<and>
        length (nd_message_queues node') = length (nd_message_queues node) \<and> om_wf (nd_subscriptions node')"
      using ok by (auto simp: keeps_identity_def process_ok_def)
  qed
  moreover have "pr_nodes p1 me = Some self" using ex [of me] ok by (simp add: receives_def)
  ultimately show ?thesis using d quiet reg none nodes ok unfolding publisher_ok_def by blast
qed

text \<open>
  A publish returns, and its actions on the shared-memory transport are one send to every
  destination.
\<close>

lemma publish_publisher:
  fixes payload :: string
  assumes "publisher_ok env me self p" "grp \<noteq> []" "topic \<noteq> []"
  defines "packet \<equiv> MessageBuilder_build_string (nd_node_id self) grp topic payload (getUdpPort self) DATA"
  shows "\<exists>p' acts1 acts2. publish env me grp topic payload p =
      Some (NO_ERROR, p', acts1 @ map (\<lambda>d. SHM_SEND d packet) (shm_destinations env self grp topic p) @ acts2) \<and>
    (\<forall>act \<in> set acts1 \<union> set acts2. no_shm act) \<and> publisher_ok env me self p' \<and>
    shm_destinations env self grp topic p' = shm_destinations env self grp topic p"
proof -
  note ok = assms(1) [unfolded publisher_ok_def]
  from deliverInProcess_publisher [OF assms(1), of grp topic "str_bytes payload"] obtain p1 acts1 where
    d: "deliverInProcess env me self grp topic (str_bytes payload) p = Some (p1, acts1)" "\<forall>act \<in> set acts1. no_shm act"
    "publisher_ok env me self p1" "pr_registry p1 = pr_registry (forget_dead p)" "\<forall>ref. pr_nodes p1 ref = None \<longleftrightarrow> pr_nodes p ref = None" by blast
  have loc: "local_ids p1 = local_ids p" using local_ids_cong d(4,5) by blast
  obtain p2 acts2 where i: "deliverInterProcess env self packet grp topic p1 = (p2, acts2)" by fastforce
  have p2: "p2 = p1 \<or> p2 = forget_dead p1" using deliverInterProcess_process [of env self packet grp topic p1] i by simp
  have "acts2 = remote_sends env self (local_ids p) topic packet (GlobalRegistry_findServices grp (pr_registry p))"
    using deliverInterProcess_sends [of p1 grp env self packet topic] i d(3,4) assms(2) by (simp add: publisher_ok_def loc)
  moreover define svcs where "svcs = (if udp_ready self
      then filter (udp_target (nd_node_id self) (local_ids p) topic) (GlobalRegistry_findServices grp (pr_registry p)) else [])"
  ultimately have a: "acts2 = map (\<lambda>d. SHM_SEND d packet) (shm_destinations env self grp topic p) @
      map (\<lambda>s. case the (parse_endpoint (svc_udp_address s)) of (ip, port) \<Rightarrow> UDP_SEND packet ip port) svcs"
    using ok by (simp add: remote_sends_def shm_destinations_def comp_def)
  have quiet: "\<forall>act \<in> set (map (\<lambda>s. case the (parse_endpoint (svc_udp_address s)) of (ip, port) \<Rightarrow> UDP_SEND packet ip port) svcs). no_shm act"
    by (auto simp: no_shm_def case_prod_unfold)
  have "local_ids (forget_dead p1) = local_ids p1" by (rule local_ids_cong) simp_all
  then have "publisher_ok env me self p2" "shm_destinations env self grp topic p2 = shm_destinations env self grp topic p"
    using p2 d(3,4) process_ok_forget_dead by (auto simp: publisher_ok_def shm_destinations_def loc)
  then show ?thesis
    using ok assms(2,3) d(1,2) i quiet unfolding a
    by (intro exI [of _ p2] exI [of _ acts1] exI) (auto simp: publish_def packet_def)
qed

lemma shm_destinations_distinct:
  assumes "process_ok p" "grp \<noteq> []" shows "distinct (shm_destinations env self grp topic p)"
proof -
  let ?svcs = "GlobalRegistry_findServices grp (pr_registry p)"
  have "registry_ok (pr_registry p)" using assms(1) by (simp add: process_ok_def)
  note reg = findServices_group [OF this assms(2)]
  have eq: "filter (shm_target (nd_node_id self) (local_ids p) (ne_shm_nodes env) topic) ?svcs =
      filter (\<lambda>s. svc_transport s = SHARED_MEMORY \<and> svc_node_id s \<in> set (ne_shm_nodes env)) (filter (wants_message (nd_node_id self) (local_ids p) topic) ?svcs)"
    by (simp add: shm_target_def [abs_def])
  show ?thesis
    unfolding shm_destinations_def eq by (rule distinct_map_filter [OF shm_targets_distinct [OF reg]])
qed

subsection \<open>Sending to all destinations\<close>

text \<open>The publisher is connected to a node whose segment is not \<open>a\<close>.\<close>

definition connected_elsewhere :: "Transport \<Rightarrow> nat \<Rightarrow> string \<Rightarrow> bool" where
  "connected_elsewhere tr a d \<longleftrightarrow>
     d \<noteq> tr_node_id tr \<and> (case connected_queue tr d of None \<Rightarrow> False | Some loc \<Rightarrow> fst loc \<noteq> a)"

definition same_connections :: "Transport \<Rightarrow> Transport \<Rightarrow> bool" where
  "same_connections tr tr' \<longleftrightarrow>
     tr_initialized tr' = tr_initialized tr \<and> tr_node_id tr' = tr_node_id tr \<and> connected_queue tr' = connected_queue tr"

lemma same_connections_refl: "same_connections tr tr"
  by (simp add: same_connections_def)

lemma same_connections_trans: "same_connections t1 t2 \<Longrightarrow> same_connections t2 t3 \<Longrightarrow> same_connections t1 t3"
  by (simp add: same_connections_def)

lemma connected_elsewhere_same: "same_connections tr tr' \<Longrightarrow> connected_elsewhere tr' a d = connected_elsewhere tr a d"
  by (simp add: same_connections_def connected_elsewhere_def)

lemma link_ok_unchanged:
  assumes "link_ok dest (a, i) sender content ((tr, segs), rs)" "same_connections tr tr'" "sg_objects segs' a = sg_objects segs a"
  shows "link_ok dest (a, i) sender content ((tr', segs'), rs)"
  using assms by (cases rs) (simp add: link_ok_def same_connections_def segment_rep_def)

lemma send_on_effect:
  assumes "send_on f (a', j) m (tr, segs) = (ok, (tr1, segs1), w)"
  shows "same_connections tr tr1" "a \<noteq> a' \<Longrightarrow> sg_objects segs1 a = sg_objects segs a"
proof -
  obtain q w' where "f (tcf_notify_mechanism (tr_config tr)) j m (ns_queues (sg_objects segs a') ! j) = (ok, q, w')"
    "tr1 = count_sent ok (length m) tr" "segs1 = set_object a' ((sg_objects segs a')\<lparr>ns_queues := (ns_queues (sg_objects segs a'))[j := q]\<rparr>) segs"
    using assms by (auto simp: send_on_def Let_def split: prod.splits)
  then show "same_connections tr tr1" "a \<noteq> a' \<Longrightarrow> sg_objects segs1 a = sg_objects segs a"
    by (auto simp: same_connections_def fun_eq_iff set_object_def)
qed

text \<open>The ring has space for a frame at its head or, behind padding, at its start.\<close>

definition ring_space :: "ring \<Rightarrow> bytes \<Rightarrow> bool" where
  "ring_space rb m \<longleftrightarrow> 0 < length m \<and> length m \<le> MAX_MSG_SIZE \<and>
     (if rb_head rb \<ge> rb_tail rb
      then rb_head rb + frame_size (length m) \<le> BUFFER_SIZE rb \<or> frame_size (length m) < rb_tail rb
      else rb_head rb + frame_size (length m) < rb_tail rb)"

definition queue_space :: "InboundQueue \<Rightarrow> bytes \<Rightarrow> bool" where
  "queue_space q m \<longleftrightarrow> ring_space (if isControlMessage m then iq_control_queue q else iq_data_queue q) m"

lemma Ring_tryWrite_space: "fst (Ring_tryWrite rb m) \<longleftrightarrow> ring_space rb m"
  by (auto simp: Ring_tryWrite_def ring_space_def Let_def)

lemma send_on_accepts:
  assumes "send_on send_fast (a, i) m (tr, segs) = (ok, st, w)"
  shows "ok \<longleftrightarrow> queue_space (ns_queues (sg_objects segs a) ! i) m"
proof -
  let ?q = "ns_queues (sg_objects segs a) ! i"
  have "ok = fst (send_fast (tcf_notify_mechanism (tr_config tr)) i m ?q)"
    using assms by (auto simp: send_on_def Let_def split: prod.splits)
  also have "\<dots> = fst (queue_write (isControlMessage m) m ?q)"
    by (simp add: send_fast_def Let_def case_prod_unfold)
  also have "\<dots> = queue_space ?q m"
    by (simp add: queue_write_def queue_space_def Let_def case_prod_unfold Ring_tryWrite_space)
  finally show ?thesis .
qed

lemma send_elsewhere:
  assumes "link_ok dest (a, i) sender content ((tr, segs), rs)" "connected_elsewhere tr a d"
    "Transport_send env d m (tr, segs) = (ok, (tr1, segs1), w)"
  shows "link_ok dest (a, i) sender content ((tr1, segs1), rs)" "same_connections tr tr1" "sg_objects segs1 a = sg_objects segs a"
proof -
  obtain a' j where c: "connected_queue tr d = Some (a', j)" "a' \<noteq> a" "d \<noteq> tr_node_id tr"
    using assms(2) by (auto simp: connected_elsewhere_def split: option.splits)
  have "tr_initialized tr" using assms(1) by (cases rs) (simp add: link_ok_def)
  then have "send_on send_fast (a', j) m (tr, segs) = (ok, (tr1, segs1), w)"
    using assms(3) Transport_send_connected [of tr d "(a', j)" env m segs] c by simp
  note e = send_on_effect [OF this]
  show "same_connections tr tr1" "sg_objects segs1 a = sg_objects segs a" using e c(2) by auto
  then show "link_ok dest (a, i) sender content ((tr1, segs1), rs)" by (rule link_ok_unchanged [OF assms(1)])
qed

lemma sends_elsewhere:
  assumes "link_ok dest (a, i) sender content ((tr, segs), rs)" "\<forall>d \<in> set ds. d \<noteq> dest \<and> connected_elsewhere tr a d"
    "perform_actions env (map (\<lambda>d. SHM_SEND d m) ds) (tr, segs) = (sent, (tr1, segs1))"
  shows "link_ok dest (a, i) sender content ((tr1, segs1), rs) \<and> same_connections tr tr1 \<and> sg_objects segs1 a = sg_objects segs a \<and>
    messages_from dest sent = []"
  using assms
proof (induction ds arbitrary: tr segs sent)
  case Nil
  then show ?case by (simp add: messages_from_def same_connections_refl)
next
  case (Cons d ds)
  obtain ok tr2 segs2 w where s: "Transport_send (se_connect env d) d m (tr, segs) = (ok, (tr2, segs2), w)" by (metis prod_cases3 surj_pair)
  obtain sent2 where r: "perform_actions env (map (\<lambda>d. SHM_SEND d m) ds) (tr2, segs2) = (sent2, (tr1, segs1))"
    "sent = (if ok then [(d, m)] else []) @ sent2"
    using Cons.prems(3) s by (auto split: prod.splits)
  note e = send_elsewhere [OF Cons.prems(1) _ s]
  have "\<forall>d \<in> set ds. d \<noteq> dest \<and> connected_elsewhere tr2 a d"
    using Cons.prems(2) connected_elsewhere_same [OF e(2)] by simp
  with Cons.IH [OF e(1) _ r(1)] show ?case
    using Cons.prems(2) e(2,3) same_connections_trans r(2) by (fastforce simp: messages_from_def)
qed

lemma sends_to_destinations:
  assumes "link_ok dest (a, i) sender content ((tr, segs), rs)" "distinct ds" "dest \<in> set ds"
    "\<forall>d \<in> set ds. d \<noteq> dest \<longrightarrow> connected_elsewhere tr a d" "queue_safe (ns_queues (sg_objects segs a) ! i) m"
    "perform_actions env (map (\<lambda>d. SHM_SEND d m) ds) (tr, segs) = (sent, (tr1, segs1))"
  shows "\<exists>ok. link_ok dest (a, i) sender (if ok then content[i := add_message m (content ! i)] else content) ((tr1, segs1), rs) \<and>
    messages_from dest sent = (if ok then [m] else []) \<and> same_connections tr tr1 \<and>
    (ok \<longleftrightarrow> queue_space (ns_queues (sg_objects segs a) ! i) m)"
proof -
  obtain xs ys where ds: "ds = xs @ dest # ys" using assms(3) by (meson split_list)
  obtain sent1 tr2 segs2 where one: "perform_actions env (map (\<lambda>d. SHM_SEND d m) xs) (tr, segs) = (sent1, (tr2, segs2))" by (metis prod_cases3)
  obtain ok tr3 segs3 w where two: "Transport_send (se_connect env dest) dest m (tr2, segs2) = (ok, (tr3, segs3), w)" by (metis prod_cases3 surj_pair)
  obtain sent3 where three: "perform_actions env (map (\<lambda>d. SHM_SEND d m) ys) (tr3, segs3) = (sent3, (tr1, segs1))"
    "sent = sent1 @ (if ok then [(dest, m)] else []) @ sent3"
    using assms(6) one two unfolding ds by (auto simp: perform_actions_append split: prod.splits)
  have before: "\<forall>d \<in> set xs. d \<noteq> dest \<and> connected_elsewhere tr a d" using assms(2,4) ds by auto
  have xs: "link_ok dest (a, i) sender content ((tr2, segs2), rs)" "same_connections tr tr2" "sg_objects segs2 a = sg_objects segs a" "messages_from dest sent1 = []"
    using sends_elsewhere [OF assms(1) before one] by auto
  let ?content = "if ok then content[i := add_message m (content ! i)] else content"
  have mid: "link_ok dest (a, i) sender ?content ((tr3, segs3), rs)"
    using link_send [OF xs(1) _ two] assms(5) xs(3) by simp
  have "connected_queue tr2 dest = Some (a, i)" "tr_initialized tr2" "dest \<noteq> tr_node_id tr2" using xs(1) by (cases rs; simp add: link_ok_def)+
  then have on: "send_on send_fast (a, i) m (tr2, segs2) = (ok, (tr3, segs3), w)" using two Transport_send_connected by metis
  have con: "same_connections tr tr3" using send_on_effect(1) [OF on] same_connections_trans xs(2) by blast
  have accept: "ok \<longleftrightarrow> queue_space (ns_queues (sg_objects segs a) ! i) m" using send_on_accepts [OF on] xs(3) by simp
  have after: "\<forall>d \<in> set ys. d \<noteq> dest \<and> connected_elsewhere tr a d" using assms(2,4) ds by auto
  have "\<forall>d \<in> set ys. d \<noteq> dest \<and> connected_elsewhere tr3 a d"
    using after connected_elsewhere_same [OF con] by simp
  from sends_elsewhere [OF mid this three(1)] show ?thesis
    using xs(4) con same_connections_trans three(2) accept by (intro exI [of _ ok]) (auto simp: messages_from_def)
qed

subsection \<open>Two processes\<close>

text \<open>The packets that the receive callback of a node gets, one after another.\<close>

fun receive_packets :: "node_env \<Rightarrow> bytes list \<Rightarrow> Node \<Rightarrow> (Node \<times> action list) option" where
  "receive_packets env [] node = Some (node, [])"
| "receive_packets env (m # ms) node =
     (case processPacket env m node of
        None \<Rightarrow> None
      | Some (node1, acts1) \<Rightarrow> map_option (\<lambda>(node2, acts2). (node2, acts1 @ acts2)) (receive_packets env ms node1))"

text \<open>
  A publishing process and a receiving node of another process, in any order of their steps: a call of
  \<open>publish\<close> with the actions it performs on the transport, an iteration of the receive loop that
  feeds all messages it finds to the node, and a batch of a processing thread.  The result of a step
  has the sends that the transport accepted and the actions of the receiving node.
\<close>

record world_env =
  we_publisher :: node_env
  we_me :: node_ref
  we_shm :: shm_env
  we_receiver :: node_env
  we_segment :: nat
  we_group :: string
  we_topic :: string

datatype world_event = WE_PUBLISH string | WE_PASS | WE_BATCH nat

type_synonym world_state = "Process \<times> link_state \<times> Node"

fun world_step :: "world_env \<Rightarrow> world_event \<Rightarrow> world_state \<Rightarrow> ((string \<times> bytes) list \<times> action list \<times> world_state) option" where
  "world_step env (WE_PUBLISH payload) (p, (ts, rs), node) =
     (case publish (we_publisher env) (we_me env) (we_group env) (we_topic env) payload p of
        None \<Rightarrow> None
      | Some (err, p1, acts) \<Rightarrow>
          (case perform_actions (we_shm env) acts ts of (sent, ts1) \<Rightarrow> Some (sent, [], (p1, (ts1, rs), node))))"
| "world_step env WE_PASS (p, ((tr, segs), (c, rtr)), node) =
     (case receive_iteration c rtr (sg_objects segs (we_segment env)) of (ms, wait, c1, rtr1, shm1) \<Rightarrow>
        map_option (\<lambda>(node1, acts). ([], acts, (p, ((tr, set_object (we_segment env) shm1 segs), (c1, rtr1)), node1)))
          (receive_packets (we_receiver env) (map snd ms) node))"
| "world_step env (WE_BATCH k) (p, ls, node) =
     (case process_batch k node of (node1, acts) \<Rightarrow> Some ([], acts, (p, ls, node1)))"

fun world_run :: "world_env \<Rightarrow> world_event list \<Rightarrow> world_state \<Rightarrow> ((string \<times> bytes) list \<times> action list \<times> world_state) option" where
  "world_run env [] st = Some ([], [], st)"
| "world_run env (ev # evs) st =
     (case world_step env ev st of
        None \<Rightarrow> None
      | Some (sent, acts, st1) \<Rightarrow> map_option (\<lambda>(sent', acts', st2). (sent @ sent', acts @ acts', st2)) (world_run env evs st1))"

definition data_packet :: "world_env \<Rightarrow> Node \<Rightarrow> string \<Rightarrow> bytes" where
  "data_packet env self payload =
     MessageBuilder_build_string (nd_node_id self) (we_group env) (we_topic env) payload (getUdpPort self) DATA"

text \<open>No publish wraps the ring while its write position is exactly at the end of the buffer.\<close>

definition step_safe :: "world_env \<Rightarrow> Node \<Rightarrow> nat \<Rightarrow> world_event \<Rightarrow> world_state \<Rightarrow> bool" where
  "step_safe env self i ev = (\<lambda>(p, ((tr, segs), rs), node).
     case ev of WE_PUBLISH payload \<Rightarrow> queue_safe (ns_queues (sg_objects segs (we_segment env)) ! i) (data_packet env self payload) | _ \<Rightarrow> True)"

fun world_safe :: "world_env \<Rightarrow> Node \<Rightarrow> nat \<Rightarrow> world_event list \<Rightarrow> world_state \<Rightarrow> bool" where
  "world_safe env self i [] st = True"
| "world_safe env self i (ev # evs) st =
     (step_safe env self i ev st \<and>
      (case world_step env ev st of None \<Rightarrow> True | Some (sent, acts, st1) \<Rightarrow> world_safe env self i evs st1))"

text \<open>Every publish finds space in the ring of the destination.\<close>

definition step_space :: "world_env \<Rightarrow> Node \<Rightarrow> nat \<Rightarrow> world_event \<Rightarrow> world_state \<Rightarrow> bool" where
  "step_space env self i ev = (\<lambda>(p, ((tr, segs), rs), node).
     case ev of WE_PUBLISH payload \<Rightarrow> queue_space (ns_queues (sg_objects segs (we_segment env)) ! i) (data_packet env self payload) | _ \<Rightarrow> True)"

fun world_space :: "world_env \<Rightarrow> Node \<Rightarrow> nat \<Rightarrow> world_event list \<Rightarrow> world_state \<Rightarrow> bool" where
  "world_space env self i [] st = True"
| "world_space env self i (ev # evs) st =
     (step_space env self i ev st \<and>
      (case world_step env ev st of None \<Rightarrow> True | Some (sent, acts, st1) \<Rightarrow> world_space env self i evs st1))"

text \<open>Events that can occur: payloads that fit into a packet, and the threads that exist.\<close>

definition event_ok :: "world_env \<Rightarrow> Node \<Rightarrow> world_event \<Rightarrow> bool" where
  "event_ok env self ev =
     (case ev of
        WE_PUBLISH payload \<Rightarrow> packet_fits (nd_node_id self) (we_group env) (we_topic env) (str_bytes payload)
      | WE_PASS \<Rightarrow> True
      | WE_BATCH k \<Rightarrow> k < NUM_PROCESSING_THREADS)"

fun published :: "world_event list \<Rightarrow> string list" where
  "published [] = []"
| "published (WE_PUBLISH payload # evs) = payload # published evs"
| "published (WE_PASS # evs) = published evs"
| "published (WE_BATCH k # evs) = published evs"

text \<open>
  \<open>world_ok env self dest i sender pls st\<close>: the publisher \<open>self\<close> is ready and \<open>dest\<close> is among its shared-memory
  destinations; it is connected to \<open>dest\<close> by queue \<open>i\<close> of the receiver's segment and to its other
  destinations by other segments; packets of the payloads \<open>pls\<close> are waiting in queue \<open>i\<close> and nothing in
  the other queues; the receiver is running, subscribed, within its limits, and its overflow handling
  is defined.
\<close>

definition only_waiting :: "nat \<Rightarrow> bytes list \<Rightarrow> (bytes list \<times> bytes list) list \<Rightarrow> bool" where
  "only_waiting i ms content \<longleftrightarrow> (\<forall>j < length content. content ! j = (if j = i then ([], ms) else ([], [])))"

definition receiver_ok :: "world_env \<Rightarrow> Node \<Rightarrow> bool" where
  "receiver_ok env node \<longleftrightarrow>
     queues_ok (we_receiver env) node \<and> room_for (we_receiver env) 0 node \<and> overflow_safe (we_receiver env) node \<and>
     nd_running node \<and> isSubscribed (we_group env) (we_topic env) node"

definition destinations_ok :: "world_env \<Rightarrow> Node \<Rightarrow> string \<Rightarrow> Process \<Rightarrow> Transport \<Rightarrow> bool" where
  "destinations_ok env self dest p tr \<longleftrightarrow>
     (let ds = shm_destinations (we_publisher env) self (we_group env) (we_topic env) p in
      dest \<in> set ds \<and> (\<forall>d \<in> set ds. d \<noteq> dest \<longrightarrow> connected_elsewhere tr (we_segment env) d))"

definition world_ok :: "world_env \<Rightarrow> Node \<Rightarrow> string \<Rightarrow> nat \<Rightarrow> string \<Rightarrow> string list \<Rightarrow> world_state \<Rightarrow> bool" where
  "world_ok env self dest i sender pls = (\<lambda>(p, ((tr, segs), rs), node).
     we_group env \<noteq> [] \<and> we_topic env \<noteq> [] \<and>
     publisher_ok (we_publisher env) (we_me env) self p \<and> destinations_ok env self dest p tr \<and>
     (\<exists>content. link_ok dest (we_segment env, i) sender content ((tr, segs), rs) \<and>
        only_waiting i (map (data_packet env self) pls) content) \<and>
     (\<forall>pl \<in> set pls. packet_fits (nd_node_id self) (we_group env) (we_topic env) (str_bytes pl)) \<and>
     nd_node_id node \<noteq> nd_node_id self \<and> receiver_ok env node)"

text \<open>
  The effect of a run: the receiving node went through some events \<open>nevs\<close>, whose messages together
  with what is waiting afterwards are what was waiting before and what was accepted, in order; with
  space in the ring everything was accepted.
\<close>

definition world_effect ::
    "world_env \<Rightarrow> Node \<Rightarrow> string \<Rightarrow> bool \<Rightarrow> string list \<Rightarrow> string list \<Rightarrow> Node \<Rightarrow> (string \<times> bytes) list \<Rightarrow> action list \<Rightarrow> string list \<Rightarrow> Node \<Rightarrow> bool" where
  "world_effect env self dest space pls pubs node sent acts pls' node' \<longleftrightarrow>
     (\<exists>nevs accepted.
        run_events (we_receiver env) nevs node = Some (node', acts) \<and> threads_ok nevs \<and>
        messages_in nevs = length (topic_payloads (we_group env) (we_topic env) nevs) \<and>
        topic_payloads (we_group env) (we_topic env) nevs @ map str_bytes pls' = map str_bytes (pls @ accepted) \<and>
        messages_from dest sent = map (data_packet env self) accepted \<and> subseq accepted pubs \<and> (space \<longrightarrow> accepted = pubs))"

lemma isControlMessage_build:
  "isControlMessage (MessageBuilder_build nid grp topic payload port t) \<longleftrightarrow> t \<noteq> DATA"
proof -
  let ?p = "MessageBuilder_packet nid grp topic payload port t"
  have "packet_bytes ?p ! 6 = MessageType_code t"
    by (simp add: packet_bytes_def built_packet(3) nth_append numeral_eq_Suc)
  moreover have "length (packet_bytes ?p) \<ge> 86" by (simp add: length_packet_bytes built_packet)
  moreover have "MessageType_code t \<noteq> 0 \<longleftrightarrow> t \<noteq> DATA" by (cases t) simp_all
  ultimately show ?thesis by (simp add: isControlMessage_def MessageBuilder_build_def)
qed

lemma receive_packets_data:
  assumes "nid \<noteq> nd_node_id node" "\<forall>pl \<in> set pls. packet_fits nid grp topic (str_bytes pl)"
  shows "receive_packets env (map (\<lambda>pl. MessageBuilder_build_string nid grp topic pl port DATA) pls) node =
    run_events env (map (\<lambda>pl. EV_MESSAGE nid grp topic (str_bytes pl)) pls) node"
  using assms
proof (induction pls arbitrary: node)
  case (Cons pl pls)
  have "processPacket env (MessageBuilder_build_string nid grp topic pl port DATA) node = enqueueMessage env nid grp topic (str_bytes pl) node"
    using Cons.prems by (simp add: MessageBuilder_build_string_def processPacket_built)
  then show ?case
    using Cons enqueueMessage_keeps(1) by (auto split: option.split)
qed simp

lemma receiver_run:
  assumes "receiver_ok env node" "threads_ok nevs"
  shows "\<exists>node' acts. run_events (we_receiver env) nevs node = Some (node', acts) \<and> receiver_ok env node' \<and> nd_node_id node' = nd_node_id node"
  using run_events_overflow [of "we_receiver env" node "we_group env" "we_topic env" nevs] assms same_setupD(1,3,4,6)
  by (fastforce simp: receiver_ok_def events_effect_def)

lemma world_publish:
  assumes "world_ok env self dest i sender pls (p, ls, node)" "event_ok env self (WE_PUBLISH pl)"
    "step_safe env self i (WE_PUBLISH pl) (p, ls, node)"
  shows "\<exists>sent p' ls' pls'. world_step env (WE_PUBLISH pl) (p, ls, node) = Some (sent, [], (p', ls', node)) \<and>
    world_ok env self dest i sender pls' (p', ls', node) \<and>
    world_effect env self dest (step_space env self i (WE_PUBLISH pl) (p, ls, node)) pls [pl] node sent [] pls' node"
proof -
  obtain tr segs rs where ls: "ls = ((tr, segs), rs)" by (metis surj_pair)
  let ?m = "data_packet env self pl" and ?ds = "shm_destinations (we_publisher env) self (we_group env) (we_topic env) p"
  note ok = assms(1) [unfolded world_ok_def ls prod.case]
  obtain content where content: "link_ok dest (we_segment env, i) sender content ((tr, segs), rs)"
    "only_waiting i (map (data_packet env self) pls) content" using ok by blast
  obtain p' acts1 acts2 where pub: "publish (we_publisher env) (we_me env) (we_group env) (we_topic env) pl p =
      Some (NO_ERROR, p', acts1 @ map (\<lambda>d. SHM_SEND d ?m) ?ds @ acts2)" "\<forall>act \<in> set acts1 \<union> set acts2. no_shm act"
    "publisher_ok (we_publisher env) (we_me env) self p'" "shm_destinations (we_publisher env) self (we_group env) (we_topic env) p' = ?ds"
    using publish_publisher [of "we_publisher env" "we_me env" self p "we_group env" "we_topic env" pl] ok unfolding data_packet_def by blast
  obtain sent tr1 segs1 where s: "perform_actions (we_shm env) (map (\<lambda>d. SHM_SEND d ?m) ?ds) (tr, segs) = (sent, (tr1, segs1))" by (metis prod_cases3)
  have all: "perform_actions (we_shm env) (acts1 @ map (\<lambda>d. SHM_SEND d ?m) ?ds @ acts2) (tr, segs) = (sent, (tr1, segs1))"
    using pub(2) s by (simp add: perform_actions_append perform_actions_no_shm)
  have "distinct ?ds" using ok shm_destinations_distinct by (auto simp: publisher_ok_def)
  moreover have "dest \<in> set ?ds" "\<forall>d \<in> set ?ds. d \<noteq> dest \<longrightarrow> connected_elsewhere tr (we_segment env) d"
    using ok by (auto simp: destinations_ok_def Let_def)
  moreover have "queue_safe (ns_queues (sg_objects segs (we_segment env)) ! i) ?m" using assms(3) by (simp add: step_safe_def ls)
  ultimately obtain acc where a: "link_ok dest (we_segment env, i) sender (if acc then content[i := add_message ?m (content ! i)] else content) ((tr1, segs1), rs)"
    "messages_from dest sent = (if acc then [?m] else [])" "same_connections tr tr1" "acc \<longleftrightarrow> queue_space (ns_queues (sg_objects segs (we_segment env)) ! i) ?m"
    using sends_to_destinations [OF content(1) _ _ _ _ s] by blast
  let ?pls = "if acc then pls @ [pl] else pls"
  have "\<not> isControlMessage ?m" by (simp add: data_packet_def MessageBuilder_build_string_def isControlMessage_build)
  then have "only_waiting i (map (data_packet env self) ?pls) (if acc then content[i := add_message ?m (content ! i)] else content)"
    using content(2) by (auto simp: only_waiting_def nth_list_update add_message_def)
  moreover have "destinations_ok env self dest p' tr1"
    using ok pub(4) connected_elsewhere_same [OF a(3)] by (simp add: destinations_ok_def Let_def)
  ultimately have "world_ok env self dest i sender ?pls (p', ((tr1, segs1), rs), node)"
    using ok pub(3) a(1) assms(2) by (auto simp: world_ok_def event_ok_def)
  moreover have "world_effect env self dest (step_space env self i (WE_PUBLISH pl) (p, ls, node)) pls [pl] node sent [] ?pls node"
    unfolding world_effect_def using a(2,4)
    by (intro exI [of _ "[]"] exI [of _ "if acc then [pl] else []"]) (simp add: threads_ok_def step_space_def ls)
  moreover have "world_step env (WE_PUBLISH pl) (p, ls, node) = Some (sent, [], (p', ((tr1, segs1), rs), node))"
    using pub(1) all by (simp add: ls)
  ultimately show ?thesis by blast
qed

lemma topic_messages:
  "topic_payloads grp topic (map (\<lambda>pl. EV_MESSAGE nid grp topic (str_bytes pl)) pls) = map str_bytes pls"
  "messages_in (map (\<lambda>pl. EV_MESSAGE nid grp topic (str_bytes pl)) pls) = length pls"
  by (induction pls) simp_all

lemma concat_map_only:
  "distinct xs \<Longrightarrow> i \<in> set xs \<Longrightarrow> \<forall>j \<in> set xs. j \<noteq> i \<longrightarrow> f j = [] \<Longrightarrow> concat (map f xs) = f i"
proof (induction xs)
  case (Cons x xs)
  show ?case
  proof (cases "x = i")
    case True
    then have "\<forall>j \<in> set xs. f j = []" using Cons.prems by auto
    then show ?thesis using True by simp
  qed (use Cons in auto)
qed simp

lemma world_pass:
  assumes "world_ok env self dest i sender pls (p, ls, node)"
  shows "\<exists>acts ls' node'. world_step env WE_PASS (p, ls, node) = Some ([], acts, (p, ls', node')) \<and>
    world_ok env self dest i sender (drop MAX_DATA_PER_QUEUE pls) (p, ls', node') \<and>
    world_effect env self dest True pls [] node [] acts (drop MAX_DATA_PER_QUEUE pls) node'"
proof -
  obtain tr segs c rtr where ls: "ls = ((tr, segs), (c, rtr))" by (metis surj_pair)
  let ?a = "we_segment env" let ?shm = "sg_objects segs (we_segment env)" let ?act = "active_queues (ns_queues ?shm)"
  note ok = assms [unfolded world_ok_def ls prod.case]
  obtain content where content: "link_ok dest (?a, i) sender content ((tr, segs), (c, rtr))"
    "only_waiting i (map (data_packet env self) pls) content" using ok by blast
  obtain ms wait c1 rtr1 shm1 where it: "receive_iteration c rtr ?shm = (ms, wait, c1, rtr1, shm1)" by (metis prod_cases5)
  note pass = link_pass [OF content(1) it]
  have l: "list_all2 queue_rep (ns_queues ?shm) content" "cache_ok c ?shm" "slots_ok ?shm" "i < unat (nh_num_queues (ns_header ?shm))"
    using content(1) by (auto simp: link_ok_def segment_rep_def)
  have act: "i \<in> set ?act" "distinct ?act" using slots_ok_active(1) [OF l(3,4)] active_queues_distinct by auto
  have "j < length content" if "j \<in> set ?act" for j using that l(1) by (simp add: active_queues_bound list_all2_lengthD)
  then have empty: "content ! j = ([], [])" if "j \<in> set ?act" "j \<noteq> i" for j using that content(2) by (simp add: only_waiting_def)
  have ci: "content ! i = ([], map (data_packet env self) pls)" using content(2) link_ok_bound [OF content(1)] by (simp add: only_waiting_def)
  have "fst (content ! j) = []" if "j \<in> set ?act" for j using empty ci that by (cases "j = i") simp_all
  then have none: "concat (map (\<lambda>j. from_sender (ns_queues ?shm ! j) (fst (content ! j))) ?act) = []"
    by (simp add: from_sender_def)
  have "concat (map (\<lambda>j. from_sender (ns_queues ?shm ! j) (take MAX_DATA_PER_QUEUE (snd (content ! j)))) ?act) =
      from_sender (ns_queues ?shm ! i) (take MAX_DATA_PER_QUEUE (snd (content ! i)))"
    by (rule concat_map_only [OF act(2,1)]) (auto simp: empty from_sender_def)
  then have ms: "map snd ms = map (data_packet env self) (take MAX_DATA_PER_QUEUE pls)"
    using receive_iteration_spec(1) [OF l(1,2) it] none by (simp add: ci from_sender_def comp_def take_map)
  have rest: "only_waiting i (map (data_packet env self) (drop MAX_DATA_PER_QUEUE pls)) (pass_rest ?act content)"
    using content(2) pass(2) ci by (auto simp: only_waiting_def pass_rest_def drop_map)
  let ?nevs = "map (\<lambda>pl. EV_MESSAGE (nd_node_id self) (we_group env) (we_topic env) (str_bytes pl)) (take MAX_DATA_PER_QUEUE pls)"
  have th: "threads_ok ?nevs" by (auto simp: threads_ok_def)
  obtain node' acts where r: "run_events (we_receiver env) ?nevs node = Some (node', acts)" "receiver_ok env node'" "nd_node_id node' = nd_node_id node"
    using receiver_run [OF _ th] ok by blast
  have "receive_packets (we_receiver env) (map snd ms) node = Some (node', acts)"
    unfolding ms data_packet_def using receive_packets_data [of "nd_node_id self" node "take MAX_DATA_PER_QUEUE pls"] ok r(1)
    by (fastforce dest: in_set_takeD)
  then have step: "world_step env WE_PASS (p, ls, node) = Some ([], acts, (p, ((tr, set_object ?a shm1 segs), (c1, rtr1)), node'))"
    by (simp add: ls it)
  have "world_ok env self dest i sender (drop MAX_DATA_PER_QUEUE pls) (p, ((tr, set_object ?a shm1 segs), (c1, rtr1)), node')"
    using ok pass(1) rest r(2,3) by (auto simp: world_ok_def dest: in_set_dropD)
  moreover have "world_effect env self dest True pls [] node [] acts (drop MAX_DATA_PER_QUEUE pls) node'"
    unfolding world_effect_def using r(1) th
    by (intro exI [of _ ?nevs] exI [of _ "[]"]) (simp add: topic_messages messages_from_def flip: map_append)
  ultimately show ?thesis using step by blast
qed

lemma world_batch:
  assumes "world_ok env self dest i sender pls (p, ls, node)" "event_ok env self (WE_BATCH k)"
  shows "\<exists>acts node'. world_step env (WE_BATCH k) (p, ls, node) = Some ([], acts, (p, ls, node')) \<and>
    world_ok env self dest i sender pls (p, ls, node') \<and> world_effect env self dest True pls [] node [] acts pls node'"
proof -
  have th: "threads_ok [EV_BATCH k]" using assms(2) by (simp add: event_ok_def threads_ok_def)
  have "receiver_ok env node" using assms(1) by (auto simp: world_ok_def)
  from receiver_run [OF this th] obtain node' acts where r: "run_events (we_receiver env) [EV_BATCH k] node = Some (node', acts)"
    "receiver_ok env node'" "nd_node_id node' = nd_node_id node" by blast
  have b: "process_batch k node = (node', acts)" using r(1) by (cases "process_batch k node") simp
  have "world_ok env self dest i sender pls (p, ls, node')" using assms(1) r(2,3) by (auto simp: world_ok_def split: prod.splits)
  moreover have "world_effect env self dest True pls [] node [] acts pls node'"
    unfolding world_effect_def using r(1) th by (intro exI [of _ "[EV_BATCH k]"] exI [of _ "[]"]) (simp add: messages_from_def)
  ultimately show ?thesis using b by simp
qed

subsection \<open>Runs of the two processes\<close>

lemma topic_payloads_append: "topic_payloads grp topic (xs @ ys) = topic_payloads grp topic xs @ topic_payloads grp topic ys"
  by (induction xs rule: messages_in.induct) auto

lemma messages_in_append: "messages_in (xs @ ys) = messages_in xs + messages_in ys"
  by (induction xs rule: messages_in.induct) auto

lemma world_effect_refl: "world_effect env self dest True pls [] node [] [] pls node"
  unfolding world_effect_def by (intro exI [of _ "[]"]) (simp add: threads_ok_def messages_from_def)

lemma world_effect_trans:
  assumes "world_effect env self dest s1 pls pubs node sent acts pls1 node1"
    "world_effect env self dest s2 pls1 pubs' node1 sent' acts' pls2 node2"
  shows "world_effect env self dest (s1 \<and> s2) pls (pubs @ pubs') node (sent @ sent') (acts @ acts') pls2 node2"
proof -
  from assms(1) obtain e1 a1 where one: "run_events (we_receiver env) e1 node = Some (node1, acts)" "threads_ok e1"
    "messages_in e1 = length (topic_payloads (we_group env) (we_topic env) e1)"
    "topic_payloads (we_group env) (we_topic env) e1 @ map str_bytes pls1 = map str_bytes (pls @ a1)"
    "messages_from dest sent = map (data_packet env self) a1" "subseq a1 pubs" "s1 \<longrightarrow> a1 = pubs" unfolding world_effect_def by blast
  from assms(2) obtain e2 a2 where two: "run_events (we_receiver env) e2 node1 = Some (node2, acts')" "threads_ok e2"
    "messages_in e2 = length (topic_payloads (we_group env) (we_topic env) e2)"
    "topic_payloads (we_group env) (we_topic env) e2 @ map str_bytes pls2 = map str_bytes (pls1 @ a2)"
    "messages_from dest sent' = map (data_packet env self) a2" "subseq a2 pubs'" "s2 \<longrightarrow> a2 = pubs'" unfolding world_effect_def by blast
  have "topic_payloads (we_group env) (we_topic env) (e1 @ e2) @ map str_bytes pls2 = map str_bytes (pls @ a1 @ a2)"
    using one(4) two(4) by (metis append_assoc map_append topic_payloads_append)
  moreover have "subseq (a1 @ a2) (pubs @ pubs')" using one(6) two(6) by (rule list_emb_append_mono)
  moreover have "threads_ok (e1 @ e2)" using one(2) two(2) by (auto simp: threads_ok_def)
  ultimately show ?thesis
    unfolding world_effect_def using one(1,3,5,7) two(1,3,5,7)
    by (intro exI [of _ "e1 @ e2"] exI [of _ "a1 @ a2"]) (simp add: run_events_append messages_in_append topic_payloads_append)
qed

lemma world_step_spec:
  assumes "world_ok env self dest i sender pls (p, ls, node)" "event_ok env self ev" "step_safe env self i ev (p, ls, node)"
  shows "\<exists>sent acts p' ls' node' pls'. world_step env ev (p, ls, node) = Some (sent, acts, (p', ls', node')) \<and>
    world_ok env self dest i sender pls' (p', ls', node') \<and>
    world_effect env self dest (step_space env self i ev (p, ls, node)) pls (published [ev]) node sent acts pls' node'"
proof (cases ev)
  case (WE_PUBLISH pl)
  have pub: "published [ev] = [pl]" by (simp add: WE_PUBLISH)
  from world_publish [OF assms(1) assms(2,3) [unfolded WE_PUBLISH]] show ?thesis unfolding pub unfolding WE_PUBLISH by blast
next
  case WE_PASS
  have none: "published [ev] = []" "step_space env self i ev (p, ls, node) = True" by (simp_all add: WE_PASS step_space_def split: prod.split)
  from world_pass [OF assms(1)] show ?thesis unfolding none unfolding WE_PASS by blast
next
  case (WE_BATCH k)
  have none: "published [ev] = []" "step_space env self i ev (p, ls, node) = True" by (simp_all add: WE_BATCH step_space_def split: prod.split)
  from world_batch [OF assms(1) assms(2) [unfolded WE_BATCH]] show ?thesis unfolding none unfolding WE_BATCH by blast
qed

lemma published_append: "published (xs @ ys) = published xs @ published ys"
  by (induction xs rule: published.induct) simp_all

lemma world_run_spec:
  assumes "world_ok env self dest i sender pls (p, ls, node)" "world_safe env self i evs (p, ls, node)" "\<forall>ev \<in> set evs. event_ok env self ev"
  shows "\<exists>sent acts p' ls' node' pls'. world_run env evs (p, ls, node) = Some (sent, acts, (p', ls', node')) \<and>
    world_ok env self dest i sender pls' (p', ls', node') \<and>
    world_effect env self dest (world_space env self i evs (p, ls, node)) pls (published evs) node sent acts pls' node'"
  using assms
proof (induction evs arbitrary: pls p ls node)
  case Nil
  then show ?case using world_effect_refl by fastforce
next
  case (Cons ev evs)
  have "event_ok env self ev" "step_safe env self i ev (p, ls, node)" using Cons.prems(2,3) by simp_all
  from world_step_spec [OF Cons.prems(1) this] obtain sent acts p1 ls1 node1 pls1 where
    one: "world_step env ev (p, ls, node) = Some (sent, acts, (p1, ls1, node1))" "world_ok env self dest i sender pls1 (p1, ls1, node1)"
    "world_effect env self dest (step_space env self i ev (p, ls, node)) pls (published [ev]) node sent acts pls1 node1" by blast
  have "world_safe env self i evs (p1, ls1, node1)" using Cons.prems(2) one(1) by simp
  from Cons.IH [OF one(2) this] Cons.prems(3) obtain sent' acts' p2 ls2 node2 pls2 where
    two: "world_run env evs (p1, ls1, node1) = Some (sent', acts', (p2, ls2, node2))" "world_ok env self dest i sender pls2 (p2, ls2, node2)"
    "world_effect env self dest (world_space env self i evs (p1, ls1, node1)) pls1 (published evs) node1 sent' acts' pls2 node2" by auto
  have "published [ev] @ published evs = published (ev # evs)" using published_append [of "[ev]" evs] by simp
  then have "world_effect env self dest (world_space env self i (ev # evs) (p, ls, node)) pls (published (ev # evs)) node
      (sent @ sent') (acts @ acts') pls2 node2"
    using world_effect_trans [OF one(3) two(3)] one(1) by simp
  then show ?case using one(1) two(1,2) by fastforce
qed

lemma world_run_append:
  "world_run env (evs @ evs') st =
     (case world_run env evs st of
        None \<Rightarrow> None
      | Some (sent, acts, st1) \<Rightarrow> map_option (\<lambda>(sent', acts', st2). (sent @ sent', acts @ acts', st2)) (world_run env evs' st1))"
  by (induction evs arbitrary: st) (auto simp: option.map_comp comp_def option.map_ident case_prod_unfold split: option.split)

lemma world_passes:
  assumes "world_ok env self dest i sender pls (p, ls, node)"
  shows "\<exists>acts ls' node'. world_run env (replicate k WE_PASS) (p, ls, node) = Some ([], acts, (p, ls', node')) \<and>
    world_ok env self dest i sender (drop (k * MAX_DATA_PER_QUEUE) pls) (p, ls', node') \<and>
    world_effect env self dest True pls [] node [] acts (drop (k * MAX_DATA_PER_QUEUE) pls) node'"
  using assms
proof (induction k arbitrary: pls ls node)
  case 0
  then show ?case using world_effect_refl by fastforce
next
  case (Suc k)
  from world_pass [OF Suc.prems] obtain acts ls1 node1 where one: "world_step env WE_PASS (p, ls, node) = Some ([], acts, (p, ls1, node1))"
    "world_ok env self dest i sender (drop MAX_DATA_PER_QUEUE pls) (p, ls1, node1)"
    "world_effect env self dest True pls [] node [] acts (drop MAX_DATA_PER_QUEUE pls) node1" by blast
  have d: "drop (k * MAX_DATA_PER_QUEUE) (drop MAX_DATA_PER_QUEUE pls) = drop (Suc k * MAX_DATA_PER_QUEUE) pls" by (simp add: add.commute)
  from Suc.IH [OF one(2)] obtain acts' ls2 node2 where
    two: "world_run env (replicate k WE_PASS) (p, ls1, node1) = Some ([], acts', (p, ls2, node2))"
    "world_ok env self dest i sender (drop (Suc k * MAX_DATA_PER_QUEUE) pls) (p, ls2, node2)"
    "world_effect env self dest True (drop MAX_DATA_PER_QUEUE pls) [] node1 [] acts' (drop (Suc k * MAX_DATA_PER_QUEUE) pls) node2"
    unfolding d by blast
  show ?case using one(1) two(1,2) world_effect_trans [OF one(3) two(3)] by auto
qed

lemma world_batches:
  assumes "run_events (we_receiver env) (replicate n (EV_BATCH k)) node = Some (node', acts)"
  shows "world_run env (replicate n (WE_BATCH k)) (p, ls, node) = Some ([], acts, (p, ls, node'))"
  using assms
proof (induction n arbitrary: node acts)
  case (Suc n)
  obtain node1 acts1 where b: "process_batch k node = (node1, acts1)" by fastforce
  then obtain acts2 where "run_events (we_receiver env) (replicate n (EV_BATCH k)) node1 = Some (node', acts2)" "acts = acts1 @ acts2"
    using Suc.prems by auto
  then show ?case using Suc.IH b by simp
qed simp

text \<open>Enough passes take every packet that the queue has accepted, and enough batches deliver what the node has queued.\<close>

lemma world_delivery:
  assumes "world_ok env self dest i sender [] (p, ls, node)" "world_safe env self i evs (p, ls, node)" "\<forall>ev \<in> set evs. event_ok env self ev"
    "length (published evs) \<le> k * MAX_DATA_PER_QUEUE" "ne_max_queue_size (we_receiver env) \<le> n * MAX_MESSAGE_BATCH_SIZE"
    "topic_queue (we_receiver env) (we_group env) (we_topic env) node = []"
  defines "r \<equiv> routing_thread (ne_hash (we_receiver env)) (we_group env) (we_topic env)"
  shows "\<exists>sent acts st' accepted delivered.
    world_run env (evs @ replicate k WE_PASS @ replicate n (WE_BATCH r)) (p, ls, node) = Some (sent, acts, st') \<and>
    messages_from dest sent = map (data_packet env self) accepted \<and> subseq accepted (published evs) \<and>
    (world_space env self i evs (p, ls, node) \<longrightarrow> accepted = published evs) \<and>
    filter (is_callback_for (we_group env) (we_topic env)) acts = map (topic_callback node (we_group env) (we_topic env)) delivered \<and>
    subseq delivered (map str_bytes accepted) \<and>
    (room_for (we_receiver env) (length accepted) node \<longrightarrow> delivered = map str_bytes accepted)"
proof -
  from world_run_spec [OF assms(1-3)] obtain sent acts1 p1 ls1 node1 pls1 where
    one: "world_run env evs (p, ls, node) = Some (sent, acts1, (p1, ls1, node1))" "world_ok env self dest i sender pls1 (p1, ls1, node1)"
    "world_effect env self dest (world_space env self i evs (p, ls, node)) [] (published evs) node sent acts1 pls1 node1" by blast
  from world_passes [OF one(2), of k] obtain acts2 ls2 node2 where
    two: "world_run env (replicate k WE_PASS) (p1, ls1, node1) = Some ([], acts2, (p1, ls2, node2))"
    "world_effect env self dest True pls1 [] node1 [] acts2 (drop (k * MAX_DATA_PER_QUEUE) pls1) node2" by blast
  from one(3) obtain a1 tps where "tps @ map str_bytes pls1 = map str_bytes a1" "subseq a1 (published evs)"
    by (auto simp: world_effect_def)
  then have "length pls1 \<le> length (published evs)"
    by (metis le_add2 le_trans length_append length_map list_emb_length)
  then have rest: "drop (k * MAX_DATA_PER_QUEUE) pls1 = []" using assms(4) by simp
  from world_effect_trans [OF one(3) two(2)] obtain nevs accepted where
    eff: "run_events (we_receiver env) nevs node = Some (node2, acts1 @ acts2)" "threads_ok nevs"
    "messages_in nevs = length (topic_payloads (we_group env) (we_topic env) nevs)"
    "topic_payloads (we_group env) (we_topic env) nevs = map str_bytes accepted"
    "messages_from dest sent = map (data_packet env self) accepted" "subseq accepted (published evs)"
    "world_space env self i evs (p, ls, node) \<longrightarrow> accepted = published evs"
    unfolding world_effect_def rest by auto
  have "receiver_ok env node" using assms(1) by (auto simp: world_ok_def)
  then obtain node' acts delivered where
    del: "run_events (we_receiver env) (nevs @ replicate n (EV_BATCH r)) node = Some (node', acts)"
    "filter (is_callback_for (we_group env) (we_topic env)) acts = map (topic_callback node (we_group env) (we_topic env)) delivered"
    "subseq delivered (topic_payloads (we_group env) (we_topic env) nevs)"
    "room_for (we_receiver env) (messages_in nevs) node \<longrightarrow> delivered = topic_payloads (we_group env) (we_topic env) nevs"
    using deliver_topic [OF _ _ _ _ _ eff(2) assms(6,5)] unfolding receiver_ok_def r_def by blast
  obtain acts3 where "run_events (we_receiver env) (replicate n (EV_BATCH r)) node2 = Some (node', acts3)" "acts = (acts1 @ acts2) @ acts3"
    using del(1) eff(1) by (auto simp: run_events_append)
  then have "world_run env (evs @ replicate k WE_PASS @ replicate n (WE_BATCH r)) (p, ls, node) = Some (sent, acts, (p1, ls2, node'))"
    using one(1) two(1) world_batches by (simp add: world_run_append)
  moreover have "messages_in nevs = length accepted" using eff(3,4) by simp
  ultimately show ?thesis using eff(5-7) del(2-4) unfolding eff(4) by metis
qed

subsection \<open>Examples\<close>

text \<open>A publisher of one process and a subscriber of another, connected by an empty queue.\<close>

definition example_publisher :: Node where
  "example_publisher = (NodeImpl 0 ''a'' False MODE_AUTO)\<lparr>nd_shm_ready := True\<rparr>"

definition example_publishing_process :: Process where
  "example_publishing_process = \<lparr>pr_registry = \<lparr>gr_nodes = [(''a'', 0)],
       gr_services = [(''g'', [ServiceDescriptor_default\<lparr>svc_node_id := ''b'', svc_group := ''g'', svc_topic := ''t'', svc_transport := SHARED_MEMORY\<rparr>])]\<rparr>,
     pr_nodes = [0 \<mapsto> example_publisher]\<rparr>"

definition example_world_env :: world_env where
  "example_world_env = \<lparr>we_publisher = example_node_env\<lparr>ne_shm_nodes := [''b'']\<rparr>, we_me = 0,
     we_shm = \<lparr>se_connect = \<lambda>_. example_connect_env, se_sys = example_env, se_region = created_region 7, se_pid = 7\<rparr>,
     we_receiver = example_node_env, we_segment = 0, we_group = ''g'', we_topic = ''t''\<rparr>"

definition example_world :: world_state where
  "example_world = (example_publishing_process, ((example_sender, example_segments), (receive_cache_init, Transport_init)), example_subscriber)"

lemma example_world_env_simps:
  "we_publisher example_world_env = example_node_env\<lparr>ne_shm_nodes := [''b'']\<rparr>" "we_me example_world_env = 0"
  "we_receiver example_world_env = example_node_env" "we_segment example_world_env = 0"
  "we_group example_world_env = ''g''" "we_topic example_world_env = ''t''"
  by (simp_all add: example_world_env_def)

lemma example_publisher_ok:
  "publisher_ok (we_publisher example_world_env) (we_me example_world_env) example_publisher example_publishing_process"
  by (auto simp: publisher_ok_def example_world_env_simps process_ok_def example_publishing_process_def example_publisher_def registry_ok_def om_wf_def
      group_ok_def NodeImpl_def overflow_safe_def example_node_env_def ServiceDescriptor_default_def)

lemma example_destinations:
  "shm_destinations (we_publisher example_world_env) example_publisher ''g'' ''t'' example_publishing_process = [''b'']"
  by (simp add: shm_destinations_def example_world_env_simps example_publishing_process_def GlobalRegistry_findServices_def om_lookup_def
      shm_target_def wants_message_def local_ids_def alive_def example_publisher_def NodeImpl_def example_node_env_def ServiceDescriptor_default_def)

lemma example_receiver_ok: "receiver_ok example_world_env example_subscriber"
  using example_subscriber_queues(1) example_subscriber_facts(2,3)
  by (simp add: receiver_ok_def example_world_env_simps room_for_def overflow_safe_def example_subscriber_def NodeImpl_def example_node_env_def)

lemma example_world_ok: "world_ok example_world_env example_publisher ''b'' 0 ''a'' [] example_world"
proof -
  have "only_waiting 0 [] (replicate 32 ([], []))" by (auto simp: only_waiting_def)
  moreover have "nd_node_id example_subscriber \<noteq> nd_node_id example_publisher"
    by (simp add: example_subscriber_facts(4) example_publisher_def NodeImpl_def)
  ultimately show ?thesis
    using example_publisher_ok example_destinations example_receiver_ok example_link_ok
    by (auto simp: world_ok_def example_world_def destinations_ok_def example_world_env_simps)
qed

lemma example_packet:
  "length (data_packet example_world_env example_publisher ''x'') = 91" "\<not> isControlMessage (data_packet example_world_env example_publisher ''x'')"
proof -
  show "length (data_packet example_world_env example_publisher ''x'') = 91"
    by (simp add: data_packet_def MessageBuilder_build_string_def MessageBuilder_build_def length_packet_bytes built_packet built_data_def
        example_world_env_simps mem_write_def len16_def)
  show "\<not> isControlMessage (data_packet example_world_env example_publisher ''x'')"
    by (simp add: data_packet_def MessageBuilder_build_string_def isControlMessage_build)
qed

lemma example_world_run:
  "world_safe example_world_env example_publisher 0 [WE_PUBLISH ''x'', WE_PASS] example_world"
  "world_space example_world_env example_publisher 0 [WE_PUBLISH ''x'', WE_PASS] example_world"
proof -
  let ?m = "data_packet example_world_env example_publisher ''x''"
  have q: "ns_queues (sg_objects example_segments 0) ! 0 = example_queue" by (simp add: example_segments_def example_node_shm_def)
  have ring: "iq_data_queue example_queue = LockFreeRingBuffer DATA_QUEUE_SIZE_BYTES" by (simp add: example_queue_def InboundQueue_init_def)
  have "queue_safe example_queue ?m" "queue_space example_queue ?m"
    by (simp_all add: queue_safe_def ring_safe_def queue_space_def ring_space_def example_packet ring LockFreeRingBuffer_def
        frame_size_eq MAX_MSG_SIZE_def DATA_QUEUE_SIZE_BYTES_def)
  then have "step_safe example_world_env example_publisher 0 (WE_PUBLISH ''x'') example_world"
    "step_space example_world_env example_publisher 0 (WE_PUBLISH ''x'') example_world"
    by (simp_all add: step_safe_def step_space_def example_world_def example_world_env_simps q)
  moreover have "step_safe env self i WE_PASS st" "step_space env self i WE_PASS st" for env self i st
    by (simp_all add: step_safe_def step_space_def split: prod.split)
  ultimately show "world_safe example_world_env example_publisher 0 [WE_PUBLISH ''x'', WE_PASS] example_world"
    "world_space example_world_env example_publisher 0 [WE_PUBLISH ''x'', WE_PASS] example_world"
    by (simp_all add: option.case_eq_if case_prod_unfold del: world_step.simps)
qed

end
