(* ===== verification/Spec2Isabelle.thy ===== *)
theory Spec2Isabelle
  imports Nexus_Config Nexus_Crc Nexus_EndToEnd
begin

text \<open>
  \<^bold>\<open>Verification of Nexus (Linux RPC node)\<close>

  Nexus is a C++ library for publish/subscribe between the threads of a process, between the processes
  of a host (shared memory) and between hosts (UDP).  Sources are named relative to \<open>src/\<close>.

  \<^bold>\<open>Parts and how they interact\<close>

  \<^item> A node (\<open>core/NodeImpl\<close>) is what an application uses.  It keeps subscriptions, queues and channels,
    and finds other nodes of its process through the process-wide \<open>GlobalRegistry\<close>.
  \<^item> A message becomes a packet (\<open>core/Message.h\<close>) that goes over \<open>SharedMemoryTransportV3\<close> or
    \<open>UdpTransport\<close>.  The shared-memory transport has one segment per receiving node with one inbound
    queue per sender, each made of two \<open>LockFreeRingBuffer\<close>s (control and data).
  \<^item> Processes find each other's segments in \<open>SharedMemoryRegistry\<close>, a table in shared memory under a
    robust process-shared mutex.
  \<^item> Large blocks go through a \<open>LargeDataChannel\<close>, a ring in its own shared-memory object with one
    writer and up to 16 readers; only a notification is published.
  \<^item> \<open>Config\<close> reads limits from the environment.

  \<^bold>\<open>Theories\<close>

  \<^item> \<open>Nexus_Prelude\<close>: machine integers and bytes in memory order, C strings in fixed fields, memory reads
    and writes, ordered maps for \<open>std::map\<close>, \<open>std::stoi\<close>, the outcomes of \<open>kill\<close> and of the mutex, and the
    interface \<open>dictionary\<close>, which the ordered maps meet.
  \<^item> \<open>Nexus_RingBuffer\<close> (\<open>transport/LockFreeQueue.h\<close>): the ring at byte level; it meets the
    contract \<open>fifo_queue\<close>, a locale of this theory.
  \<^item> \<open>Nexus_GlobalRegistry\<close> (\<open>registry/GlobalRegistry\<close>, service descriptors of \<open>core/Node.h\<close>): maps of
    nodes and services, the locale \<open>service_directory\<close> that the node relies on.
  \<^item> \<open>Nexus_ShmRegistry\<close> (\<open>registry/SharedMemoryRegistry\<close>): the region, its operations and its life from
    creation to removal; it refines a bounded map (locale \<open>node_directory\<close>).
  \<^item> \<open>Nexus_Message\<close> (\<open>core/Message.h\<close>): layout, builder, checksum, validity test.
  \<^item> \<open>Nexus_Config\<close> (\<open>core/Config\<close>): defaults, conversion and clamping of environment variables.
  \<^item> \<open>Nexus_Crc\<close>, \<open>Nexus_LargeData\<close> (\<open>transport/LargeDataChannel\<close>): table-driven CRC-32 against its
    bitwise definition; the channel with writer, readers, wrapping, clean-up of readers and orphans; it
    refines \<open>fifo_queue\<close> as long as no write wraps.
  \<^item> \<open>Nexus_Transport\<close> (\<open>transport/SharedMemoryTransportV3\<close>): segments as objects behind names, accessors,
    connections, sending with flow control, an iteration of the receive and heartbeat loops, life cycle.
  \<^item> \<open>Nexus_Udp\<close> (\<open>transport/UdpTransport\<close>, endpoints and port choice of \<open>core/NodeImpl.cpp\<close>).
  \<^item> \<open>Nexus_Queues\<close> (queues of \<open>core/NodeImpl\<close>): overflow policies; the locale \<open>keeps_newest\<close>.
  \<^item> \<open>Nexus_Services\<close> (service discovery of \<open>core/NodeImpl.cpp\<close>): announcement payload, choice of receivers,
    replies, removal of departed nodes.
  \<^item> \<open>Nexus_Node\<close> (\<open>core/NodeImpl\<close>): the record of a node and its operations on a process; what a node does
    to transports and callbacks is a list of actions in program order.  \<open>Nexus_NodeLife\<close>: construction,
    \<open>initialize\<close>, destructor, \<open>createNode\<close>, large data, clean-up election.
  \<^item> \<open>Nexus_Process\<close>: a process with its nodes as a transition system, its invariant, exact effects of
    \<open>publish\<close>, \<open>subscribe\<close>, \<open>unsubscribe\<close> and of destroying a node.  \<open>Nexus_Delivery\<close>: order of delivery
    under every interleaving of the threads of a node, with what an overflowing queue drops.
  \<^item> \<open>Nexus_EndToEnd\<close>: the actions of a publisher performed on the transport, and the steps of a publishing
    process and of a receiving node in another one, in any order.
  \<^item> This theory: delivery from \<open>publish\<close> in one process to the callback in another, and \<open>sendLargeData\<close>
    with the channel and the notification.

  \<^bold>\<open>How the code is modelled\<close>

  Objects are records, \<open>std::map\<close> and \<open>std::set\<close> are sorted lists, fixed-width integers are words; positions
  in rings, which the code keeps in 64 bits and never lets overflow in practice, are natural numbers.
  \<open>None\<close> as a result stands for undefined behaviour or a fault, error codes and \<open>false\<close> are values.
  Answers of the operating system (\<open>shm_open\<close>, \<open>mmap\<close>, \<open>kill\<close>, the robust mutex, sockets, clocks,
  \<open>std::hash\<close>) are arguments; nothing is assumed of them unless a theorem says so.  A thread is modelled
  by one step per iteration of its loop, and the interleaving of threads by sequences of steps; the
  retries of \<open>SharedMemoryRegistry::initialize\<close> (100) and \<open>connectToNode\<close> are bounded as in the code.
  The draining loop over a control queue has no bound in the code; the model's bound is the size of the
  ring in bytes, which no content can exceed (every frame takes at least 8 bytes).

  \<^bold>\<open>What is not modelled\<close>

  Atomic memory order inside one ring operation (operations of the single producer and the single
  consumer are interleaved as wholes); starting, sleeping and joining of threads; exceptions thrown by
  callbacks, which the code swallows; \<open>utils/Logger\<close>, which only prints; the QNX variants selected by the
  preprocessor.  What a node asks of its transports and channels is an action in its list; the operation
  behind it (\<open>Transport_send\<close>, \<open>Transport_destroy\<close>, \<open>UdpTransport_shutdown\<close>, \<open>LargeDataChannel_destroy\<close>)
  is a definition of its own component, and the two are composed here for publishing and for large data.
\<close>

subsection \<open>From a publisher to a subscriber of another process\<close>

text \<open>C1: End to end between two processes, for any order of calls of \<open>publish\<close> on one topic, iterations of the
  receive loop and batches of processing threads, followed by enough iterations and batches.  At the
  start the publisher is connected to \<open>dest\<close>, which is among the shared-memory destinations of the topic, and
  to its other destinations; nothing waits in the queues of the receiver's segment, only this publisher
  sends to it, the receiver runs, is subscribed and has nothing queued for the topic, and payloads
  fit into a packet.  Then the run is defined; the payloads whose packet the transport accepts for \<open>dest\<close>
  are a subsequence of the published ones, and all of them if the ring has space at every publish; the
  callback of the subscriber has been called with a subsequence of the accepted payloads, unchanged
  and in the order of publishing, and with exactly these if its queues have room for them (otherwise
  the overflow policy drops some).  Excluded by \<open>world_safe\<close> is a publish that wraps the ring while its write
  position is exactly at the end of the buffer, where the code loses messages (C35).\<close>

theorem publish_reaches_remote_callback:
  assumes "world_ok env self dest i sender [] (p, ls, node)" "world_safe env self i evs (p, ls, node)"
    "\<forall>ev \<in> set evs. event_ok env self ev" "length (published evs) \<le> k * MAX_DATA_PER_QUEUE"
    "ne_max_queue_size (we_receiver env) \<le> n * MAX_MESSAGE_BATCH_SIZE"
    "topic_queue (we_receiver env) (we_group env) (we_topic env) node = []"
  shows "\<exists>sent acts st' accepted delivered.
    world_run env (evs @ replicate k WE_PASS @
        replicate n (WE_BATCH (routing_thread (ne_hash (we_receiver env)) (we_group env) (we_topic env)))) (p, ls, node) =
      Some (sent, acts, st') \<and>
    messages_from dest sent = map (data_packet env self) accepted \<and> subseq accepted (published evs) \<and>
    (world_space env self i evs (p, ls, node) \<longrightarrow> accepted = published evs) \<and>
    filter (is_callback_for (we_group env) (we_topic env)) acts = map (topic_callback node (we_group env) (we_topic env)) delivered \<and>
    subseq delivered (map str_bytes accepted) \<and>
    (room_for (we_receiver env) (length accepted) node \<longrightarrow> delivered = map str_bytes accepted)"
  using assms by (rule world_delivery)

theorem publish_reaches_remote_callback_witness:
  "\<exists>sent acts st'. world_run example_world_env ([WE_PUBLISH ''x'', WE_PASS] @ replicate 1 WE_PASS @ replicate 1 (WE_BATCH 0)) example_world =
      Some (sent, acts, st') \<and>
    messages_from ''b'' sent = [data_packet example_world_env example_publisher ''x''] \<and>
    filter (is_callback_for ''g'' ''t'') acts = [MESSAGE_CALLBACK 7 ''g'' ''t'' (str_bytes ''x'')]"
proof -
  let ?evs = "[WE_PUBLISH ''x'', WE_PASS]" and ?env = example_world_env
  have ok: "\<forall>ev \<in> set ?evs. event_ok ?env example_publisher ev"
    by (simp add: event_ok_def packet_fits_def no_nul_def example_world_env_simps example_publisher_def NodeImpl_def)
  have k: "length (published ?evs) \<le> 1 * MAX_DATA_PER_QUEUE" by (simp add: MAX_DATA_PER_QUEUE_def)
  have n: "ne_max_queue_size (we_receiver ?env) \<le> 1 * MAX_MESSAGE_BATCH_SIZE"
    by (simp add: example_world_env_simps example_node_env_def MAX_MESSAGE_BATCH_SIZE_def)
  have empty: "topic_queue (we_receiver ?env) (we_group ?env) (we_topic ?env) example_subscriber = []"
    using example_subscriber_queues(2) by (simp add: example_world_env_simps)
  have cb: "topic_callback example_subscriber ''g'' ''t'' = MESSAGE_CALLBACK 7 ''g'' ''t''"
    by (simp add: fun_eq_iff topic_callback_def example_subscriber_def om_lookup_def)
  have route: "routing_thread (ne_hash example_node_env) ''g'' ''t'' = 0" by (simp add: routing_thread_def example_node_env_def)
  have room: "room_for example_node_env (length [''x'']) example_subscriber"
    by (simp add: room_for_def example_subscriber_def NodeImpl_def example_node_env_def)
  show ?thesis
    using publish_reaches_remote_callback [OF example_world_ok [unfolded example_world_def] example_world_run(1) [unfolded example_world_def] ok k n empty]
      example_world_run(2) room
    unfolding example_world_env_simps cb route example_world_def [symmetric] by fastforce
qed

subsection \<open>Large data\<close>

lemma notification_roundtrip:
  assumes "no_nul chn" "length chn < 32" "no_nul topic" "length topic < 64"
  shows "notification_of (notification_bytes seq n chn topic) =
    \<lparr>ln_sequence = seq, ln_size = word_of_nat n, ln_channel_name = chn, ln_topic = topic\<rparr>"
proof -
  have len: "length (cstr_field 32 chn) = 32" "length (cstr_field 64 topic) = 64" by simp_all
  let ?b = "notification_bytes seq n chn topic"
  have "mem_read ?b 0 8 = word_to_le 8 seq" "mem_read ?b 8 4 = word_to_le 4 (word_of_nat n :: u32)"
    "mem_read ?b 16 32 = cstr_field 32 chn" "mem_read ?b 48 64 = cstr_field 64 topic"
    using len by (simp_all add: notification_bytes_def mem_read_def)
  moreover have "cstr_read (cstr_field 32 chn) = chn" "cstr_read (cstr_field 64 topic) = topic"
    using assms cstr_read_field [of 32 chn] cstr_read_field [of 64 topic] by simp_all
  ultimately show ?thesis by (simp add: notification_of_def le_to_word_word_to_le take_bit_word_eq_self)
qed

text \<open>A write is accepted when \<open>canWrite\<close> held before: removing dead readers only makes more room.\<close>

lemma cleanup_min_read_pos:
  assumes "cleanupDeadReaders env lc c = (lc', c')"
  shows "getMinReadPos c \<le> getMinReadPos c'"
proof (rule getMinReadPos_ge)
  note keep = cleanupDeadReaders_keeps [OF assms]
  show "getMinReadPos c \<le> rc_write_pos c'" using getMinReadPos_le(1) [of c] keep(1) by simp
  show "getMinReadPos c \<le> rs_read_pos r" if r: "r \<in> set (rc_readers c')" "rs_active r" for r
  proof -
    obtain i where i: "i < length (rc_readers c)" "r = rc_readers c' ! i" using r(1) keep(4) by (auto simp: in_set_conv_nth)
    then have "r = rc_readers c ! i" using keep(5) [of i] r(2) by simp
    then show ?thesis using getMinReadPos_le(2) [of r c] i r(2) by simp
  qed
qed

lemma canWrite_accepted:
  assumes "LargeData_write env topic data (lc, ch, sh) = (res, lc', ch', sh')" "canWrite (128 + length data) sh"
    "length data \<le> ldc_max_block_size (ch_config ch)" "rc_sequence (ls_control sh) < 2 ^ 63"
  shows "res = sint (rc_sequence (ls_control sh))" "0 \<le> res"
proof -
  have space: "rc_write_pos (ls_control sh) - getMinReadPos (ls_control sh) + (128 + length data) \<le> rc_capacity (ls_control sh)"
    using assms(2) by (auto simp: canWrite_def getAvailableSpace_def Let_def split: if_splits)
  show "res = sint (rc_sequence (ls_control sh))"
    using assms(1)
  proof (cases rule: large_write_cases)
    case (full c)
    then show ?thesis
      using cleanup_min_read_pos [OF full(2)] cleanupDeadReaders_keeps(1,2) [OF full(2)] space by simp
  next
    case (written c off c1)
    then show ?thesis using cleanupDeadReaders_keeps(3) [OF written(1)] by simp
  qed (use assms(3) in simp)
  then show "0 \<le> res" using assms(4) by (simp add: sint_nonneg_64)
qed


text \<open>A channel write leaves the node as it was apart from its handle of the channel, so the notification is published
  as by the unchanged node.\<close>

lemma publish_with_channels:
  fixes grp topic payload :: string
  assumes "process_ok p" "pr_nodes p me = Some self" "nd_running self" "grp \<noteq> []" "topic \<noteq> []"
    "\<forall>ref node. receives p me ref \<longrightarrow> pr_nodes p ref = Some node \<longrightarrow> has_room env node"
  defines "packet \<equiv> MessageBuilder_build_string (nd_node_id self) grp topic payload (getUdpPort self) DATA"
  shows "\<exists>p'. publish env me grp topic payload (set_node me (self\<lparr>nd_large_channels := chs\<rparr>) p) =
      Some (NO_ERROR, p', remote_sends env self (local_ids p) topic packet (GlobalRegistry_findServices grp (pr_registry p))) \<and>
    process_ok p' \<and> pr_nodes p' me = Some (self\<lparr>nd_large_channels := chs\<rparr>) \<and>
    (\<forall>ref. ref \<noteq> me \<longrightarrow> pr_nodes p' ref = map_option (\<lambda>node.
        if receives p me ref \<and> isSubscribed grp topic node
        then put_message env (nd_node_id self) grp topic (str_bytes payload) node else node) (pr_nodes p ref))"
proof -
  let ?self = "self\<lparr>nd_large_channels := chs\<rparr>" let ?p = "set_node me ?self p"
  have ok: "process_ok ?p" using assms(1,2) by (intro process_ok_set_node [OF assms(1,2)]) (auto simp: process_ok_def)
  have rec: "receives ?p me ref = receives p me ref" for ref using assms(2) by (auto simp: receives_def registered_def alive_def)
  have "alive ?p = alive p" using assms(2) by (auto simp: fun_eq_iff alive_def)
  then have loc: "local_ids ?p = local_ids p" by (simp add: local_ids_def)
  have room: "\<forall>ref node. receives ?p me ref \<longrightarrow> pr_nodes ?p ref = Some node \<longrightarrow> has_room env node"
    using assms(6) unfolding rec by (auto simp: receives_def)
  have me: "\<not> receives ?p me me" by (simp add: receives_def)
  have same: "remote_sends env ?self loc topic m svcs = remote_sends env self loc topic m svcs" "getUdpPort ?self = getUdpPort self"
    "nd_node_id ?self = nd_node_id self" "pr_registry ?p = pr_registry p" for loc m svcs
    by (cases "nd_udp self"; simp add: remote_sends_def getUdpPort_def udp_ready_def)+
  have self: "pr_nodes ?p me = Some ?self" "nd_running ?self" using assms(3) by simp_all
  from publish_room [OF ok self assms(4,5) room, of payload] obtain p' where
    "publish env me grp topic payload ?p = Some (NO_ERROR, p', remote_sends env self (local_ids p) topic packet (GlobalRegistry_findServices grp (pr_registry p)))"
    "process_ok p'" and nodes: "\<And>ref. pr_nodes p' ref = map_option (\<lambda>node. if receives p me ref \<and> isSubscribed grp topic node
        then put_message env (nd_node_id self) grp topic (str_bytes payload) node else node) (pr_nodes ?p ref)"
    unfolding loc same rec packet_def by blast
  moreover have "pr_nodes p' me = Some ?self" using nodes [of me] me unfolding rec by simp
  moreover have "pr_nodes ?p ref = pr_nodes p ref" if "ref \<noteq> me" for ref using that by simp
  ultimately show ?thesis by (intro exI [of _ p']) simp
qed

text \<open>C18: \<open>sendLargeData\<close> on an open channel, when the block fits without a wrap of the ring, is within the
  block limit and the channel has space for it, the names fit into the notification (channel below 32
  bytes, topic below 64), one of the readers is alive and the queues of the local subscribers have
  room: it returns \<open>NO_ERROR\<close>; the block is appended to what that reader still has to read, and no other
  channel changes; the notification, from which a receiver reads exactly the sequence number of the
  block, its size, the channel and the topic, is queued once at every other subscribed node of the
  process and sent in one packet to each remote node that offers the topic; nothing else changes
  apart from the node's own handle of the channel.\<close>

theorem send_large_data:
  assumes "process_ok p" "pr_nodes p me = Some self" "nd_running self" "grp \<noteq> []" "data \<noteq> []"
    "\<forall>ref node. receives p me ref \<longrightarrow> pr_nodes p ref = Some node \<longrightarrow> has_room nenv node"
    "om_lookup (nd_large_channels self) chn = Some (ch, a)" "lw_objects w a = (n, sh)" "channel_ok sh" "reader_rep sh i bs"
    "\<not> reader_dead (le_ld env) (rc_readers (ls_control sh) ! i)" "\<not> wraps (ls_control sh) (128 + length data)"
    "canWrite (128 + length data) sh" "length data \<le> ldc_max_block_size (ch_config ch)" "length data < 2 ^ 32"
    "rc_sequence (ls_control sh) < 2 ^ 63" "chn \<noteq> []" "no_nul chn" "length chn < 32" "topic \<noteq> []" "no_nul topic" "length topic < 64"
  shows "\<exists>p' ch' sh' now notif.
    sendLargeData nenv env me grp chn topic (Some data) (p, w) =
      Some (NO_ERROR, (p', w\<lparr>lw_objects := (lw_objects w)(a := (n, sh')), lw_last_cleanup := now\<rparr>),
        remote_sends nenv self (local_ids p) topic
          (MessageBuilder_build_string (nd_node_id self) grp topic notif (getUdpPort self) DATA)
          (GlobalRegistry_findServices grp (pr_registry p))) \<and>
    notification_of (str_bytes notif) =
      \<lparr>ln_sequence = rc_sequence (ls_control sh), ln_size = word_of_nat (length data), ln_channel_name = chn, ln_topic = topic\<rparr> \<and>
    channel_ok sh' \<and> reader_rep sh' i (bs @ [\<lparr>bk_seq = rc_sequence (ls_control sh), bk_topic = topic, bk_data = data\<rparr>]) \<and>
    process_ok p' \<and> pr_nodes p' me = Some (self\<lparr>nd_large_channels := om_insert chn (ch', a) (nd_large_channels self)\<rparr>) \<and>
    (\<forall>ref. ref \<noteq> me \<longrightarrow> pr_nodes p' ref = map_option (\<lambda>node.
        if receives p me ref \<and> isSubscribed grp topic node
        then put_message nenv (nd_node_id self) grp topic (str_bytes notif) node else node) (pr_nodes p ref))"
proof -
  obtain res lc' ch' sh' where wr: "LargeData_write (le_ld env) topic data (lw_last_cleanup w, ch, sh) = (res, lc', ch', sh')"
    using prod_cases4 by blast
  note acc = canWrite_accepted [OF wr assms(13,14,16)]
  have i: "i < MAX_READERS" "rs_active (rc_readers (ls_control sh) ! i)" using assms(10) by (auto simp: reader_rep_def)
  have slot: "rs_active (rc_readers (ls_control sh') ! i)"
    using write_keeps_slot(1) [OF assms(9) i(1) assms(11) wr _ assms(16)] assms(12) i(2) by simp
  have rep: "reader_rep sh' i (bs @ [written_block res topic data])"
    using reader_rep_written [OF assms(9,10) wr acc(2) slot assms(15)] assms(12) by simp
  have seq: "(word_of_int res :: u64) = rc_sequence (ls_control sh)" using acc(1) by simp
  let ?notif = "bytes_str (notification_bytes (rc_sequence (ls_control sh)) (length data) chn topic)"
  let ?chs = "om_insert chn (ch', a) (nd_large_channels self)"
  have "getLargeDataChannel env chn (self, w) = (Some (ch, a), self, w)"
    using assms(7,17) by (simp add: getLargeDataChannel_def)
  then have send: "sendLargeData nenv env me grp chn topic (Some data) (p, w) =
      map_option (\<lambda>(err, p2, acts). (err, (p2, w\<lparr>lw_objects := (lw_objects w)(a := (n, sh')), lw_last_cleanup := lc'\<rparr>), acts))
        (publish nenv me grp topic ?notif (set_node me (self\<lparr>nd_large_channels := ?chs\<rparr>) p))"
    using assms(2-5,8,13,17,20) wr acc(2) seq by (simp add: sendLargeData_def Let_def sizeof_LargeDataHeader_def)
  have notif: "notification_of (str_bytes ?notif) =
      \<lparr>ln_sequence = rc_sequence (ls_control sh), ln_size = word_of_nat (length data), ln_channel_name = chn, ln_topic = topic\<rparr>"
    unfolding str_bytes_bytes_str by (rule notification_roundtrip [OF assms(18,19,21,22)])
  have block: "reader_rep sh' i (bs @ [\<lparr>bk_seq = rc_sequence (ls_control sh), bk_topic = topic, bk_data = data\<rparr>])"
    using rep seq by (simp add: written_block_def)
  have ok: "channel_ok sh'" by (rule large_write_ok [OF assms(9) wr])
  from publish_with_channels [OF assms(1-4,20,6), of ?notif ?chs] show ?thesis
    unfolding send using notif block ok by fastforce
qed

theorem send_large_data_witness:
  "\<exists>p' sh' now notif acts. sendLargeData example_node_env \<lparr>le_ld = example_ld_env, le_os = example_ld_os, le_scan = []\<rparr> 0 ''g'' ''ch'' ''t'' (Some [1])
      (set_node 0 ((NodeImpl 0 ''a'' False MODE_AUTO)\<lparr>nd_large_channels := [(''ch'', (LargeDataChannel_init example_ld_config, 5))]\<rparr>) example_process,
       \<lparr>lw_names = [''ch'' \<mapsto> 5], lw_objects = (\<lambda>_. (4096, example_ld_shm)), lw_next = 6, lw_cleanup_done = True, lw_last_cleanup = 0\<rparr>) =
      Some (NO_ERROR, (p', \<lparr>lw_names = [''ch'' \<mapsto> 5], lw_objects = (\<lambda>_. (4096, example_ld_shm))(5 := (4096, sh')), lw_next = 6, lw_cleanup_done = True,
        lw_last_cleanup = now\<rparr>), acts) \<and>
    reader_rep sh' 0 [\<lparr>bk_seq = 0, bk_topic = ''t'', bk_data = [1]\<rparr>] \<and>
    notification_of (str_bytes notif) = \<lparr>ln_sequence = 0, ln_size = 1, ln_channel_name = ''ch'', ln_topic = ''t''\<rparr> \<and>
    pr_nodes p' 2 = Some (put_message example_node_env ''a'' ''g'' ''t'' (str_bytes notif) example_subscriber)"
proof -
  let ?self = "(NodeImpl 0 ''a'' False MODE_AUTO)\<lparr>nd_large_channels := [(''ch'', (LargeDataChannel_init example_ld_config, 5))]\<rparr>"
  let ?p = "set_node 0 ?self example_process"
  let ?w = "\<lparr>lw_names = [''ch'' \<mapsto> 5], lw_objects = (\<lambda>_. (4096, example_ld_shm)), lw_next = 6, lw_cleanup_done = True, lw_last_cleanup = 0\<rparr>"
  let ?env = "\<lparr>le_ld = example_ld_env, le_os = example_ld_os, le_scan = []\<rparr>"
  have pok: "process_ok ?p"
    by (rule process_ok_set_node [OF example_process_ok example_process_facts(1)]) (simp_all add: NodeImpl_def om_wf_def)
  have p: "pr_nodes ?p 0 = Some ?self" by simp
  have sub: "receives ?p 0 ref \<longleftrightarrow> ref = 2" "pr_nodes ?p 2 = Some example_subscriber" for ref
    using example_process_facts by (auto simp: receives_def registered_def alive_def)
  have room: "\<forall>ref node. receives ?p 0 ref \<longrightarrow> pr_nodes ?p ref = Some node \<longrightarrow> has_room example_node_env node"
    using sub example_subscriber_facts(5) by simp
  have run: "nd_running ?self" "nd_node_id ?self = ''a''" by (simp_all add: NodeImpl_def)
  have chan: "om_lookup (nd_large_channels ?self) ''ch'' = Some (LargeDataChannel_init example_ld_config, 5)" by (simp add: om_lookup_def)
  have obj: "lw_objects ?w 5 = (4096, example_ld_shm)" by simp
  have ok: "channel_ok example_ld_shm" and rep: "reader_rep example_ld_shm 0 []"
    and dead: "\<not> reader_dead (le_ld ?env) (rc_readers (ls_control example_ld_shm) ! 0)"
    using example_ld_rep by (simp_all add: ld_rep_at_def)
  have nowrap: "\<not> wraps (ls_control example_ld_shm) (128 + length [1 :: u8])"
    by (simp add: wraps_def example_ld_control created_shm_def example_ld_config_def)
  have seq: "rc_sequence (ls_control example_ld_shm) = 0" by (simp add: example_ld_control created_shm_def)
  have can: "canWrite (128 + length [1 :: u8]) example_ld_shm"
    by (simp add: canWrite_def getAvailableSpace_def Let_def example_ld_control created_shm_def example_ld_config_def)
  have lim: "length [1 :: u8] \<le> ldc_max_block_size (ch_config (LargeDataChannel_init example_ld_config))" "rc_sequence (ls_control example_ld_shm) < 2 ^ 63"
    by (simp_all add: LargeDataChannel_init_def example_ld_config_def seq)
  from send_large_data [OF pok p run(1) _ _ room chan obj ok rep dead nowrap can lim(1) _ lim(2), of "''g''" "''t''"]
  obtain p' sh' now notif acts where "sendLargeData example_node_env ?env 0 ''g'' ''ch'' ''t'' (Some [1]) (?p, ?w) =
      Some (NO_ERROR, (p', ?w\<lparr>lw_objects := (lw_objects ?w)(5 := (4096, sh')), lw_last_cleanup := now\<rparr>), acts)"
    "notification_of (str_bytes notif) = \<lparr>ln_sequence = 0, ln_size = 1, ln_channel_name = ''ch'', ln_topic = ''t''\<rparr>"
    "reader_rep sh' 0 [\<lparr>bk_seq = 0, bk_topic = ''t'', bk_data = [1]\<rparr>]"
    "pr_nodes p' 2 = Some (put_message example_node_env ''a'' ''g'' ''t'' (str_bytes notif) example_subscriber)"
    unfolding seq run(2) sub(1) by (auto simp: no_nul_def sub(2) example_subscriber_facts(3) simp del: set_node_simps)
  then show ?thesis by auto
qed

end
